(* ===== verification/Prelude.thy ===== *)
theory Prelude
  imports Complex_Main "HOL-Library.Word" "HOL-Library.Multiset"
begin

text \<open>
  Shared vocabulary of the development.

  The Rust sources are modelled as they run under the release profile of the
  workspace \<^verbatim>\<open>Cargo.toml\<close>: \<^verbatim>\<open>debug_assert!\<close> is off and
  \<^verbatim>\<open>overflow-checks = true\<close>, so an arithmetic overflow panics instead of
  wrapping.  A fallible operation returns a value of type \<open>('e, 'a) res\<close>:
  \<open>Inr v\<close> is a normal return (or \<^verbatim>\<open>Ok v\<close>), \<open>Inl (Err e)\<close> is a returned
  \<^verbatim>\<open>Err(e)\<close>, and \<open>Inl Panic\<close> is a Rust panic (failed assertion,
  \<^verbatim>\<open>unwrap\<close> on an error, overflow, out-of-range index).  Loops whose end depends
  on the stored data take a bound on their number of iterations; \<open>Inl OutOfFuel\<close>
  is the result of a loop that needs more, so a theorem that an operation
  returns also says that the bound was enough.

  A \<^verbatim>\<open>u64\<close> or \<^verbatim>\<open>usize\<close> value is a \<^typ>\<open>nat\<close> below \<open>2 ^ 64\<close>, with every
  operation that could leave that range written as a checked operation;
  values whose bits are inspected are words of the library theory Word.
\<close>

named_theorems res_simps \<open>evaluation of result-valued code\<close>
named_theorems arith_defs \<open>definitions of the checked machine arithmetic\<close>

section \<open>Results\<close>

datatype 'e fault = Panic | Err 'e | OutOfFuel

type_synonym ('e, 'a) res = "'e fault + 'a"

text \<open>The \<^verbatim>\<open>?\<close> operator: continue with the value or return the fault.\<close>

definition rbind :: "('e, 'a) res \<Rightarrow> ('a \<Rightarrow> ('e, 'b) res) \<Rightarrow> ('e, 'b) res" where
  "rbind m f = (case m of Inl e \<Rightarrow> Inl e | Inr v \<Rightarrow> f v)"

lemma rbind_simps [simp, res_simps]:
  "rbind (Inl e) f = Inl e"
  "rbind (Inr v) f = f v"
  by (simp_all add: rbind_def)

lemma rbind_cong [fundef_cong]:
  "m = m' \<Longrightarrow> (\<And>v. m' = Inr v \<Longrightarrow> f v = g v) \<Longrightarrow> rbind m f = rbind m' g"
  by (cases m') (simp_all add: rbind_def)

lemma rbind_Inr_iff: "rbind m f = Inr w \<longleftrightarrow> (\<exists>v. m = Inr v \<and> f v = Inr w)"
  by (cases m) simp_all

lemma rbind_InrE:
  assumes "rbind m f = Inr w"
  obtains v where "m = Inr v" "f v = Inr w"
  using assms by (auto simp: rbind_Inr_iff)

lemma rbind_assoc: "rbind (rbind m f) g = rbind m (\<lambda>v. rbind (f v) g)"
  by (cases m) simp_all

text \<open>\<^verbatim>\<open>assert!\<close> and an early \<^verbatim>\<open>return Err(..)\<close> behind a condition.\<close>

definition rassert :: "bool \<Rightarrow> ('e, unit) res" where
  "rassert b = (if b then Inr () else Inl Panic)"

definition rguard :: "bool \<Rightarrow> 'e \<Rightarrow> ('e, unit) res" where
  "rguard b e = (if b then Inr () else Inl (Err e))"

lemma rassert_simps [simp, res_simps]:
  "rassert True = Inr ()" "rassert False = Inl Panic"
  "rassert b = Inr u \<longleftrightarrow> b"
  by (simp_all add: rassert_def)

lemma rguard_simps [simp, res_simps]:
  "rguard True e = Inr ()" "rguard False e = Inl (Err e)"
  "rguard b e = Inr u \<longleftrightarrow> b"
  by (simp_all add: rguard_def)

text \<open>\<^verbatim>\<open>unwrap\<close> on an option, and \<^verbatim>\<open>ok_or(e)\<close>.\<close>

definition unwrap :: "'a option \<Rightarrow> ('e, 'a) res" where
  "unwrap x = (case x of None \<Rightarrow> Inl Panic | Some v \<Rightarrow> Inr v)"

definition ok_or :: "'a option \<Rightarrow> 'e \<Rightarrow> ('e, 'a) res" where
  "ok_or x e = (case x of None \<Rightarrow> Inl (Err e) | Some v \<Rightarrow> Inr v)"

lemma unwrap_simps [simp, res_simps]:
  "unwrap None = Inl Panic" "unwrap (Some v) = Inr v"
  "unwrap x = Inr v \<longleftrightarrow> x = Some v"
  by (auto simp: unwrap_def split: option.splits)

lemma ok_or_simps [simp, res_simps]:
  "ok_or None e = Inl (Err e)" "ok_or (Some v) e = Inr v"
  "ok_or x e = Inr v \<longleftrightarrow> x = Some v"
  by (auto simp: ok_or_def split: option.splits)

text \<open>Slice indexing \<^verbatim>\<open>xs[i]\<close>: out of range panics.\<close>

definition idx :: "'a list \<Rightarrow> nat \<Rightarrow> ('e, 'a) res" where
  "idx xs i = (if i < length xs then Inr (xs ! i) else Inl Panic)"

lemma idx_simps [simp, res_simps]:
  "i < length xs \<Longrightarrow> idx xs i = Inr (xs ! i)"
  "length xs \<le> i \<Longrightarrow> idx xs i = Inl Panic"
  "idx xs i = Inr v \<longleftrightarrow> i < length xs \<and> xs ! i = v"
  by (auto simp: idx_def)

text \<open>
  A \<^verbatim>\<open>for\<close> loop whose body may return early, and a fallible \<^verbatim>\<open>map\<close> collected
  into \<^verbatim>\<open>Result<Vec<_>>\<close>.
\<close>

primrec rfold :: "('s \<Rightarrow> 'a \<Rightarrow> ('e, 's) res) \<Rightarrow> 's \<Rightarrow> 'a list \<Rightarrow> ('e, 's) res" where
  "rfold f s [] = Inr s"
| "rfold f s (x # xs) = rbind (f s x) (\<lambda>s'. rfold f s' xs)"

primrec rmap :: "('a \<Rightarrow> ('e, 'b) res) \<Rightarrow> 'a list \<Rightarrow> ('e, 'b list) res" where
  "rmap f [] = Inr []"
| "rmap f (x # xs) = rbind (f x) (\<lambda>y. rbind (rmap f xs) (\<lambda>ys. Inr (y # ys)))"

lemma rfold_append: "rfold f s (xs @ ys) = rbind (rfold f s xs) (\<lambda>s'. rfold f s' ys)"
  by (induction xs arbitrary: s) (simp_all add: rbind_assoc)

lemma rfold_total:
  "(\<And>s x. x \<in> set xs \<Longrightarrow> f s x = Inr (g s x)) \<Longrightarrow> rfold f s xs = Inr (foldl g s xs)"
  by (induction xs arbitrary: s) simp_all

lemma rfold_inv:
  assumes "rfold f s xs = Inr t" and "P s"
    and "\<And>s x s'. x \<in> set xs \<Longrightarrow> P s \<Longrightarrow> f s x = Inr s' \<Longrightarrow> P s'"
  shows "P t"
  using assms by (induction xs arbitrary: s) (auto simp: rbind_Inr_iff)

lemma rfold_unit_iff: "rfold f () xs = Inr u \<longleftrightarrow> (\<forall>x\<in>set xs. f () x = Inr ())"
  by (induction xs) (auto simp: rbind_Inr_iff)

lemma rmap_total: "(\<And>x. x \<in> set xs \<Longrightarrow> f x = Inr (g x)) \<Longrightarrow> rmap f xs = Inr (map g xs)"
  by (induction xs) simp_all

lemma rmap_Inr_iff:
  "rmap f xs = Inr ys \<longleftrightarrow> length ys = length xs \<and> (\<forall>i < length xs. f (xs ! i) = Inr (ys ! i))"
proof (induction xs arbitrary: ys)
  case Nil
  then show ?case by auto
next
  case (Cons x xs)
  show ?case
  proof (cases ys)
    case Nil
    then show ?thesis by (auto simp: rbind_Inr_iff)
  next
    case (Cons y ys')
    then show ?thesis
      by (auto simp: rbind_Inr_iff Cons.IH nth_Cons split: nat.splits)
  qed
qed

section \<open>Checked 64-bit arithmetic\<close>

definition u64_max :: nat where
  "u64_max = 2 ^ 64 - 1"

definition chk64 :: "nat \<Rightarrow> ('e, nat) res" where
  "chk64 n = (if n < 2 ^ 64 then Inr n else Inl Panic)"

definition add64 :: "nat \<Rightarrow> nat \<Rightarrow> ('e, nat) res" where
  "add64 a b = chk64 (a + b)"

definition sub64 :: "nat \<Rightarrow> nat \<Rightarrow> ('e, nat) res" where
  "sub64 a b = (if b \<le> a then Inr (a - b) else Inl Panic)"

definition mul64 :: "nat \<Rightarrow> nat \<Rightarrow> ('e, nat) res" where
  "mul64 a b = chk64 (a * b)"

definition div64 :: "nat \<Rightarrow> nat \<Rightarrow> ('e, nat) res" where
  "div64 a b = (if b = 0 then Inl Panic else Inr (a div b))"

definition sat_add64 :: "nat \<Rightarrow> nat \<Rightarrow> nat" where
  "sat_add64 a b = min (a + b) u64_max"

definition sat_sub64 :: "nat \<Rightarrow> nat \<Rightarrow> nat" where
  "sat_sub64 a b = a - b"

definition sat_mul64 :: "nat \<Rightarrow> nat \<Rightarrow> nat" where
  "sat_mul64 a b = min (a * b) u64_max"

definition checked_add64 :: "nat \<Rightarrow> nat \<Rightarrow> nat option" where
  "checked_add64 a b = (if a + b < 2 ^ 64 then Some (a + b) else None)"

definition checked_mul64 :: "nat \<Rightarrow> nat \<Rightarrow> nat option" where
  "checked_mul64 a b = (if a * b < 2 ^ 64 then Some (a * b) else None)"

definition div_ceil :: "nat \<Rightarrow> nat \<Rightarrow> nat" where
  "div_ceil a b = (if a mod b = 0 then a div b else a div b + 1)"

text \<open>\<^verbatim>\<open>iter().sum::<u64>()\<close>.\<close>

definition sum64 :: "nat list \<Rightarrow> ('e, nat) res" where
  "sum64 xs = rfold add64 0 xs"

lemmas [arith_defs] = u64_max_def chk64_def add64_def sub64_def mul64_def div64_def
  sat_add64_def sat_sub64_def sat_mul64_def checked_add64_def checked_mul64_def

lemma add64_Inr [simp, res_simps]: "a + b < 2 ^ 64 \<Longrightarrow> add64 a b = Inr (a + b)"
  by (simp add: arith_defs)

lemma sub64_Inr [simp, res_simps]: "b \<le> a \<Longrightarrow> sub64 a b = Inr (a - b)"
  by (simp add: arith_defs)

lemma mul64_Inr [simp, res_simps]: "a * b < 2 ^ 64 \<Longrightarrow> mul64 a b = Inr (a * b)"
  by (simp add: arith_defs)

lemma div64_Inr [simp, res_simps]: "b \<noteq> 0 \<Longrightarrow> div64 a b = Inr (a div b)"
  by (simp add: arith_defs)

lemma add64_iff: "add64 a b = Inr c \<longleftrightarrow> c = a + b \<and> a + b < 2 ^ 64"
  by (auto simp: arith_defs)

lemma sub64_iff: "sub64 a b = Inr c \<longleftrightarrow> c = a - b \<and> b \<le> a"
  by (auto simp: arith_defs)

lemma mul64_iff: "mul64 a b = Inr c \<longleftrightarrow> c = a * b \<and> a * b < 2 ^ 64"
  by (auto simp: arith_defs)

lemma div64_iff: "div64 a b = Inr c \<longleftrightarrow> c = a div b \<and> b \<noteq> 0"
  by (auto simp: arith_defs)

lemma rfold_add64:
  "rfold add64 s xs = (if s + sum_list xs < 2 ^ 64 \<or> xs = [] then Inr (s + sum_list xs) else Inl Panic)"
proof (induction xs arbitrary: s)
  case Nil
  then show ?case by simp
next
  case (Cons x xs)
  show ?case
  proof (cases "s + x < 2 ^ 64")
    case True
    with Cons show ?thesis by (auto simp: add.assoc)
  next
    case False
    then show ?thesis by (simp add: add64_def chk64_def)
  qed
qed

lemma sum64_eq: "sum64 xs = (if sum_list xs < 2 ^ 64 then Inr (sum_list xs) else Inl Panic)"
  by (auto simp: sum64_def rfold_add64)

lemma sum64_Inr [simp, res_simps]: "sum_list xs < 2 ^ 64 \<Longrightarrow> sum64 xs = Inr (sum_list xs)"
  by (simp add: sum64_eq)

lemma div_ceil_mult_ge: "0 < b \<Longrightarrow> a \<le> div_ceil a b * b"
proof -
  assume b: "0 < b"
  define q r where "q = a div b" and "r = a mod b"
  have "a = q * b + r" "r < b" by (simp_all add: q_def r_def b)
  then show ?thesis
    by (simp add: div_ceil_def q_def [symmetric] r_def [symmetric])
qed

lemma div_ceil_pos: "0 < a \<Longrightarrow> 0 < b \<Longrightarrow> 0 < div_ceil a b"
  using div_ceil_mult_ge [of b a] by (cases "div_ceil a b = 0") auto

lemma div_ceil_le: "div_ceil a b \<le> a div b + 1"
  by (simp add: div_ceil_def)

section \<open>Lists\<close>

text \<open>\<^verbatim>\<open>windows(2)\<close> and the pairs it yields.\<close>

fun windows2 :: "'a list \<Rightarrow> ('a \<times> 'a) list" where
  "windows2 (x # y # zs) = (x, y) # windows2 (y # zs)"
| "windows2 xs = []"

text \<open>\<^verbatim>\<open>Iterator::position\<close>.\<close>

fun position :: "('a \<Rightarrow> bool) \<Rightarrow> 'a list \<Rightarrow> nat option" where
  "position p [] = None"
| "position p (x # xs) = (if p x then Some 0 else map_option Suc (position p xs))"

lemma position_SomeD:
  "position p xs = Some i \<Longrightarrow> i < length xs \<and> p (xs ! i) \<and> (\<forall>j < i. \<not> p (xs ! j))"
proof (induction xs arbitrary: i)
  case Nil
  then show ?case by simp
next
  case (Cons x xs)
  show ?case
  proof (cases "p x")
    case True
    with Cons.prems show ?thesis by simp
  next
    case False
    with Cons.prems obtain k where k: "position p xs = Some k" "i = Suc k" by auto
    from Cons.IH [OF k(1)] False show ?thesis
      by (auto simp: k(2) less_Suc_eq_0_disj)
  qed
qed

lemma position_None_iff: "position p xs = None \<longleftrightarrow> (\<forall>x \<in> set xs. \<not> p x)"
  by (induction xs) auto

lemma position_unique:
  "distinct xs \<Longrightarrow> i < length xs \<Longrightarrow> position (\<lambda>c. c = xs ! i) xs = Some i"
proof (induction xs arbitrary: i)
  case Nil
  then show ?case by simp
next
  case (Cons x xs)
  then show ?case by (cases i) auto
qed

text \<open>\<^verbatim>\<open>chunks_exact(n)\<close>: the full chunks, a shorter remainder is dropped.\<close>

function chunks_exact :: "nat \<Rightarrow> 'a list \<Rightarrow> 'a list list" where
  "chunks_exact n xs = (if 0 < n \<and> n \<le> length xs then take n xs # chunks_exact n (drop n xs) else [])"
  by pat_completeness auto
termination
  by (relation "measure (\<lambda>(n, xs). length xs)") auto

declare chunks_exact.simps [simp del]

lemma chunks_exact_concat:
  "0 < n \<Longrightarrow> \<forall>c \<in> set cs. length c = n \<Longrightarrow> chunks_exact n (concat cs) = cs"
proof (induction cs)
  case Nil
  then show ?case by (simp add: chunks_exact.simps)
next
  case (Cons c cs)
  then show ?case by (simp add: chunks_exact.simps [of n "c @ concat cs"])
qed

section \<open>Binary search\<close>

text \<open>
  \<^verbatim>\<open>slice::binary_search_by_key\<close> of the Rust standard library: the loop halves
  the window and keeps \<open>base\<close>, then one last comparison decides.  The key
  function may panic.  \<open>Inr i\<close> is \<^verbatim>\<open>Ok(i)\<close>, \<open>Inl i\<close> is \<^verbatim>\<open>Err(i)\<close>, the insertion
  position.
\<close>

function bsearch_loop :: "('a \<Rightarrow> ('e, nat) res) \<Rightarrow> 'a list \<Rightarrow> nat \<Rightarrow> nat \<Rightarrow> nat \<Rightarrow> ('e, nat) res" where
  "bsearch_loop key xs point window base =
     (if window \<le> 1 then Inr base
      else rbind (key (xs ! (base + window div 2))) (\<lambda>k.
        bsearch_loop key xs point (window - window div 2)
          (if point < k then base else base + window div 2)))"
  by pat_completeness auto
termination
  by (relation "measure (\<lambda>(key, xs, point, window, base). window)") auto

declare bsearch_loop.simps [simp del]

definition binary_search_by_key ::
  "('a \<Rightarrow> ('e, nat) res) \<Rightarrow> 'a list \<Rightarrow> nat \<Rightarrow> ('e, nat + nat) res" where
  "binary_search_by_key key xs point =
     (if xs = [] then Inr (Inl 0)
      else rbind (bsearch_loop key xs point (length xs) 0) (\<lambda>base.
        rbind (key (xs ! base)) (\<lambda>k.
        Inr (if k = point then Inr base else if k < point then Inl (base + 1) else Inl base))))"

lemma bsearch_loop_spec:
  assumes "\<And>x. x \<in> set xs \<Longrightarrow> key x = Inr (g x)"
    and "0 < window" and "base + window \<le> length xs"
    and "base = 0 \<or> g (xs ! base) \<le> point"
    and "\<And>j. base + window \<le> j \<Longrightarrow> j < length xs \<Longrightarrow> point < g (xs ! j)"
    and "sorted_wrt (<) (map g xs)"
  shows "\<exists>b < length xs. (bsearch_loop key xs point window base :: ('e, nat) res) = Inr b \<and>
           (b = 0 \<or> g (xs ! b) \<le> point) \<and> (\<forall>j. b < j \<longrightarrow> j < length xs \<longrightarrow> point < g (xs ! j))"
  using assms(2-5)
proof (induction window arbitrary: base rule: less_induct)
  case (less window)
  show ?case
  proof (cases "window \<le> 1")
    case True
    with less.prems have "window = 1" by simp
    with less.prems show ?thesis
      by (intro exI [of _ base]) (simp add: bsearch_loop.simps)
  next
    case False
    define mid where "mid = base + window div 2"
    define k where "k = g (xs ! mid)"
    have mid: "mid < length xs" "base < mid" "window - window div 2 < window"
      using False less.prems by (auto simp: mid_def)
    have step: "bsearch_loop key xs point window base =
        (bsearch_loop key xs point (window - window div 2) (if point < k then base else mid) :: ('e, nat) res)"
      using False mid assms(1) [of "xs ! mid"]
      by (simp add: bsearch_loop.simps [of key xs point window] mid_def k_def)
    have up: "point < g (xs ! j)" if "point < k" "mid \<le> j" "j < length xs" for j
      using that assms(6) sorted_wrt_nth_less [OF assms(6), of mid j]
      by (cases "mid = j") (auto simp: k_def)
    show ?thesis
      unfolding step
    proof (rule less.IH)
      show "(if point < k then base else mid) + (window - window div 2) \<le> j \<Longrightarrow> j < length xs \<Longrightarrow>
          point < g (xs ! j)" for j
        using less.prems(4) up by (cases "point < k") (auto simp: mid_def)
    qed (use less.prems mid False in \<open>auto simp: k_def mid_def\<close>)
  qed
qed

lemma binary_search_by_key_spec:
  assumes "\<And>x. x \<in> set xs \<Longrightarrow> key x = (Inr (g x) :: ('e, nat) res)"
    and "sorted_wrt (<) (map g xs)"
  shows "(\<exists>i < length xs. binary_search_by_key key xs point = Inr (Inr i) \<and> g (xs ! i) = point) \<or>
         (\<exists>i \<le> length xs. binary_search_by_key key xs point = Inr (Inl i) \<and>
            (\<forall>j < i. g (xs ! j) < point) \<and> (\<forall>j. i \<le> j \<longrightarrow> j < length xs \<longrightarrow> point < g (xs ! j)))"
proof (cases "xs = []")
  case True
  then show ?thesis by (simp add: binary_search_by_key_def)
next
  case False
  then obtain b where b: "b < length xs" "bsearch_loop key xs point (length xs) 0 = (Inr b :: ('e, nat) res)"
    "b = 0 \<or> g (xs ! b) \<le> point" "\<forall>j. b < j \<longrightarrow> j < length xs \<longrightarrow> point < g (xs ! j)"
    using bsearch_loop_spec [of xs key g "length xs" 0 point] assms by auto
  have key: "key (xs ! b) = Inr (g (xs ! b))" using assms(1) b(1) by simp
  have mono: "g (xs ! j) < g (xs ! b)" if "j < b" for j
    using that b(1) sorted_wrt_nth_less [OF assms(2), of j b] by simp
  consider "g (xs ! b) = point" | "g (xs ! b) < point" | "point < g (xs ! b)" by linarith
  then show ?thesis
  proof cases
    case 1
    then show ?thesis using False b key by (auto simp: binary_search_by_key_def)
  next
    case 2
    have "\<forall>j < b + 1. g (xs ! j) < point" using 2 mono by (metis less_SucE Suc_eq_plus1 less_trans)
    with 2 False b key show ?thesis
      by (intro disjI2 exI [of _ "b + 1"]) (auto simp: binary_search_by_key_def Suc_le_eq)
  next
    case 3
    with b have "b = 0" by auto
    have "binary_search_by_key key xs point = Inr (Inl 0)"
      using False b(2) key 3 unfolding \<open>b = 0\<close> by (simp add: binary_search_by_key_def)
    moreover have "point < g (xs ! j)" if "j < length xs" for j
      using that 3 b(4) \<open>b = 0\<close> by (cases "j = 0") auto
    ultimately show ?thesis by auto
  qed
qed

end
