(* ===== verification/Floats.thy ===== *)
theory Floats
  imports Prelude "HOL-Library.Log_Nat"
begin

text \<open>
  The binary floating-point arithmetic that the Rust sources use, on the
  finite values that occur: a float is the rational it denotes, and every
  operation is the exact one followed by rounding to nearest, ties to even,
  with \<open>p\<close> bits of precision and least exponent \<open>emin\<close> (IEEE 754; subnormal
  numbers included).  \<^verbatim>\<open>f32\<close> has \<open>p = 24\<close>, \<open>emin = -149\<close>; \<^verbatim>\<open>f64\<close> has \<open>p = 53\<close>,
  \<open>emin = -1074\<close>.
\<close>

text \<open>The exponent \<open>e\<close> with \<open>2 ^ e \<le> x < 2 ^ (e + 1)\<close> of a positive \<open>x\<close>.\<close>

definition exponent_of :: "rat \<Rightarrow> int" where
  "exponent_of x = (let (n, d) = quotient_of x; e = bitlen n - bitlen d
                    in if 2 powi e \<le> x then e else e - 1)"

definition round_half_even :: "rat \<Rightarrow> int" where
  "round_half_even m = (let f = \<lfloor>m\<rfloor>; r = m - of_int f
                        in if r < 1 / 2 \<or> r = 1 / 2 \<and> even f then f else f + 1)"

definition fround :: "nat \<Rightarrow> int \<Rightarrow> rat \<Rightarrow> rat" where
  "fround p emin x = (if x = 0 then 0 else
     let q = max (exponent_of \<bar>x\<bar> - (int p - 1)) emin
     in of_int (round_half_even (x / 2 powi q)) * 2 powi q)"

definition f32 :: "rat \<Rightarrow> rat" where
  "f32 = fround 24 (- 149)"

definition f64 :: "rat \<Rightarrow> rat" where
  "f64 = fround 53 (- 1074)"

text \<open>\<^verbatim>\<open>x as u64\<close>: truncation that saturates at both ends.\<close>

definition as_u64 :: "rat \<Rightarrow> nat" where
  "as_u64 x = min (nat \<lfloor>x\<rfloor>) u64_max"

text \<open>\<^verbatim>\<open>f64::round\<close>: to the nearest integer, halves away from zero.\<close>

definition round_away :: "rat \<Rightarrow> rat" where
  "round_away x = (if 0 \<le> x then of_int \<lfloor>x + 1 / 2\<rfloor> else - of_int \<lfloor>1 / 2 - x\<rfloor>)"

lemma bitlen_bounds_pos:
  assumes "0 < (n::int)"
  shows "(2::rat) powi (bitlen n - 1) \<le> of_int n" "of_int n < (2::rat) powi (bitlen n)"
proof -
  have b: "2 ^ nat (bitlen n - 1) \<le> n" "n < 2 ^ nat (bitlen n)"
    using bitlen_bounds [OF assms] by auto
  have pos: "0 < bitlen n"
    using assms b(2) by (cases "bitlen n \<le> 0") auto
  have e: "(2::rat) powi (int k) = of_int (2 ^ k)" for k by simp
  have "(2::rat) powi (bitlen n - 1) = of_int (2 ^ nat (bitlen n - 1))"
    using e [of "nat (bitlen n - 1)"] pos by simp
  also have "\<dots> \<le> of_int n" using b(1) by (simp only: of_int_le_iff)
  finally show "(2::rat) powi (bitlen n - 1) \<le> of_int n" .
  have "(of_int n :: rat) < of_int (2 ^ nat (bitlen n))" using b(2) by (simp only: of_int_less_iff)
  also have "\<dots> = (2::rat) powi (bitlen n)"
    using e [of "nat (bitlen n)"] pos by simp
  finally show "of_int n < (2::rat) powi (bitlen n)" .
qed

lemma exponent_of_bounds:
  assumes "0 < x"
  shows "2 powi (exponent_of x) \<le> x" "x < 2 powi (exponent_of x + 1)"
proof -
  obtain n d where nd: "quotient_of x = (n, d)" by fastforce
  define e where "e = bitlen n - bitlen d"
  have d: "0 < d" using nd by (rule quotient_of_denom_pos)
  have x: "x = of_int n / of_int d" using nd by (rule quotient_of_div)
  have n: "0 < n" using assms x d by (simp add: zero_less_divide_iff)
  note bn = bitlen_bounds_pos [OF n] and bd = bitlen_bounds_pos [OF d]
  have lower: "(2::rat) powi (e - 1) \<le> x"
  proof -
    have "(2::rat) powi (e - 1) = 2 powi (bitlen n - 1) / 2 powi (bitlen d)"
      by (simp add: e_def diff_diff_eq algebra_simps flip: power_int_diff)
    also have "\<dots> \<le> of_int n / of_int d"
      using bn(1) bd(2) d n by (intro frac_le) auto
    finally show ?thesis using x by simp
  qed
  have upper: "x < 2 powi (e + 1)"
  proof -
    have "x < (2::rat) powi (bitlen n) / of_int d"
      using bn(2) d x by (simp add: divide_strict_right_mono)
    also have "\<dots> \<le> 2 powi (bitlen n) / 2 powi (bitlen d - 1)"
      using bd(1) d by (intro divide_left_mono mult_pos_pos) auto
    also have "\<dots> = 2 powi (e + 1)"
      by (simp add: e_def power_int_diff power_int_add)
    finally show ?thesis .
  qed
  have eq: "exponent_of x = (if 2 powi e \<le> x then e else e - 1)"
    by (simp add: exponent_of_def nd e_def)
  show "2 powi (exponent_of x) \<le> x" using lower by (simp add: eq)
  show "x < 2 powi (exponent_of x + 1)" using upper by (simp add: eq)
qed

lemma round_half_even_error: "\<bar>of_int (round_half_even m) - m\<bar> \<le> 1 / 2"
proof -
  have "of_int \<lfloor>m\<rfloor> \<le> m" "m < of_int \<lfloor>m\<rfloor> + 1" by (auto simp: floor_less_cancel)
  then show ?thesis by (auto simp: round_half_even_def Let_def abs_le_iff)
qed

text \<open>The rounding error is at most half a unit in the last place.\<close>

lemma fround_error:
  assumes "0 < x"
  shows "\<bar>fround p emin x - x\<bar> \<le> 2 powi (max (exponent_of x - (int p - 1)) emin) / 2"
proof -
  define q where "q = max (exponent_of x - (int p - 1)) emin"
  define m where "m = x / 2 powi q"
  have pos: "(0::rat) < 2 powi q" by simp
  have "fround p emin x - x = (of_int (round_half_even m) - m) * 2 powi q"
    using assms pos by (simp add: fround_def q_def m_def left_diff_distrib Let_def)
  then have "\<bar>fround p emin x - x\<bar> = \<bar>of_int (round_half_even m) - m\<bar> * 2 powi q"
    by (simp add: abs_mult)
  also have "\<dots> \<le> 1 / 2 * 2 powi q"
    using round_half_even_error pos by (intro mult_right_mono) auto
  finally show ?thesis by (simp add: q_def)
qed

text \<open>Relative error of a value in the normal range.\<close>

lemma fround_rel_error:
  assumes "0 < x" and "emin \<le> exponent_of x - (int p - 1)"
  shows "\<bar>fround p emin x - x\<bar> \<le> x * 2 powi (- int p)"
proof -
  have "max (exponent_of x - (int p - 1)) emin = exponent_of x - (int p - 1)" using assms(2) by simp
  then have "\<bar>fround p emin x - x\<bar> \<le> 2 powi (exponent_of x - (int p - 1)) / 2"
    using fround_error [OF assms(1), of p emin] by simp
  also have "\<dots> = 2 powi (exponent_of x) * 2 powi (- int p)"
    by (simp add: power_int_diff power_int_minus power_int_add field_simps)
  also have "\<dots> \<le> x * 2 powi (- int p)"
    using exponent_of_bounds(1) [OF assms(1)] by (intro mult_right_mono) auto
  finally show ?thesis .
qed

lemma exponent_of_ge:
  assumes "2 powi k \<le> x"
  shows "k \<le> exponent_of x"
proof (rule ccontr)
  assume "\<not> k \<le> exponent_of x"
  then have "exponent_of x + 1 \<le> k" by simp
  then have "(2::rat) powi (exponent_of x + 1) \<le> 2 powi k" by (intro power_int_increasing) auto
  moreover have "0 < x" using assms by (rule order.strict_trans2 [rotated]) simp
  ultimately show False using exponent_of_bounds(2) [of x] assms by simp
qed

text \<open>Casting an integer \<open>n \<ge> 1\<close> to \<^verbatim>\<open>f32\<close> and halving it stays strictly between \<open>0\<close> and \<open>n\<close>.\<close>

lemma f32_half_bounds:
  assumes "1 \<le> n"
  shows "0 < f32 (f32 (of_nat n) * (1 / 2))" "f32 (f32 (of_nat n) * (1 / 2)) \<le> of_nat n"
proof -
  define a :: rat where "a = f32 (of_nat n)"
  define \<epsilon> :: rat where "\<epsilon> = 2 powi (- 24)"
  have eps: "\<epsilon> = 1 / 16777216" by (simp add: \<epsilon>_def power_int_def power_divide)
  have n: "(1::rat) \<le> of_nat n" using assms by simp
  have "0 \<le> exponent_of (of_nat n)" using exponent_of_ge [of 0 "of_nat n"] n by simp
  then have "\<bar>a - of_nat n\<bar> \<le> of_nat n * \<epsilon>"
    using fround_rel_error [of "of_nat n" "- 149" 24] n by (simp add: a_def f32_def \<epsilon>_def)
  then have a: "of_nat n * (1 - \<epsilon>) \<le> a" "a \<le> of_nat n * (1 + \<epsilon>)"
    by (auto simp: abs_le_iff algebra_simps)
  have a_half: "1 / 2 \<le> a" using a(1) n by (simp add: eps)
  define b where "b = a * (1 / 2)"
  have "-2 \<le> exponent_of b"
    using exponent_of_ge [of "- 2" b] a_half by (simp add: b_def power_int_def power_divide)
  moreover have "0 < b" using a_half by (simp add: b_def)
  ultimately have "\<bar>f32 b - b\<bar> \<le> b * \<epsilon>"
    using fround_rel_error [of b "- 149" 24] by (simp add: f32_def \<epsilon>_def)
  then have h: "b * (1 - \<epsilon>) \<le> f32 b" "f32 b \<le> b * (1 + \<epsilon>)"
    by (auto simp: abs_le_iff algebra_simps)
  have b: "b = a / 2" by (simp add: b_def)
  show "0 < f32 (f32 (of_nat n) * (1 / 2))"
    unfolding a_def [symmetric] b_def [symmetric] using h(1) a_half by (simp add: eps b)
  show "f32 (f32 (of_nat n) * (1 / 2)) \<le> of_nat n"
    unfolding a_def [symmetric] b_def [symmetric] using h(2) a(2) n by (simp add: eps b)
qed

lemma as_u64_ceil_bounds:
  assumes "0 < x" and "x \<le> of_nat n" and "n < 2 ^ 64"
  shows "1 \<le> as_u64 (of_int \<lceil>x\<rceil>)" "as_u64 (of_int \<lceil>x\<rceil>) \<le> n"
proof -
  have c: "0 < \<lceil>x\<rceil>" "\<lceil>x\<rceil> \<le> int n" using assms by (auto simp: ceiling_le_iff less_ceiling_iff)
  then have "nat \<lceil>x\<rceil> \<le> n" by simp
  then have eq: "as_u64 (of_int \<lceil>x\<rceil>) = nat \<lceil>x\<rceil>"
    using assms(3) by (simp add: as_u64_def u64_max_def min_def)
  show "1 \<le> as_u64 (of_int \<lceil>x\<rceil>)" "as_u64 (of_int \<lceil>x\<rceil>) \<le> n"
    using c by (simp_all add: eq Suc_le_eq)
qed

end
