(* ===== verification/Interval.thy ===== *)
theory Interval
  imports Prelude Floats
begin

text \<open>
  Reachability intervals: \<^verbatim>\<open>consensus/src/processes/reachability/interval.rs\<close>.
  An interval is a pair of inclusive \<^verbatim>\<open>u64\<close> bounds; the empty interval at
  \<open>s\<close> has \<open>end = s - 1\<close>.
\<close>

section \<open>The operations of \<open>impl Interval\<close>\<close>

record interval =
  iv_start :: nat
  iv_end :: nat

text \<open>\<^verbatim>\<open>Interval::new\<close>; its assertions are \<^verbatim>\<open>debug_assert!\<close>s.\<close>

definition interval_new :: "nat \<Rightarrow> nat \<Rightarrow> interval" where
  "interval_new s e = \<lparr>iv_start = s, iv_end = e\<rparr>"

definition interval_empty :: interval where
  "interval_empty = interval_new 1 0"

definition interval_maximal :: interval where
  "interval_maximal = interval_new 1 (u64_max - 1)"

definition iv_size :: "interval \<Rightarrow> ('e, nat) res" where
  "iv_size i = rbind (add64 (iv_end i) 1) (\<lambda>e. sub64 e (iv_start i))"

definition iv_is_empty :: "interval \<Rightarrow> ('e, bool) res" where
  "iv_is_empty i = rbind (iv_size i) (\<lambda>n. Inr (n = 0))"

definition increase :: "interval \<Rightarrow> nat \<Rightarrow> ('e, interval) res" where
  "increase i off = rbind (add64 (iv_start i) off) (\<lambda>s.
     rbind (add64 (iv_end i) off) (\<lambda>e. Inr (interval_new s e)))"

definition decrease :: "interval \<Rightarrow> nat \<Rightarrow> ('e, interval) res" where
  "decrease i off = rbind (sub64 (iv_start i) off) (\<lambda>s.
     rbind (sub64 (iv_end i) off) (\<lambda>e. Inr (interval_new s e)))"

definition increase_start :: "interval \<Rightarrow> nat \<Rightarrow> ('e, interval) res" where
  "increase_start i off = rbind (add64 (iv_start i) off) (\<lambda>s. Inr (interval_new s (iv_end i)))"

definition decrease_start :: "interval \<Rightarrow> nat \<Rightarrow> ('e, interval) res" where
  "decrease_start i off = rbind (sub64 (iv_start i) off) (\<lambda>s. Inr (interval_new s (iv_end i)))"

definition increase_end :: "interval \<Rightarrow> nat \<Rightarrow> ('e, interval) res" where
  "increase_end i off = rbind (add64 (iv_end i) off) (\<lambda>e. Inr (interval_new (iv_start i) e))"

definition decrease_end :: "interval \<Rightarrow> nat \<Rightarrow> ('e, interval) res" where
  "decrease_end i off = rbind (sub64 (iv_end i) off) (\<lambda>e. Inr (interval_new (iv_start i) e))"

definition split_fraction :: "interval \<Rightarrow> rat \<Rightarrow> ('e, interval \<times> interval) res" where
  "split_fraction i fraction = rbind (iv_size i) (\<lambda>size.
     let left_size = as_u64 (of_int \<lceil>f32 (f32 (of_nat size) * fraction)\<rceil>) in
     rbind (add64 (iv_start i) left_size) (\<lambda>mid.
     rbind (sub64 mid 1) (\<lambda>left_end.
     Inr (interval_new (iv_start i) left_end, interval_new mid (iv_end i)))))"

definition split_half :: "interval \<Rightarrow> ('e, interval \<times> interval) res" where
  "split_half i = split_fraction i (1 / 2)"

text \<open>The \<^verbatim>\<open>map\<close> closure of \<^verbatim>\<open>split_exact\<close>, which advances \<^verbatim>\<open>start\<close>.\<close>

primrec split_from :: "nat \<Rightarrow> nat list \<Rightarrow> ('e, interval list) res" where
  "split_from start [] = Inr []"
| "split_from start (n # sizes) =
     rbind (add64 start n) (\<lambda>next.
     rbind (sub64 next 1) (\<lambda>last.
     rbind (split_from next sizes) (\<lambda>rest.
     Inr (interval_new start last # rest))))"

definition split_exact :: "interval \<Rightarrow> nat list \<Rightarrow> ('e, interval list) res" where
  "split_exact i sizes = rbind (sum64 sizes) (\<lambda>total. rbind (iv_size i) (\<lambda>size.
     rbind (rassert (total = size)) (\<lambda>_. split_from (iv_start i) sizes)))"

text \<open>
  \<^verbatim>\<open>1f64 / 2f64.powf(n as f64)\<close>: the power is exact below \<open>2 ^ 1024\<close> and infinite
  from there on, where the quotient is zero.
\<close>

definition inv_pow2 :: "nat \<Rightarrow> rat" where
  "inv_pow2 n = (if n < 1024 then f64 (1 / 2 ^ n) else 0)"

definition exponential_fractions :: "nat list \<Rightarrow> rat list" where
  "exponential_fractions sizes = (let max_size = fold max sizes 0;
     fractions = map (\<lambda>s. inv_pow2 (max_size - s)) sizes;
     fractions_sum = foldl (\<lambda>acc x. f64 (acc + x)) 0 fractions
   in map (\<lambda>x. f64 (x / fractions_sum)) fractions)"

text \<open>The loop of \<^verbatim>\<open>split_exponential\<close> over the enumerated fractions.\<close>

fun bias_sizes :: "nat \<Rightarrow> nat \<Rightarrow> nat list \<Rightarrow> rat list \<Rightarrow> ('e, nat list) res" where
  "bias_sizes total_bias remaining (n # sizes) (fraction # fractions) =
     (let bias = (if fractions = [] then remaining
                  else min remaining (as_u64 (round_away (f64 (f64 (of_nat total_bias) * fraction)))))
      in rbind (add64 n bias) (\<lambda>biased.
         rbind (sub64 remaining bias) (\<lambda>remaining'.
         rbind (bias_sizes total_bias remaining' sizes fractions) (\<lambda>rest. Inr (biased # rest)))))"
| "bias_sizes total_bias remaining [] (fraction # fractions) = Inl Panic"
| "bias_sizes total_bias remaining sizes [] = Inr []"

definition split_exponential :: "interval \<Rightarrow> nat list \<Rightarrow> ('e, interval list) res" where
  "split_exponential i sizes = rbind (iv_size i) (\<lambda>interval_size. rbind (sum64 sizes) (\<lambda>sizes_sum.
     rbind (rassert (sizes_sum \<le> interval_size)) (\<lambda>_. rbind (rassert (0 < sizes_sum)) (\<lambda>_.
     if interval_size = sizes_sum then split_exact i sizes
     else rbind (sub64 interval_size sizes_sum) (\<lambda>remaining_bias.
       rbind (bias_sizes remaining_bias remaining_bias sizes (exponential_fractions sizes)) (\<lambda>biased_sizes.
       split_exact i biased_sizes))))))"

definition iv_contains :: "interval \<Rightarrow> interval \<Rightarrow> bool" where
  "iv_contains i other \<longleftrightarrow> iv_start i \<le> iv_start other \<and> iv_end other \<le> iv_end i"

definition iv_strictly_contains :: "interval \<Rightarrow> interval \<Rightarrow> bool" where
  "iv_strictly_contains i other \<longleftrightarrow> iv_start i \<le> iv_start other \<and> iv_end other < iv_end i"

section \<open>Well-formed intervals\<close>

text \<open>The conditions that \<^verbatim>\<open>Interval::new\<close> asserts in debug builds.\<close>

definition iv_wf :: "interval \<Rightarrow> bool" where
  "iv_wf i \<longleftrightarrow> 0 < iv_start i \<and> iv_start i \<le> iv_end i + 1 \<and> iv_end i < u64_max"

text \<open>The size as a number, and the points of an interval.\<close>

definition iv_len :: "interval \<Rightarrow> nat" where
  "iv_len i = iv_end i + 1 - iv_start i"

definition iv_points :: "interval \<Rightarrow> nat set" where
  "iv_points i = {iv_start i .. iv_end i}"

lemma interval_new_sel [simp]:
  "iv_start (interval_new s e) = s" "iv_end (interval_new s e) = e"
  by (simp_all add: interval_new_def)

lemma interval_eq_iff: "(i :: interval) = j \<longleftrightarrow> iv_start i = iv_start j \<and> iv_end i = iv_end j"
  by (cases i; cases j) simp

lemma iv_size_wf [simp]: "iv_wf i \<Longrightarrow> iv_size i = Inr (iv_len i)"
  by (simp add: iv_size_def iv_wf_def iv_len_def u64_max_def)

lemma iv_is_empty_wf [simp]: "iv_wf i \<Longrightarrow> iv_is_empty i = Inr (iv_len i = 0)"
  by (simp add: iv_is_empty_def)

lemma iv_wf_maximal: "iv_wf interval_maximal"
  by (simp add: iv_wf_def interval_maximal_def u64_max_def)

lemma iv_len_bound: "iv_wf i \<Longrightarrow> iv_len i < u64_max"
  by (auto simp: iv_wf_def iv_len_def u64_max_def)

lemma card_iv_points: "iv_wf i \<Longrightarrow> card (iv_points i) = iv_len i"
  by (simp add: iv_points_def iv_len_def)

section \<open>Splitting\<close>

text \<open>The partition that a split promises: consecutive parts of the given sizes.\<close>

primrec tiles :: "nat \<Rightarrow> nat list \<Rightarrow> interval list" where
  "tiles s [] = []"
| "tiles s (n # ns) = interval_new s (s + n - 1) # tiles (s + n) ns"

lemma length_tiles [simp]: "length (tiles s ns) = length ns"
  by (induction ns arbitrary: s) simp_all

lemma tiles_nth:
  "k < length ns \<Longrightarrow> tiles s ns ! k =
     interval_new (s + sum_list (take k ns)) (s + sum_list (take k ns) + ns ! k - 1)"
proof (induction ns arbitrary: s k)
  case Nil
  then show ?case by simp
next
  case (Cons n ns)
  then show ?case by (cases k) (simp_all add: add.assoc)
qed

lemma map_iv_len_tiles: "0 < s \<Longrightarrow> map iv_len (tiles s ns) = ns"
  by (induction ns arbitrary: s) (auto simp: iv_len_def)

lemma tiles_wf:
  "0 < s \<Longrightarrow> s + sum_list ns \<le> u64_max \<Longrightarrow> t \<in> set (tiles s ns) \<Longrightarrow>
     iv_wf t \<and> s \<le> iv_start t \<and> iv_end t < s + sum_list ns"
proof (induction ns arbitrary: s)
  case Nil
  then show ?case by simp
next
  case (Cons n ns)
  show ?case
  proof (cases "t = interval_new s (s + n - 1)")
    case True
    with Cons.prems show ?thesis by (auto simp: iv_wf_def)
  next
    case False
    with Cons.prems Cons.IH [of "s + n"] show ?thesis by (simp add: add.assoc)
  qed
qed

lemma tiles_points:
  "0 < s \<Longrightarrow> (\<Union>t \<in> set (tiles s ns). iv_points t) = {s ..< s + sum_list ns}"
proof (induction ns arbitrary: s)
  case Nil
  then show ?case by simp
next
  case (Cons n ns)
  from Cons.prems have "{s .. s + n - 1} = {s ..< s + n}" by auto
  with Cons show ?case by (auto simp: iv_points_def)
qed

lemma tiles_sorted:
  "0 < s \<Longrightarrow> i < j \<Longrightarrow> j < length ns \<Longrightarrow> iv_end (tiles s ns ! i) < iv_start (tiles s ns ! j)
     \<or> ns ! i = 0"
proof (induction ns arbitrary: s i j)
  case Nil
  then show ?case by simp
next
  case (Cons n ns)
  show ?case
  proof (cases i)
    case 0
    with Cons.prems obtain k where "j = Suc k" "k < length ns" by (cases j) auto
    with 0 Cons.prems show ?thesis by (cases n) (simp_all add: tiles_nth)
  next
    case (Suc i')
    with Cons.prems obtain j' where "j = Suc j'" by (cases j) auto
    with Suc Cons show ?thesis by simp
  qed
qed

lemma split_from_tiles:
  "0 < s \<Longrightarrow> s + sum_list ns < 2 ^ 64 \<Longrightarrow> split_from s ns = Inr (tiles s ns)"
  by (induction ns arbitrary: s) (simp_all add: add.assoc)

lemma split_exact_tiles:
  assumes "iv_wf i" and "sum_list sizes = iv_len i"
  shows "split_exact i sizes = Inr (tiles (iv_start i) sizes)"
proof -
  have "iv_start i + sum_list sizes < 2 ^ 64" "0 < iv_start i"
    using assms by (auto simp: iv_wf_def iv_len_def u64_max_def)
  then show ?thesis using assms by (simp add: split_exact_def split_from_tiles)
qed

lemma length_exponential_fractions [simp]:
  "length (exponential_fractions sizes) = length sizes"
  by (simp add: exponential_fractions_def Let_def)

lemma bias_sizes_ok:
  assumes "length fs = length sizes" and "sizes \<noteq> []" and "sum_list sizes + remaining < 2 ^ 64"
  shows "\<exists>bs. (bias_sizes total_bias remaining sizes fs :: ('e, _) res) = Inr bs \<and> length bs = length sizes \<and>
           list_all2 (\<le>) sizes bs \<and> sum_list bs = sum_list sizes + remaining"
  using assms
proof (induction sizes arbitrary: remaining fs)
  case Nil
  then show ?case by simp
next
  case (Cons n sizes)
  then obtain fraction fractions where fs: "fs = fraction # fractions" by (cases fs) auto
  define bias where "bias = (if fractions = [] then remaining
      else min remaining (as_u64 (round_away (f64 (f64 (of_nat total_bias) * fraction)))))"
  have le: "bias \<le> remaining" by (simp add: bias_def)
  show ?case
  proof (cases "sizes = []")
    case True
    with Cons.prems fs show ?thesis by simp
  next
    case False
    have "sum_list sizes + (remaining - bias) < 2 ^ 64" using Cons.prems(3) le by simp
    with False obtain bs where "bias_sizes total_bias (remaining - bias) sizes fractions = (Inr bs :: ('e, _) res)"
      "length bs = length sizes" "list_all2 (\<le>) sizes bs" "sum_list bs = sum_list sizes + (remaining - bias)"
      using Cons.IH [of fractions "remaining - bias"] Cons.prems(1) fs by auto
    with Cons.prems le show ?thesis by (simp add: fs flip: bias_def)
  qed
qed

lemma split_exponential_tiles:
  assumes "iv_wf i" and "0 < sum_list sizes" and "sum_list sizes \<le> iv_len i"
  shows "\<exists>bs. (split_exponential i sizes :: ('e, _) res) = Inr (tiles (iv_start i) bs) \<and>
           list_all2 (\<le>) sizes bs \<and> sum_list bs = iv_len i"
proof (cases "iv_len i = sum_list sizes")
  case True
  with assms show ?thesis
    using iv_len_bound [OF assms(1)]
    by (auto simp: split_exponential_def split_exact_tiles u64_max_def list_all2_same)
next
  case False
  have b: "iv_len i < 2 ^ 64" using iv_len_bound [OF assms(1)] by (simp add: u64_max_def)
  have "sizes \<noteq> []" using assms(2) by auto
  then obtain bs where bs: "bias_sizes (iv_len i - sum_list sizes) (iv_len i - sum_list sizes) sizes
      (exponential_fractions sizes) = (Inr bs :: ('e, _) res)"
    "list_all2 (\<le>) sizes bs" "sum_list bs = iv_len i"
    using bias_sizes_ok [of "exponential_fractions sizes" sizes "iv_len i - sum_list sizes"
        "iv_len i - sum_list sizes"] assms b by auto
  with False assms b show ?thesis
    by (auto simp: split_exponential_def split_exact_tiles)
qed

text \<open>\<^verbatim>\<open>split_half\<close> of a nonempty interval cuts it at an interior point.\<close>

lemma split_half_cut:
  assumes "iv_wf i" and "0 < iv_len i"
  shows "\<exists>m. iv_start i < m \<and> m \<le> iv_end i + 1 \<and>
           split_half i = Inr (interval_new (iv_start i) (m - 1), interval_new m (iv_end i))"
proof -
  define left where "left = as_u64 (of_int \<lceil>f32 (f32 (of_nat (iv_len i)) * (1 / 2))\<rceil>)"
  have "1 \<le> left" "left \<le> iv_len i"
    unfolding left_def
    using as_u64_ceil_bounds [OF f32_half_bounds] assms(2) iv_len_bound [OF assms(1)]
    by (simp_all add: u64_max_def)
  moreover have "split_half i = Inr (interval_new (iv_start i) (iv_start i + left - 1),
      interval_new (iv_start i + left) (iv_end i))"
  proof -
    have "iv_start i + left < 2 ^ 64" "0 < iv_start i"
      using calculation assms by (auto simp: iv_wf_def iv_len_def u64_max_def)
    with calculation assms show ?thesis
      unfolding split_half_def split_fraction_def Let_def iv_size_wf [OF assms(1)] rbind_simps
        left_def [symmetric]
      by simp
  qed
  ultimately show ?thesis
    using assms by (intro exI [of _ "iv_start i + left"]) (auto simp: iv_len_def)
qed

section \<open>Packed intervals\<close>

text \<open>
  Nonempty intervals in increasing order without overlap, inside the half-open
  range from \<open>lo\<close> to \<open>hi\<close>.
\<close>

fun packed :: "nat \<Rightarrow> nat \<Rightarrow> interval list \<Rightarrow> bool" where
  "packed lo hi [] \<longleftrightarrow> lo \<le> hi"
| "packed lo hi (i # is) \<longleftrightarrow> lo \<le> iv_start i \<and> iv_start i \<le> iv_end i \<and> packed (iv_end i + 1) hi is"

definition iv_before :: "interval \<Rightarrow> interval \<Rightarrow> bool" where
  "iv_before i j \<longleftrightarrow> iv_end i < iv_start j"

lemma packed_le: "packed lo hi is \<Longrightarrow> lo \<le> hi"
  by (induction "is" arbitrary: lo) force+

lemma packed_bounds:
  "packed lo hi is \<Longrightarrow> i \<in> set is \<Longrightarrow> lo \<le> iv_start i \<and> iv_start i \<le> iv_end i \<and> iv_end i < hi"
proof (induction "is" arbitrary: lo)
  case Nil
  then show ?case by simp
next
  case (Cons j "is")
  then show ?case using packed_le [of "iv_end j + 1" hi "is"] by (force dest: Cons.IH)
qed

lemma packed_sorted: "packed lo hi is \<Longrightarrow> sorted_wrt iv_before is"
proof (induction "is" arbitrary: lo)
  case Nil
  then show ?case by simp
next
  case (Cons j "is")
  then show ?case
    using packed_bounds [of "iv_end j + 1" hi "is"] by (force simp: iv_before_def)
qed

lemma packed_append:
  "packed lo hi (is @ [i]) \<longleftrightarrow>
     packed lo (iv_start i) is \<and> iv_start i \<le> iv_end i \<and> iv_end i < hi"
  by (induction "is" arbitrary: lo) auto

lemma packed_mono: "packed lo hi is \<Longrightarrow> lo' \<le> lo \<Longrightarrow> hi \<le> hi' \<Longrightarrow> packed lo' hi' is"
  by (induction "is" arbitrary: lo lo') auto

lemma packed_tiles:
  "0 < s \<Longrightarrow> \<forall>n \<in> set ns. 0 < n \<Longrightarrow> packed s (s + sum_list ns) (tiles s ns)"
proof (induction ns arbitrary: s)
  case Nil
  then show ?case by simp
next
  case (Cons n ns)
  then have "packed (s + n) (s + n + sum_list ns) (tiles (s + n) ns)" by simp
  moreover have "s \<le> s + n - 1" "s + n - 1 + 1 = s + n" using Cons.prems by auto
  ultimately show ?case by (simp add: add.assoc)
qed

section \<open>Properties\<close>

text \<open>
  C34: \<^verbatim>\<open>split_exponential\<close> of an interval into parts for the given subtree sizes, which
  are not all zero and fit, returns: the parts are consecutive, cover the
  interval exactly, and each is at least as large as its size.
\<close>

theorem split_exponential_partition:
  assumes "iv_wf i" and "0 < sum_list sizes" and "sum_list sizes \<le> iv_len i"
  shows "\<exists>ps. (split_exponential i sizes :: ('e, _) res) = Inr ps \<and> list_all2 (\<lambda>n p. n \<le> iv_len p) sizes ps \<and>
    ps = tiles (iv_start i) (map iv_len ps) \<and> (\<Union>p \<in> set ps. iv_points p) = iv_points i"
proof -
  from split_exponential_tiles [OF assms] obtain bs where
    bs: "(split_exponential i sizes :: ('e, _) res) = Inr (tiles (iv_start i) bs)"
    "list_all2 (\<le>) sizes bs" "sum_list bs = iv_len i" by blast
  have s: "0 < iv_start i" using assms(1) by (simp add: iv_wf_def)
  note len = map_iv_len_tiles [OF s, of bs]
  have "list_all2 (\<lambda>n p. n \<le> iv_len p) sizes (tiles (iv_start i) bs)"
    using bs(2) len list_all2_map2 [of "(\<le>)" sizes iv_len "tiles (iv_start i) bs"] by simp
  moreover have "(\<Union>p \<in> set (tiles (iv_start i) bs). iv_points p) = iv_points i"
    using tiles_points [OF s, of bs] bs(3) assms(1) by (auto simp: iv_points_def iv_len_def iv_wf_def)
  ultimately show ?thesis using bs(1) len by auto
qed

theorem split_exponential_partition_witness:
  "\<exists>ps. (split_exponential (interval_new 1 10) [2, 3] :: (unit, _) res) = Inr ps \<and>
    list_all2 (\<lambda>n p. n \<le> iv_len p) [2, 3] ps \<and> (\<Union>p \<in> set ps. iv_points p) = {1..10}"
  using split_exponential_partition [of "interval_new 1 10" "[2, 3]"]
  by (auto simp: iv_wf_def iv_len_def u64_max_def iv_points_def)

text \<open>
  \<^verbatim>\<open>split_exact\<close> returns consecutive parts of exactly the given sizes when they add
  up to the size of the interval, and panics otherwise.
\<close>

theorem split_exact_behaviour:
  assumes "iv_wf i" and "sum_list sizes < 2 ^ 64"
  shows "(split_exact i sizes :: ('e, _) res) =
    (if sum_list sizes = iv_len i then Inr (tiles (iv_start i) sizes) else Inl Panic)"
  using split_exact_tiles [OF assms(1)] assms by (auto simp: split_exact_def rassert_def)

theorem split_exact_behaviour_witness:
  "(split_exact (interval_new 5 14) [4, 0, 6] :: (unit, _) res) =
     Inr [interval_new 5 8, interval_new 9 8, interval_new 9 14] \<and>
   (split_exact (interval_new 5 14) [4, 5] :: (unit, _) res) = Inl Panic"
  using split_exact_behaviour [of "interval_new 5 14" "[4, 0, 6]"] split_exact_behaviour [of "interval_new 5 14" "[4, 5]"]
  by (simp add: iv_wf_def iv_len_def u64_max_def)

end
