(* ===== verification/ReachStore.thy ===== *)
theory ReachStore
  imports Interval
begin

text \<open>
  The reachability store: \<^verbatim>\<open>consensus/src/model/stores/reachability.rs\<close>
  (\<^verbatim>\<open>MemoryReachabilityStore\<close>, the map-backed implementation of the
  \<^verbatim>\<open>ReachabilityStore\<close> trait) and the interval extensions of
  \<^verbatim>\<open>consensus/src/processes/reachability/extensions.rs\<close>.

  A block hash is a 256-bit word, read from its 32 bytes in big-endian order,
  so that the order of words is the derived lexicographic order of
  \<^verbatim>\<open>spora_hashes::Hash\<close>.
\<close>

type_synonym hash = "256 word"

text \<open>\<^verbatim>\<open>blockhash::NONE\<close> and \<^verbatim>\<open>blockhash::ORIGIN\<close>.\<close>

definition NONE :: hash where
  "NONE = 0"

definition ORIGIN :: hash where
  "ORIGIN = 0xfefefefefefefefefefefefefefefefefefefefefefefefefefefefefefefefe"

datatype store_error = KeyNotFound hash | PrefixNotFound | HashAlreadyExists hash | DeserializationError

datatype reach_error = StoreError store_error | DataOverflow | DataInconsistency | BadQuery

section \<open>Data and operations\<close>

record reach_data =
  rd_children :: "hash list"
  rd_parent :: hash
  rd_interval :: interval
  rd_height :: nat
  rd_fcs :: "hash list"

definition reach_data_new :: "hash \<Rightarrow> interval \<Rightarrow> nat \<Rightarrow> reach_data" where
  "reach_data_new parent iv height =
     \<lparr>rd_children = [], rd_parent = parent, rd_interval = iv, rd_height = height, rd_fcs = []\<rparr>"

record reach_store =
  rs_map :: "hash \<rightharpoonup> reach_data"
  rs_reindex_root :: "hash option"

definition reach_store_new :: reach_store where
  "reach_store_new = \<lparr>rs_map = Map.empty, rs_reindex_root = None\<rparr>"

text \<open>\<^verbatim>\<open>get_data\<close>, and an update through \<^verbatim>\<open>get_data_mut\<close>.\<close>

definition get_data :: "reach_store \<Rightarrow> hash \<Rightarrow> (reach_error, reach_data) res" where
  "get_data st h = ok_or (rs_map st h) (StoreError (KeyNotFound h))"

definition update_data ::
  "reach_store \<Rightarrow> hash \<Rightarrow> (reach_data \<Rightarrow> reach_data) \<Rightarrow> (reach_error, reach_store) res" where
  "update_data st h f = rbind (get_data st h) (\<lambda>d. Inr (st\<lparr>rs_map := (rs_map st)(h \<mapsto> f d)\<rparr>))"

definition store_insert ::
  "reach_store \<Rightarrow> hash \<Rightarrow> hash \<Rightarrow> interval \<Rightarrow> nat \<Rightarrow> (reach_error, reach_store) res" where
  "store_insert st h parent iv height =
     (case rs_map st h of
        None \<Rightarrow> Inr (st\<lparr>rs_map := (rs_map st)(h \<mapsto> reach_data_new parent iv height)\<rparr>)
      | Some _ \<Rightarrow> Inl (Err (StoreError (HashAlreadyExists h))))"

definition set_reindex_root :: "reach_store \<Rightarrow> hash \<Rightarrow> reach_store" where
  "set_reindex_root st h = st\<lparr>rs_reindex_root := Some h\<rparr>"

definition store_init :: "reach_store \<Rightarrow> hash \<Rightarrow> interval \<Rightarrow> (reach_error, reach_store) res" where
  "store_init st origin capacity =
     rbind (store_insert st origin NONE capacity 0) (\<lambda>st'. Inr (set_reindex_root st' origin))"

definition set_interval :: "reach_store \<Rightarrow> hash \<Rightarrow> interval \<Rightarrow> (reach_error, reach_store) res" where
  "set_interval st h iv = update_data st h (rd_interval_update (\<lambda>_. iv))"

definition append_child :: "reach_store \<Rightarrow> hash \<Rightarrow> hash \<Rightarrow> (reach_error, reach_store) res" where
  "append_child st h child = update_data st h (rd_children_update (\<lambda>cs. cs @ [child]))"

text \<open>\<^verbatim>\<open>Vec::insert\<close> panics when the index is past the end.\<close>

definition vec_insert :: "'a list \<Rightarrow> nat \<Rightarrow> 'a \<Rightarrow> 'a list" where
  "vec_insert xs i x = take i xs @ x # drop i xs"

definition insert_future_covering_item ::
  "reach_store \<Rightarrow> hash \<Rightarrow> hash \<Rightarrow> nat \<Rightarrow> (reach_error, reach_store) res" where
  "insert_future_covering_item st h fci i = rbind (get_data st h) (\<lambda>d.
     rbind (rassert (i \<le> length (rd_fcs d))) (\<lambda>_.
     update_data st h (rd_fcs_update (\<lambda>fs. vec_insert fs i fci))))"

definition set_parent :: "reach_store \<Rightarrow> hash \<Rightarrow> hash \<Rightarrow> (reach_error, reach_store) res" where
  "set_parent st h parent = update_data st h (rd_parent_update (\<lambda>_. parent))"

text \<open>\<^verbatim>\<open>Vec::splice(i..i + 1, ys)\<close> panics when the range is out of bounds.\<close>

definition vec_splice1 :: "'a list \<Rightarrow> nat \<Rightarrow> 'a list \<Rightarrow> 'a list" where
  "vec_splice1 xs i ys = take i xs @ ys @ drop (Suc i) xs"

definition replace_child ::
  "reach_store \<Rightarrow> hash \<Rightarrow> nat \<Rightarrow> hash list \<Rightarrow> (reach_error, reach_store) res" where
  "replace_child st h i with_hashes = rbind (get_data st h) (\<lambda>d.
     rbind (rassert (i < length (rd_children d))) (\<lambda>_.
     update_data st h (rd_children_update (\<lambda>cs. vec_splice1 cs i with_hashes))))"

definition replace_future_covering_item ::
  "reach_store \<Rightarrow> hash \<Rightarrow> nat \<Rightarrow> hash list \<Rightarrow> (reach_error, reach_store) res" where
  "replace_future_covering_item st h i with_hashes = rbind (get_data st h) (\<lambda>d.
     rbind (rassert (i < length (rd_fcs d))) (\<lambda>_.
     update_data st h (rd_fcs_update (\<lambda>fs. vec_splice1 fs i with_hashes))))"

definition store_delete :: "reach_store \<Rightarrow> hash \<Rightarrow> reach_store" where
  "store_delete st h = st\<lparr>rs_map := (rs_map st)(h := None)\<rparr>"

definition get_height :: "reach_store \<Rightarrow> hash \<Rightarrow> (reach_error, nat) res" where
  "get_height st h = rbind (get_data st h) (\<lambda>d. Inr (rd_height d))"

definition get_reindex_root :: "reach_store \<Rightarrow> (reach_error, hash) res" where
  "get_reindex_root st = ok_or (rs_reindex_root st) (StoreError PrefixNotFound)"

definition store_has :: "reach_store \<Rightarrow> hash \<Rightarrow> bool" where
  "store_has st h = (rs_map st h \<noteq> None)"

definition get_interval :: "reach_store \<Rightarrow> hash \<Rightarrow> (reach_error, interval) res" where
  "get_interval st h = rbind (get_data st h) (\<lambda>d. Inr (rd_interval d))"

definition get_parent :: "reach_store \<Rightarrow> hash \<Rightarrow> (reach_error, hash) res" where
  "get_parent st h = rbind (get_data st h) (\<lambda>d. Inr (rd_parent d))"

definition get_children :: "reach_store \<Rightarrow> hash \<Rightarrow> (reach_error, hash list) res" where
  "get_children st h = rbind (get_data st h) (\<lambda>d. Inr (rd_children d))"

definition get_future_covering_set :: "reach_store \<Rightarrow> hash \<Rightarrow> (reach_error, hash list) res" where
  "get_future_covering_set st h = rbind (get_data st h) (\<lambda>d. Inr (rd_fcs d))"

section \<open>Interval extensions\<close>

definition interval_children_capacity :: "reach_store \<Rightarrow> hash \<Rightarrow> (reach_error, interval) res" where
  "interval_children_capacity st block = rbind (get_interval st block) (\<lambda>iv. decrease_end iv 1)"

definition interval_remaining_before :: "reach_store \<Rightarrow> hash \<Rightarrow> (reach_error, interval) res" where
  "interval_remaining_before st block = rbind (interval_children_capacity st block) (\<lambda>alloc_capacity.
     rbind (get_children st block) (\<lambda>children.
     case children of
       [] \<Rightarrow> Inr alloc_capacity
     | first_child # _ \<Rightarrow> rbind (get_interval st first_child) (\<lambda>first_alloc.
         rbind (sub64 (iv_start first_alloc) 1) (\<lambda>e. Inr (interval_new (iv_start alloc_capacity) e)))))"

definition interval_remaining_after :: "reach_store \<Rightarrow> hash \<Rightarrow> (reach_error, interval) res" where
  "interval_remaining_after st block = rbind (interval_children_capacity st block) (\<lambda>alloc_capacity.
     rbind (get_children st block) (\<lambda>children.
     if children = [] then Inr alloc_capacity
     else rbind (get_interval st (last children)) (\<lambda>last_alloc.
         rbind (add64 (iv_end last_alloc) 1) (\<lambda>s. Inr (interval_new s (iv_end alloc_capacity))))))"

section \<open>Reading after writing\<close>

text \<open>Views of a stored block, used by the invariants.\<close>

abbreviation blocks :: "reach_store \<Rightarrow> hash set" where
  "blocks st \<equiv> dom (rs_map st)"

definition the_data :: "reach_store \<Rightarrow> hash \<Rightarrow> reach_data" where
  "the_data st h = the (rs_map st h)"

abbreviation ivl :: "reach_store \<Rightarrow> hash \<Rightarrow> interval" where
  "ivl st h \<equiv> rd_interval (the_data st h)"

abbreviation kids :: "reach_store \<Rightarrow> hash \<Rightarrow> hash list" where
  "kids st h \<equiv> rd_children (the_data st h)"

abbreviation par :: "reach_store \<Rightarrow> hash \<Rightarrow> hash" where
  "par st h \<equiv> rd_parent (the_data st h)"

abbreviation hgt :: "reach_store \<Rightarrow> hash \<Rightarrow> nat" where
  "hgt st h \<equiv> rd_height (the_data st h)"

abbreviation fcs :: "reach_store \<Rightarrow> hash \<Rightarrow> hash list" where
  "fcs st h \<equiv> rd_fcs (the_data st h)"

named_theorems store_simps \<open>reads of stored blocks\<close>

lemma get_data_in [simp, store_simps]: "h \<in> blocks st \<Longrightarrow> get_data st h = Inr (the_data st h)"
  by (auto simp: get_data_def the_data_def)

lemma get_data_notin [simp, store_simps]:
  "h \<notin> blocks st \<Longrightarrow> get_data st h = Inl (Err (StoreError (KeyNotFound h)))"
  by (simp add: get_data_def domIff)

lemma getters_in [simp, store_simps]:
  assumes "h \<in> blocks st"
  shows "get_interval st h = Inr (ivl st h)" "get_parent st h = Inr (par st h)"
    "get_children st h = Inr (kids st h)" "get_height st h = Inr (hgt st h)"
    "get_future_covering_set st h = Inr (fcs st h)"
  using assms
  by (simp_all add: get_interval_def get_parent_def get_children_def get_height_def
      get_future_covering_set_def)

lemma update_data_in:
  "h \<in> blocks st \<Longrightarrow>
     update_data st h f = Inr (st\<lparr>rs_map := (rs_map st)(h \<mapsto> f (the_data st h))\<rparr>)"
  by (simp add: update_data_def)

lemma the_data_update [simp]:
  "the_data (st\<lparr>rs_map := (rs_map st)(h \<mapsto> d)\<rparr>) b = (if b = h then d else the_data st b)"
  by (simp add: the_data_def)

lemma the_data_reindex_root [simp]: "the_data (st\<lparr>rs_reindex_root := x\<rparr>) b = the_data st b"
  by (simp add: the_data_def)

text \<open>The store after \<^verbatim>\<open>set_interval\<close>: only the interval of \<open>h\<close> differs.\<close>

definition upd_ivl :: "reach_store \<Rightarrow> hash \<Rightarrow> interval \<Rightarrow> reach_store" where
  "upd_ivl st h iv = st\<lparr>rs_map := (rs_map st)(h \<mapsto> (the_data st h)\<lparr>rd_interval := iv\<rparr>)\<rparr>"

lemma set_interval_in [simp, store_simps]: "h \<in> blocks st \<Longrightarrow> set_interval st h iv = Inr (upd_ivl st h iv)"
  by (simp add: set_interval_def update_data_in upd_ivl_def)

lemma upd_ivl_sel [simp]:
  assumes "h \<in> blocks st"
  shows "blocks (upd_ivl st h iv) = blocks st"
    "ivl (upd_ivl st h iv) b = (if b = h then iv else ivl st b)"
    "kids (upd_ivl st h iv) b = kids st b" "par (upd_ivl st h iv) b = par st b"
    "hgt (upd_ivl st h iv) b = hgt st b" "fcs (upd_ivl st h iv) b = fcs st b"
    "rs_reindex_root (upd_ivl st h iv) = rs_reindex_root st"
  using assms by (auto simp: upd_ivl_def)

end
