(* ===== verification/ReachQuery.thy ===== *)
theory ReachQuery
  imports ReachStore
begin

text \<open>
  Reachability queries: \<^verbatim>\<open>consensus/src/processes/reachability/inquirer.rs\<close>.
  Chain (tree) queries compare intervals; DAG queries additionally search the
  future covering set of the ancestor.
\<close>

definition is_strict_chain_ancestor_of :: "reach_store \<Rightarrow> hash \<Rightarrow> hash \<Rightarrow> (reach_error, bool) res" where
  "is_strict_chain_ancestor_of st this queried =
     rbind (get_interval st this) (\<lambda>i. rbind (get_interval st queried) (\<lambda>j.
     Inr (iv_strictly_contains i j)))"

definition is_chain_ancestor_of :: "reach_store \<Rightarrow> hash \<Rightarrow> hash \<Rightarrow> (reach_error, bool) res" where
  "is_chain_ancestor_of st this queried =
     rbind (get_interval st this) (\<lambda>i. rbind (get_interval st queried) (\<lambda>j.
     Inr (iv_contains i j)))"

datatype search_output = NotFound nat | Found hash nat

text \<open>\<^verbatim>\<open>store.get_interval(*c).unwrap().start\<close>, the key of the binary search.\<close>

definition start_key :: "reach_store \<Rightarrow> hash \<Rightarrow> (reach_error, nat) res" where
  "start_key st c = (case get_interval st c of Inl _ \<Rightarrow> Inl Panic | Inr i \<Rightarrow> Inr (iv_start i))"

definition binary_search_descendant ::
  "reach_store \<Rightarrow> hash list \<Rightarrow> hash \<Rightarrow> (reach_error, search_output) res" where
  "binary_search_descendant st ordered_hashes descendant =
     rbind (get_interval st descendant) (\<lambda>iv.
     rbind (binary_search_by_key (start_key st) ordered_hashes (iv_end iv)) (\<lambda>r.
     case r of
       Inr i \<Rightarrow> Inr (Found (ordered_hashes ! i) i)
     | Inl i \<Rightarrow>
         if 0 < i then
           rbind (is_chain_ancestor_of st (ordered_hashes ! (i - 1)) descendant) (\<lambda>b.
           Inr (if b then Found (ordered_hashes ! (i - 1)) (i - 1) else NotFound i))
         else Inr (NotFound i)))"

definition is_dag_ancestor_of :: "reach_store \<Rightarrow> hash \<Rightarrow> hash \<Rightarrow> (reach_error, bool) res" where
  "is_dag_ancestor_of st this queried =
     rbind (is_chain_ancestor_of st this queried) (\<lambda>b.
     if b then Inr True
     else rbind (get_future_covering_set st this) (\<lambda>fs.
       rbind (binary_search_descendant st fs queried) (\<lambda>r.
       case r of Found _ _ \<Rightarrow> Inr True | NotFound _ \<Rightarrow> Inr False)))"

definition get_next_chain_ancestor_unchecked ::
  "reach_store \<Rightarrow> hash \<Rightarrow> hash \<Rightarrow> (reach_error, hash) res" where
  "get_next_chain_ancestor_unchecked st descendant ancestor =
     rbind (get_children st ancestor) (\<lambda>cs.
     rbind (binary_search_descendant st cs descendant) (\<lambda>r.
     case r of Found h _ \<Rightarrow> Inr h | NotFound _ \<Rightarrow> Inl (Err BadQuery)))"

definition get_next_chain_ancestor :: "reach_store \<Rightarrow> hash \<Rightarrow> hash \<Rightarrow> (reach_error, hash) res" where
  "get_next_chain_ancestor st descendant ancestor =
     (if descendant = ancestor then Inl (Err BadQuery)
      else rbind (is_strict_chain_ancestor_of st ancestor descendant) (\<lambda>b.
        if \<not> b then Inl (Err BadQuery)
        else get_next_chain_ancestor_unchecked st descendant ancestor))"

definition insert_to_future_covering_set ::
  "reach_store \<Rightarrow> hash \<Rightarrow> hash \<Rightarrow> (reach_error, reach_store) res" where
  "insert_to_future_covering_set st merged_block new_block =
     rbind (get_future_covering_set st merged_block) (\<lambda>fs.
     rbind (binary_search_descendant st fs new_block) (\<lambda>r.
     case r of
       Found _ _ \<Rightarrow> Inl (Err DataInconsistency)
     | NotFound i \<Rightarrow> insert_future_covering_item st merged_block new_block i))"

definition add_dag_block :: "reach_store \<Rightarrow> hash \<Rightarrow> hash list \<Rightarrow> (reach_error, reach_store) res" where
  "add_dag_block st new_block mergeset =
     rfold (\<lambda>s merged_block. insert_to_future_covering_set s merged_block new_block) st mergeset"

section \<open>The tree and the invariant of its intervals\<close>

definition tree_edges :: "reach_store \<Rightarrow> (hash \<times> hash) set" where
  "tree_edges st = {(p, c). p \<in> blocks st \<and> c \<in> set (kids st p)}"

text \<open>\<open>anc st a b\<close>: \<open>a\<close> is \<open>b\<close> or a tree ancestor of \<open>b\<close>.\<close>

definition anc :: "reach_store \<Rightarrow> hash \<Rightarrow> hash \<Rightarrow> bool" where
  "anc st a b \<longleftrightarrow> (a, b) \<in> (tree_edges st)\<^sup>*"

text \<open>Parent and child links agree and heights grow along them.\<close>

definition shape_inv :: "hash \<Rightarrow> reach_store \<Rightarrow> bool" where
  "shape_inv r st \<longleftrightarrow> finite (blocks st) \<and> r \<in> blocks st \<and> NONE \<notin> blocks st \<and> par st r = NONE \<and>
     (\<forall>b \<in> blocks st. distinct (kids st b) \<and>
        (\<forall>c \<in> set (kids st b). c \<in> blocks st \<and> par st c = b \<and> hgt st b < hgt st c) \<and>
        (b \<noteq> r \<longrightarrow> par st b \<in> blocks st \<and> b \<in> set (kids st (par st b))))"

text \<open>
  The interval of a block is nonempty and strictly contains those of its
  children, which are disjoint and in order.
\<close>

definition node_ok :: "reach_store \<Rightarrow> hash \<Rightarrow> bool" where
  "node_ok st b \<longleftrightarrow> iv_wf (ivl st b) \<and> 0 < iv_len (ivl st b) \<and>
     packed (iv_start (ivl st b)) (iv_end (ivl st b)) (map (ivl st) (kids st b))"

definition tree_inv :: "hash \<Rightarrow> reach_store \<Rightarrow> bool" where
  "tree_inv r st \<longleftrightarrow> shape_inv r st \<and> (\<forall>b \<in> blocks st. node_ok st b)"

lemma shape_invD:
  assumes "shape_inv r st"
  shows "finite (blocks st)" "r \<in> blocks st" "NONE \<notin> blocks st" "par st r = NONE"
    "b \<in> blocks st \<Longrightarrow> distinct (kids st b)"
    "b \<in> blocks st \<Longrightarrow> c \<in> set (kids st b) \<Longrightarrow> c \<in> blocks st"
    "b \<in> blocks st \<Longrightarrow> c \<in> set (kids st b) \<Longrightarrow> par st c = b"
    "b \<in> blocks st \<Longrightarrow> c \<in> set (kids st b) \<Longrightarrow> hgt st b < hgt st c"
    "b \<in> blocks st \<Longrightarrow> b \<noteq> r \<Longrightarrow> par st b \<in> blocks st"
    "b \<in> blocks st \<Longrightarrow> b \<noteq> r \<Longrightarrow> b \<in> set (kids st (par st b))"
  using assms by (auto simp: shape_inv_def)

lemma tree_invD:
  assumes "tree_inv r st"
  shows "shape_inv r st" "b \<in> blocks st \<Longrightarrow> node_ok st b"
  using assms by (auto simp: tree_inv_def)

lemma anc_refl [simp, intro]: "anc st a a"
  by (simp add: anc_def)

lemma anc_trans: "anc st a b \<Longrightarrow> anc st b c \<Longrightarrow> anc st a c"
  unfolding anc_def by (rule rtrancl_trans)

lemma anc_child: "p \<in> blocks st \<Longrightarrow> c \<in> set (kids st p) \<Longrightarrow> anc st p c"
  unfolding anc_def by (rule r_into_rtrancl) (simp add: tree_edges_def)

lemma anc_step: "anc st a p \<Longrightarrow> p \<in> blocks st \<Longrightarrow> c \<in> set (kids st p) \<Longrightarrow> anc st a c"
  by (rule anc_trans [OF _ anc_child])

lemma anc_first:
  assumes "anc st a b"
  shows "a = b \<or> (\<exists>c. a \<in> blocks st \<and> c \<in> set (kids st a) \<and> anc st c b)"
  using assms unfolding anc_def
proof (cases rule: converse_rtranclE)
  case (step c)
  then have "a \<in> blocks st \<and> c \<in> set (kids st a) \<and> (c, b) \<in> (tree_edges st)\<^sup>*"
    unfolding tree_edges_def by simp
  then show "a = b \<or> (\<exists>c. a \<in> blocks st \<and> c \<in> set (kids st a) \<and> (c, b) \<in> (tree_edges st)\<^sup>*)"
    by (intro disjI2 exI)
qed simp

lemma anc_last:
  assumes "anc st a b"
  shows "a = b \<or> (\<exists>p. p \<in> blocks st \<and> b \<in> set (kids st p) \<and> anc st a p)"
  using assms unfolding anc_def
proof (cases rule: rtranclE)
  case (step p)
  then have "p \<in> blocks st \<and> b \<in> set (kids st p) \<and> (a, p) \<in> (tree_edges st)\<^sup>*"
    unfolding tree_edges_def by simp
  then show "a = b \<or> (\<exists>p. p \<in> blocks st \<and> b \<in> set (kids st p) \<and> (a, p) \<in> (tree_edges st)\<^sup>*)"
    by (intro disjI2 exI)
qed simp

lemma anc_induct [consumes 1, case_names refl step]:
  assumes "anc st a b" and "P a"
    and "\<And>p c. anc st a p \<Longrightarrow> p \<in> blocks st \<Longrightarrow> c \<in> set (kids st p) \<Longrightarrow> P p \<Longrightarrow> P c"
  shows "P b"
  using assms(1) unfolding anc_def
proof (induction rule: rtrancl_induct)
  case base
  then show ?case by (rule assms(2))
next
  case (step p c)
  then show ?case using assms(3) [of p c] by (simp add: tree_edges_def anc_def)
qed

lemma anc_blocks:
  assumes "shape_inv r st" and "anc st a b" and "a \<in> blocks st"
  shows "b \<in> blocks st"
  using assms(2)
proof (induction rule: anc_induct)
  case refl
  show ?case by (rule assms(3))
next
  case (step p c)
  show ?case by (rule shape_invD(6) [OF assms(1) step(2,3)])
qed

lemma anc_hgt:
  assumes "shape_inv r st" and "anc st a b"
  shows "a = b \<or> hgt st a < hgt st b"
  using assms(2)
proof (induction rule: anc_induct)
  case refl
  then show ?case by simp
next
  case (step p c)
  have "hgt st p < hgt st c" by (rule shape_invD(8) [OF assms(1) step(2,3)])
  with step(4) show ?case by (elim disjE) simp_all
qed

lemma anc_antisym:
  assumes "shape_inv r st" and "anc st a b" and "anc st b a"
  shows "a = b"
  using anc_hgt [OF assms(1,2)] anc_hgt [OF assms(1,3)] by (elim disjE) simp_all

text \<open>Every block descends from the root of the tree.\<close>

lemma anc_root:
  assumes "shape_inv r st" and "b \<in> blocks st"
  shows "anc st r b"
  using assms(2)
proof (induction "hgt st b" arbitrary: b rule: less_induct)
  case less
  show ?case
  proof (cases "b = r")
    case False
    note p = shape_invD(9,10) [OF assms(1) less.prems False]
    show ?thesis
      by (rule anc_step [OF less.hyps [OF shape_invD(8) [OF assms(1) p] p(1)] p])
  qed simp
qed

lemma anc_par_unique:
  assumes "shape_inv r st" "p \<in> blocks st" "c \<in> set (kids st p)" "q \<in> blocks st" "c \<in> set (kids st q)"
  shows "p = q"
  using shape_invD(7) [OF assms(1-3)] shape_invD(7) [OF assms(1,4,5)] by simp

text \<open>An ancestor of a child is the child or an ancestor of its parent.\<close>

lemma anc_of_child:
  assumes "shape_inv r st" "p \<in> blocks st" "c \<in> set (kids st p)"
  shows "anc st a c \<longleftrightarrow> a = c \<or> anc st a p"
proof
  assume "anc st a c"
  with anc_last [OF this] anc_par_unique [OF assms] show "a = c \<or> anc st a p" by auto
next
  assume "a = c \<or> anc st a p"
  then show "anc st a c" using anc_step [OF _ assms(2,3)] by auto
qed

lemma anc_linear:
  assumes "shape_inv r st" and "anc st a c" and "anc st b c"
  shows "anc st a b \<or> anc st b a"
  using assms(2,3)
proof (induction rule: anc_induct)
  case refl
  then show ?case by simp
next
  case (step p c)
  then show ?case
    using anc_of_child [OF assms(1) step(2,3), of b] anc_step [OF _ step(2,3), of a] by auto
qed

text \<open>Two blocks are related, or they descend from distinct children of one block.\<close>

definition branch :: "reach_store \<Rightarrow> hash \<Rightarrow> hash \<Rightarrow> bool" where
  "branch st a b \<longleftrightarrow> (\<exists>p \<in> blocks st. \<exists>i j. i < j \<and> j < length (kids st p) \<and>
     anc st (kids st p ! i) a \<and> anc st (kids st p ! j) b)"

lemma branchI:
  "p \<in> blocks st \<Longrightarrow> i < j \<Longrightarrow> j < length (kids st p) \<Longrightarrow> anc st (kids st p ! i) a \<Longrightarrow>
     anc st (kids st p ! j) b \<Longrightarrow> branch st a b"
  unfolding branch_def by (intro bexI exI conjI)

lemma branchE:
  assumes "branch st a b"
  obtains p i j where "p \<in> blocks st" "i < j" "j < length (kids st p)"
    "anc st (kids st p ! i) a" "anc st (kids st p ! j) b"
  using assms unfolding branch_def by blast

lemma branch_mono:
  assumes "branch st a b" and "anc st a a'" and "anc st b b'"
  shows "branch st a' b'"
  using assms(1)
proof (rule branchE)
  fix p i j
  assume "p \<in> blocks st" "i < j" "j < length (kids st p)"
    "anc st (kids st p ! i) a" "anc st (kids st p ! j) b"
  with assms(2,3) show ?thesis by (intro branchI [of p]) (auto intro: anc_trans)
qed

lemma anc_trichotomy:
  assumes "shape_inv r st" and "a \<in> blocks st" and "b \<in> blocks st"
  shows "anc st a b \<or> anc st b a \<or> branch st a b \<or> branch st b a"
  using anc_root [OF assms(1,3)]
proof (induction rule: anc_induct)
  case refl
  then show ?case using anc_root [OF assms(1,2)] by blast
next
  case (step p c)
  then consider "anc st a p" | "anc st p a" "a \<noteq> p" | "branch st a p" | "branch st p a" by blast
  then show ?case
  proof cases
    case 1
    with step show ?thesis by (blast intro: anc_step)
  next
    case 2
    then obtain d where d: "d \<in> set (kids st p)" "anc st d a" using anc_first [of st p a] by auto
    from d(1) step(3) obtain i j where ij: "i < length (kids st p)" "kids st p ! i = d"
      "j < length (kids st p)" "kids st p ! j = c" by (auto simp: in_set_conv_nth)
    consider "i = j" | "i < j" | "j < i" by linarith
    then show ?thesis
    proof cases
      case 1
      with ij d show ?thesis by auto
    next
      case 2
      with ij d step(2) have "branch st a c" by (intro branchI [of p _ i j]) auto
      then show ?thesis by blast
    next
      case 3
      with ij d step(2) have "branch st c a" by (intro branchI [of p _ j i]) auto
      then show ?thesis by blast
    qed
  next
    case 3
    then have "branch st a c" by (rule branch_mono) (simp_all add: anc_child step)
    then show ?thesis by blast
  next
    case 4
    then have "branch st c a" by (rule branch_mono) (simp_all add: anc_child step)
    then show ?thesis by blast
  qed
qed

section \<open>Queries decide tree ancestry\<close>

lemma node_okD:
  assumes "node_ok st b"
  shows "iv_wf (ivl st b)" "iv_start (ivl st b) \<le> iv_end (ivl st b)"
    "c \<in> set (kids st b) \<Longrightarrow> iv_strictly_contains (ivl st b) (ivl st c)"
    "i < j \<Longrightarrow> j < length (kids st b) \<Longrightarrow> iv_before (ivl st (kids st b ! i)) (ivl st (kids st b ! j))"
proof -
  have p: "packed (iv_start (ivl st b)) (iv_end (ivl st b)) (map (ivl st) (kids st b))"
    and w: "iv_wf (ivl st b)" and l: "0 < iv_len (ivl st b)"
    using assms by (simp_all add: node_ok_def)
  show "iv_wf (ivl st b)" by (rule w)
  show "iv_start (ivl st b) \<le> iv_end (ivl st b)" using l by (simp add: iv_len_def)
  show "c \<in> set (kids st b) \<Longrightarrow> iv_strictly_contains (ivl st b) (ivl st c)"
    using packed_bounds [OF p, of "ivl st c"] by (simp add: iv_strictly_contains_def)
  show "i < j \<Longrightarrow> j < length (kids st b) \<Longrightarrow> iv_before (ivl st (kids st b ! i)) (ivl st (kids st b ! j))"
    using sorted_wrt_nth_less [OF packed_sorted [OF p], of i j] by simp
qed

lemma anc_strictly_contains:
  assumes "tree_inv r st" and "anc st a b" and "a \<in> blocks st"
  shows "a = b \<or> iv_strictly_contains (ivl st a) (ivl st b)"
  using assms(2)
proof (induction rule: anc_induct)
  case refl
  show ?case by simp
next
  case (step p c)
  have "iv_strictly_contains (ivl st p) (ivl st c)"
    by (rule node_okD(3) [OF tree_invD(2) [OF assms(1) step(2)] step(3)])
  with step(4) show ?case by (elim disjE) (simp_all add: iv_strictly_contains_def)
qed

lemma anc_contains:
  assumes "tree_inv r st" and "anc st a b" and "a \<in> blocks st"
  shows "iv_contains (ivl st a) (ivl st b)"
  using anc_strictly_contains [OF assms]
  by (elim disjE) (simp_all add: iv_strictly_contains_def iv_contains_def)

lemma nonempty_block: "tree_inv r st \<Longrightarrow> b \<in> blocks st \<Longrightarrow> iv_start (ivl st b) \<le> iv_end (ivl st b)"
  by (rule node_okD(2) [OF tree_invD(2)])

lemma branch_before:
  assumes "tree_inv r st" and "branch st a b"
  shows "iv_before (ivl st a) (ivl st b)"
  using assms(2)
proof (rule branchE)
  fix p i j
  assume p: "p \<in> blocks st" and ij: "i < j" "j < length (kids st p)"
    and a: "anc st (kids st p ! i) a" and b: "anc st (kids st p ! j) b"
  note kids = shape_invD(6) [OF tree_invD(1) [OF assms(1)] p]
  have "iv_contains (ivl st (kids st p ! i)) (ivl st a)"
    by (rule anc_contains [OF assms(1) a kids]) (use ij in simp)
  moreover have "iv_contains (ivl st (kids st p ! j)) (ivl st b)"
    by (rule anc_contains [OF assms(1) b kids]) (use ij in simp)
  moreover have "iv_before (ivl st (kids st p ! i)) (ivl st (kids st p ! j))"
    by (rule node_okD(4) [OF tree_invD(2) [OF assms(1) p] ij])
  ultimately show ?thesis by (simp add: iv_before_def iv_contains_def)
qed

lemma related_cases:
  assumes "tree_inv r st" and "a \<in> blocks st" and "b \<in> blocks st"
  obtains "anc st a b" | "anc st b a" "iv_strictly_contains (ivl st b) (ivl st a)"
    | "iv_before (ivl st a) (ivl st b)" | "iv_before (ivl st b) (ivl st a)"
proof -
  consider "anc st a b" | "anc st b a" "a \<noteq> b" | "branch st a b" | "branch st b a"
    using anc_trichotomy [OF tree_invD(1) [OF assms(1)] assms(2,3)] anc_refl by metis
  then show ?thesis
  proof cases
    case 1
    then show ?thesis by (rule that(1))
  next
    case 2
    with anc_strictly_contains [OF assms(1) 2(1) assms(3)] show ?thesis by (intro that(2)) simp_all
  next
    case 3
    then show ?thesis by (rule that(3) [OF branch_before [OF assms(1)]])
  next
    case 4
    then show ?thesis by (rule that(4) [OF branch_before [OF assms(1)]])
  qed
qed

text \<open>Containing the end point of a block is being its ancestor.\<close>

lemma anc_iff_point:
  assumes "tree_inv r st" and "a \<in> blocks st" and "b \<in> blocks st"
  shows "anc st a b \<longleftrightarrow> iv_start (ivl st a) \<le> iv_end (ivl st b) \<and> iv_end (ivl st b) \<le> iv_end (ivl st a)"
proof -
  note ne = nonempty_block [OF assms(1,2)] nonempty_block [OF assms(1,3)]
  show ?thesis
    using assms
  proof (cases rule: related_cases)
    case 1
    with anc_contains [OF assms(1) 1 assms(2)] ne show ?thesis by (simp add: iv_contains_def)
  next
    case 2
    then have lt: "iv_end (ivl st a) < iv_end (ivl st b)" by (simp add: iv_strictly_contains_def)
    have "\<not> anc st a b"
    proof
      assume "anc st a b"
      from anc_antisym [OF tree_invD(1) [OF assms(1)] this 2(1)] lt show False by simp
    qed
    with lt show ?thesis by simp
  next
    case 3
    with ne anc_contains [OF assms(1) _ assms(2), of b] show ?thesis
      by (auto simp: iv_before_def iv_contains_def)
  next
    case 4
    with ne anc_contains [OF assms(1) _ assms(2), of b] show ?thesis
      by (auto simp: iv_before_def iv_contains_def)
  qed
qed

lemma chain_query_anc:
  assumes "tree_inv r st" and "a \<in> blocks st" and "b \<in> blocks st"
  shows "is_chain_ancestor_of st a b = Inr (anc st a b)"
proof -
  have "anc st a b \<longleftrightarrow> iv_contains (ivl st a) (ivl st b)"
    using anc_iff_point [OF assms] anc_contains [OF assms(1) _ assms(2), of b]
      nonempty_block [OF assms(1,3)] by (auto simp: iv_contains_def)
  then show ?thesis using assms(2,3) by (simp add: is_chain_ancestor_of_def)
qed

lemma strict_chain_query_anc:
  assumes "tree_inv r st" and "a \<in> blocks st" and "b \<in> blocks st"
  shows "is_strict_chain_ancestor_of st a b = Inr (anc st a b \<and> a \<noteq> b)"
proof -
  have "anc st a b \<and> a \<noteq> b \<longleftrightarrow> iv_strictly_contains (ivl st a) (ivl st b)"
    using anc_iff_point [OF assms] anc_strictly_contains [OF assms(1) _ assms(2), of b]
      nonempty_block [OF assms(1,3)] by (auto simp: iv_strictly_contains_def)
  then show ?thesis using assms(2,3) by (simp add: is_strict_chain_ancestor_of_def)
qed

section \<open>The binary search over ordered blocks\<close>

definition ordered :: "reach_store \<Rightarrow> hash list \<Rightarrow> bool" where
  "ordered st hs \<longleftrightarrow> set hs \<subseteq> blocks st \<and> sorted_wrt (\<lambda>a b. iv_before (ivl st a) (ivl st b)) hs"

lemma ordered_kids:
  assumes "tree_inv r st" and "b \<in> blocks st"
  shows "ordered st (kids st b)"
proof -
  have "sorted_wrt iv_before (map (ivl st) (kids st b))"
    using tree_invD(2) [OF assms] unfolding node_ok_def by (elim conjE) (rule packed_sorted)
  then show ?thesis
    using shape_invD(6) [OF tree_invD(1) [OF assms(1)] assms(2)]
    by (auto simp: ordered_def sorted_wrt_map)
qed

lemma ordered_starts:
  assumes "tree_inv r st" and "ordered st hs"
  shows "sorted_wrt (<) (map (\<lambda>h. iv_start (ivl st h)) hs)"
proof -
  have "sorted_wrt (\<lambda>a b. iv_start (ivl st a) < iv_start (ivl st b)) hs"
  proof (rule sorted_wrt_mono_rel [of _ "\<lambda>a b. iv_before (ivl st a) (ivl st b)"])
    show "sorted_wrt (\<lambda>a b. iv_before (ivl st a) (ivl st b)) hs" using assms(2) by (simp add: ordered_def)
    fix a b assume "a \<in> set hs" "b \<in> set hs" "iv_before (ivl st a) (ivl st b)"
    moreover from this assms(2) have "a \<in> blocks st" by (auto simp: ordered_def)
    ultimately show "iv_start (ivl st a) < iv_start (ivl st b)"
      using nonempty_block [OF assms(1), of a] by (simp add: iv_before_def)
  qed
  then show ?thesis by (simp add: sorted_wrt_map)
qed

lemma binary_search_descendant_spec:
  assumes "tree_inv r st" and "d \<in> blocks st" and "ordered st hs"
  shows "(\<exists>i < length hs. binary_search_descendant st hs d = Inr (Found (hs ! i) i) \<and> anc st (hs ! i) d) \<or>
         (\<exists>i \<le> length hs. binary_search_descendant st hs d = Inr (NotFound i) \<and>
            (\<forall>h \<in> set hs. \<not> anc st h d) \<and>
            (\<forall>j < i. iv_start (ivl st (hs ! j)) < iv_end (ivl st d)) \<and>
            (\<forall>j. i \<le> j \<longrightarrow> j < length hs \<longrightarrow> iv_end (ivl st d) < iv_start (ivl st (hs ! j))))"
proof -
  define g where "g = (\<lambda>h. iv_start (ivl st h))"
  define pt where "pt = iv_end (ivl st d)"
  have sub: "h \<in> blocks st" if "h \<in> set hs" for h using that assms(3) by (auto simp: ordered_def)
  have key: "start_key st h = Inr (g h)" if "h \<in> set hs" for h
    using sub [OF that] by (simp add: start_key_def g_def)
  have anc_pt: "anc st h d \<longleftrightarrow> g h \<le> pt \<and> pt \<le> iv_end (ivl st h)" if "h \<in> set hs" for h
    using anc_iff_point [OF assms(1) sub [OF that] assms(2)] by (simp add: g_def pt_def)
  have before: "iv_end (ivl st (hs ! i)) < g (hs ! j)" if "i < j" "j < length hs" for i j
    using sorted_wrt_nth_less [OF conjunct2 [OF assms(3) [unfolded ordered_def]] that]
    by (simp add: g_def iv_before_def)
  have sorted: "sorted_wrt (<) (map g hs)" unfolding g_def by (rule ordered_starts [OF assms(1,3)])
  have unfold: "binary_search_descendant st hs d =
      rbind (binary_search_by_key (start_key st) hs pt) (\<lambda>r.
        case r of Inr i \<Rightarrow> Inr (Found (hs ! i) i)
        | Inl i \<Rightarrow> if 0 < i then rbind (is_chain_ancestor_of st (hs ! (i - 1)) d)
              (\<lambda>b. Inr (if b then Found (hs ! (i - 1)) (i - 1) else NotFound i))
            else Inr (NotFound i))"
    using assms(2) by (simp add: binary_search_descendant_def pt_def)
  from binary_search_by_key_spec [of hs "start_key st" g pt, OF key sorted]
  consider (hit) i where "i < length hs" "binary_search_by_key (start_key st) hs pt = Inr (Inr i)" "g (hs ! i) = pt"
    | (miss) i where "i \<le> length hs" "binary_search_by_key (start_key st) hs pt = Inr (Inl i)"
      "\<forall>j < i. g (hs ! j) < pt" "\<forall>j. i \<le> j \<longrightarrow> j < length hs \<longrightarrow> pt < g (hs ! j)"
    by blast
  then show ?thesis
  proof cases
    case hit
    have mem: "hs ! i \<in> set hs" using hit(1) by simp
    have "anc st (hs ! i) d"
      using anc_pt [OF mem] hit(3) nonempty_block [OF assms(1) sub [OF mem]] by (simp add: g_def)
    with hit(1,2) show ?thesis by (simp add: unfold)
  next
    case miss
    have none: "\<not> anc st (hs ! j) d" if "j < length hs" "\<not> (0 < i \<and> j = i - 1)" for j
    proof (cases "i \<le> j")
      case True
      with miss(4) that anc_pt [of "hs ! j"] show ?thesis by auto
    next
      case False
      with that have "j < i - 1" "i - 1 < length hs" using miss(1) by auto
      moreover have "g (hs ! (i - 1)) < pt" using miss(3) \<open>j < i - 1\<close> by simp
      ultimately have "iv_end (ivl st (hs ! j)) < pt" using before [of j "i - 1"] by simp
      with that anc_pt [of "hs ! j"] show ?thesis by simp
    qed
    show ?thesis
    proof (cases "0 < i \<and> anc st (hs ! (i - 1)) d")
      case True
      then have "i - 1 < length hs" using miss(1) by linarith
      with True sub [of "hs ! (i - 1)"] have "binary_search_descendant st hs d = Inr (Found (hs ! (i - 1)) (i - 1))"
        by (simp add: unfold miss(2) chain_query_anc [OF assms(1) _ assms(2)])
      with True \<open>i - 1 < length hs\<close> show ?thesis by blast
    next
      case False
      have "binary_search_descendant st hs d = Inr (NotFound i)"
      proof (cases "0 < i")
        case True
        then have "i - 1 < length hs" using miss(1) by linarith
        with True False sub [of "hs ! (i - 1)"] show ?thesis
          by (simp add: unfold miss(2) chain_query_anc [OF assms(1) _ assms(2)])
      qed (simp add: unfold miss(2))
      moreover have "\<forall>h \<in> set hs. \<not> anc st h d"
      proof
        fix h assume "h \<in> set hs"
        then obtain j where "j < length hs" "h = hs ! j" by (auto simp: in_set_conv_nth)
        with none [of j] False show "\<not> anc st h d" by (cases "0 < i \<and> j = i - 1") simp_all
      qed
      ultimately show ?thesis using miss(1,3,4) by (auto simp: g_def pt_def)
    qed
  qed
qed

lemma binary_search_descendant_found:
  assumes "tree_inv r st" "d \<in> blocks st" "ordered st hs"
  shows "(\<exists>h i. binary_search_descendant st hs d = Inr (Found h i)) \<longleftrightarrow> (\<exists>h \<in> set hs. anc st h d)"
  using binary_search_descendant_spec [OF assms] by (elim disjE exE conjE) auto

lemma dag_query_anc:
  assumes "tree_inv r st" and "a \<in> blocks st" and "b \<in> blocks st" and "ordered st (fcs st a)"
  shows "is_dag_ancestor_of st a b = Inr (anc st a b \<or> (\<exists>f \<in> set (fcs st a). anc st f b))"
  using binary_search_descendant_spec [OF assms(1,3,4)] assms(2)
  by (elim disjE exE conjE)
    (auto simp: is_dag_ancestor_of_def chain_query_anc [OF assms(1-3)] intro: nth_mem)

lemma next_chain_ancestor_unchecked_anc:
  assumes "tree_inv r st" and "a \<in> blocks st" and "anc st a d" and "a \<noteq> d"
  obtains c where "get_next_chain_ancestor_unchecked st d a = Inr c" "c \<in> set (kids st a)" "anc st c d"
proof -
  have d: "d \<in> blocks st" by (rule anc_blocks [OF tree_invD(1) [OF assms(1)] assms(3,2)])
  obtain c where c: "c \<in> set (kids st a)" "anc st c d"
    using anc_first [OF assms(3)] assms(4) by auto
  from binary_search_descendant_spec [OF assms(1) d ordered_kids [OF assms(1,2)]] c
  obtain i where "i < length (kids st a)" "binary_search_descendant st (kids st a) d = Inr (Found (kids st a ! i) i)"
    "anc st (kids st a ! i) d" by blast
  with that [of "kids st a ! i"] assms(2) show ?thesis
    by (simp add: get_next_chain_ancestor_unchecked_def)
qed

end
