(* ===== verification/Reindex.thy ===== *)
theory Reindex
  imports ReachQuery
begin

text \<open>
  Interval reindexing: \<^verbatim>\<open>consensus/src/processes/reachability/reindex.rs\<close>.
  The context holds the store and the cache of subtree sizes.  The argument
  \<open>fuel\<close> bounds the iterations of each loop.
\<close>

section \<open>The operations of \<open>ReindexOperationContext\<close>\<close>

record reindex_ctx =
  cx_store :: reach_store
  cx_sizes :: "hash \<rightharpoonup> nat"
  cx_depth :: nat
  cx_slack :: nat

definition reindex_ctx_new :: "reach_store \<Rightarrow> nat \<Rightarrow> nat \<Rightarrow> reindex_ctx" where
  "reindex_ctx_new st depth slack =
     \<lparr>cx_store = st, cx_sizes = Map.empty, cx_depth = depth, cx_slack = slack\<rparr>"

text \<open>The inner loop of \<^verbatim>\<open>count_subtrees\<close>: push a finished size up the parent chain.\<close>

primrec count_up :: "nat \<Rightarrow> reach_store \<Rightarrow> hash \<Rightarrow> hash \<Rightarrow> (hash \<rightharpoonup> nat) \<Rightarrow> (hash \<rightharpoonup> nat) \<Rightarrow>
    (reach_error, (hash \<rightharpoonup> nat) \<times> (hash \<rightharpoonup> nat)) res" where
  "count_up 0 st block current sizes counts =
     (if current = block then Inr (sizes, counts) else Inl OutOfFuel)"
| "count_up (Suc n) st block current sizes counts =
     (if current = block then Inr (sizes, counts)
      else rbind (get_parent st current) (\<lambda>up.
        rbind (get_children st up) (\<lambda>children.
        rbind (add64 (case counts up of None \<Rightarrow> 0 | Some k \<Rightarrow> k) 1) (\<lambda>count.
        if count < length children then Inr (sizes, counts(up \<mapsto> count))
        else rbind (rmap (\<lambda>c. unwrap (sizes c)) children) (\<lambda>ss.
          rbind (sum64 ss) (\<lambda>subtree_sum.
          rbind (add64 subtree_sum 1) (\<lambda>total.
          count_up n st block up (sizes(up \<mapsto> total)) (counts(up \<mapsto> count)))))))))"

text \<open>The breadth-first loop of \<^verbatim>\<open>count_subtrees\<close>.\<close>

fun count_bfs :: "nat \<Rightarrow> nat \<Rightarrow> reach_store \<Rightarrow> hash \<Rightarrow> hash list \<Rightarrow> (hash \<rightharpoonup> nat) \<Rightarrow> (hash \<rightharpoonup> nat) \<Rightarrow>
    (reach_error, hash \<rightharpoonup> nat) res" where
  "count_bfs n fuel st block [] sizes counts = Inr sizes"
| "count_bfs 0 fuel st block (current # queue) sizes counts = Inl OutOfFuel"
| "count_bfs (Suc n) fuel st block (current # queue) sizes counts =
     rbind (get_children st current) (\<lambda>children.
     if children \<noteq> [] \<and> sizes current = None
     then count_bfs n fuel st block (queue @ children) sizes counts
     else rbind (count_up fuel st block current
            (if children = [] then sizes(current \<mapsto> 1) else sizes) counts) (\<lambda>(sizes', counts').
          count_bfs n fuel st block queue sizes' counts'))"

definition count_subtrees :: "nat \<Rightarrow> reindex_ctx \<Rightarrow> hash \<Rightarrow> (reach_error, reindex_ctx) res" where
  "count_subtrees fuel cx block =
     (if cx_sizes cx block \<noteq> None then Inr cx
      else rbind (count_bfs fuel fuel (cx_store cx) block [block] (cx_sizes cx) Map.empty) (\<lambda>sizes.
        Inr (cx\<lparr>cx_sizes := sizes\<rparr>)))"

text \<open>The breadth-first loop of \<^verbatim>\<open>propagate_interval\<close>.\<close>

definition set_intervals ::
  "reach_store \<Rightarrow> hash list \<Rightarrow> interval list \<Rightarrow> (reach_error, reach_store) res" where
  "set_intervals st cs ivs = rfold (\<lambda>s (c, ci). set_interval s c ci) st (zip cs ivs)"

fun propagate_bfs :: "nat \<Rightarrow> reach_store \<Rightarrow> (hash \<rightharpoonup> nat) \<Rightarrow> hash list \<Rightarrow> (reach_error, reach_store) res" where
  "propagate_bfs n st sizes [] = Inr st"
| "propagate_bfs 0 st sizes (current # queue) = Inl OutOfFuel"
| "propagate_bfs (Suc n) st sizes (current # queue) =
     rbind (get_children st current) (\<lambda>children.
     if children = [] then propagate_bfs n st sizes queue
     else rbind (rmap (\<lambda>c. unwrap (sizes c)) children) (\<lambda>ss.
       rbind (interval_children_capacity st current) (\<lambda>iv.
       rbind (split_exponential iv ss) (\<lambda>ivs.
       rbind (set_intervals st children ivs) (\<lambda>st'.
       propagate_bfs n st' sizes (queue @ children))))))"

definition propagate_interval :: "nat \<Rightarrow> reindex_ctx \<Rightarrow> hash \<Rightarrow> (reach_error, reindex_ctx) res" where
  "propagate_interval fuel cx block = rbind (count_subtrees fuel cx block) (\<lambda>cx'.
     rbind (propagate_bfs fuel (cx_store cx') (cx_sizes cx') [block]) (\<lambda>st.
     Inr (cx'\<lparr>cx_store := st\<rparr>)))"

type_synonym interval_op = "interval \<Rightarrow> nat \<Rightarrow> (reach_error, interval) res"

definition apply_interval_op :: "reindex_ctx \<Rightarrow> hash \<Rightarrow> nat \<Rightarrow> interval_op \<Rightarrow> (reach_error, reindex_ctx) res" where
  "apply_interval_op cx block offset oper = rbind (get_interval (cx_store cx) block) (\<lambda>iv.
     rbind (oper iv offset) (\<lambda>iv'. rbind (set_interval (cx_store cx) block iv') (\<lambda>st.
     Inr (cx\<lparr>cx_store := st\<rparr>))))"

definition apply_interval_op_and_propagate ::
  "nat \<Rightarrow> reindex_ctx \<Rightarrow> hash \<Rightarrow> nat \<Rightarrow> interval_op \<Rightarrow> (reach_error, reindex_ctx) res" where
  "apply_interval_op_and_propagate fuel cx block offset oper =
     rbind (apply_interval_op cx block offset oper) (\<lambda>cx'. propagate_interval fuel cx' block)"

definition split_children :: "hash list \<Rightarrow> hash \<Rightarrow> (reach_error, hash list \<times> hash list) res" where
  "split_children children pivot = (case position (\<lambda>c. c = pivot) children of
     Some i \<Rightarrow> Inr (take i children, drop (i + 1) children)
   | None \<Rightarrow> Inl (Err DataInconsistency))"

text \<open>The loop over siblings, which ends at \<open>allocation_block\<close>.\<close>

fun offset_loop :: "nat \<Rightarrow> reindex_ctx \<Rightarrow> hash \<Rightarrow> nat \<Rightarrow> interval_op \<Rightarrow> interval_op \<Rightarrow> hash list \<Rightarrow>
    (reach_error, reindex_ctx) res" where
  "offset_loop fuel cx allocation_block offset op_alloc op_other [] = Inr cx"
| "offset_loop fuel cx allocation_block offset op_alloc op_other (sibling # siblings) =
     (if sibling = allocation_block
      then apply_interval_op_and_propagate fuel cx allocation_block offset op_alloc
      else rbind (apply_interval_op_and_propagate fuel cx sibling offset op_other) (\<lambda>cx'.
        offset_loop fuel cx' allocation_block offset op_alloc op_other siblings))"

definition offset_siblings_before ::
  "nat \<Rightarrow> reindex_ctx \<Rightarrow> hash \<Rightarrow> hash \<Rightarrow> nat \<Rightarrow> (reach_error, reindex_ctx) res" where
  "offset_siblings_before fuel cx allocation_block current offset =
     rbind (get_parent (cx_store cx) current) (\<lambda>parent.
     rbind (get_children (cx_store cx) parent) (\<lambda>children.
     rbind (split_children children current) (\<lambda>(siblings_before, _).
     offset_loop fuel cx allocation_block offset increase_end increase (rev siblings_before))))"

definition offset_siblings_after ::
  "nat \<Rightarrow> reindex_ctx \<Rightarrow> hash \<Rightarrow> hash \<Rightarrow> nat \<Rightarrow> (reach_error, reindex_ctx) res" where
  "offset_siblings_after fuel cx allocation_block current offset =
     rbind (get_parent (cx_store cx) current) (\<lambda>parent.
     rbind (get_children (cx_store cx) parent) (\<lambda>children.
     rbind (split_children children current) (\<lambda>(_, siblings_after).
     offset_loop fuel cx allocation_block offset decrease_start decrease siblings_after)))"

text \<open>
  The first loop of \<^verbatim>\<open>reclaim_interval_before\<close>: walk from the chosen child towards
  the reindex root; returns the last block and \<^verbatim>\<open>path_slack_alloc\<close>.
\<close>

primrec reclaim_up_before :: "nat \<Rightarrow> nat \<Rightarrow> reindex_ctx \<Rightarrow> hash \<Rightarrow> hash \<Rightarrow> nat \<Rightarrow> hash \<Rightarrow> nat \<Rightarrow> nat \<Rightarrow>
    (reach_error, reindex_ctx \<times> hash \<times> nat) res" where
  "reclaim_up_before 0 fuel cx allocation_block reindex_root required current slack_sum path_len = Inl OutOfFuel"
| "reclaim_up_before (Suc n) fuel cx allocation_block reindex_root required current slack_sum path_len =
     (if current = reindex_root then
        rbind (mul64 (cx_slack cx) path_len) (\<lambda>path_slack.
        rbind (add64 required path_slack) (\<lambda>t.
        rbind (sub64 t slack_sum) (\<lambda>offset.
        rbind (apply_interval_op_and_propagate fuel cx current offset increase_start) (\<lambda>cx1.
        rbind (offset_siblings_before fuel cx1 allocation_block current offset) (\<lambda>cx2.
        Inr (cx2, current, cx_slack cx))))))
      else
        rbind (interval_remaining_before (cx_store cx) current) (\<lambda>iv.
        rbind (iv_size iv) (\<lambda>slack_before_current.
        rbind (add64 slack_sum slack_before_current) (\<lambda>slack_sum'.
        if required \<le> slack_sum' then
          rbind (sub64 slack_before_current (slack_sum' - required)) (\<lambda>offset.
          rbind (apply_interval_op cx current offset increase_start) (\<lambda>cx1.
          rbind (offset_siblings_before fuel cx1 allocation_block current offset) (\<lambda>cx2.
          Inr (cx2, current, 0))))
        else
          rbind (get_next_chain_ancestor_unchecked (cx_store cx) reindex_root current) (\<lambda>next.
          rbind (add64 path_len 1) (\<lambda>path_len'.
          reclaim_up_before n fuel cx allocation_block reindex_root required next slack_sum' path_len'))))))"

text \<open>The second loop: walk back down to the common ancestor.\<close>

primrec reclaim_down_before :: "nat \<Rightarrow> nat \<Rightarrow> reindex_ctx \<Rightarrow> hash \<Rightarrow> hash \<Rightarrow> nat \<Rightarrow> hash \<Rightarrow>
    (reach_error, reindex_ctx) res" where
  "reclaim_down_before 0 fuel cx allocation_block common_ancestor path_slack_alloc current = Inl OutOfFuel"
| "reclaim_down_before (Suc n) fuel cx allocation_block common_ancestor path_slack_alloc current =
     rbind (get_parent (cx_store cx) current) (\<lambda>up.
     if up = common_ancestor then Inr cx
     else rbind (interval_remaining_before (cx_store cx) up) (\<lambda>iv.
       rbind (iv_size iv) (\<lambda>slack_before_current.
       rbind (sub64 slack_before_current path_slack_alloc) (\<lambda>offset.
       rbind (apply_interval_op cx up offset increase_start) (\<lambda>cx1.
       rbind (offset_siblings_before fuel cx1 allocation_block up offset) (\<lambda>cx2.
       reclaim_down_before n fuel cx2 allocation_block common_ancestor path_slack_alloc up))))))"

definition reclaim_interval_before ::
  "nat \<Rightarrow> reindex_ctx \<Rightarrow> hash \<Rightarrow> hash \<Rightarrow> hash \<Rightarrow> hash \<Rightarrow> nat \<Rightarrow> (reach_error, reindex_ctx) res" where
  "reclaim_interval_before fuel cx allocation_block common_ancestor chosen_child reindex_root required_allocation =
     rbind (reclaim_up_before fuel fuel cx allocation_block reindex_root required_allocation chosen_child 0 0)
       (\<lambda>(cx', current, path_slack_alloc).
     reclaim_down_before fuel fuel cx' allocation_block common_ancestor path_slack_alloc current)"

primrec reclaim_up_after :: "nat \<Rightarrow> nat \<Rightarrow> reindex_ctx \<Rightarrow> hash \<Rightarrow> hash \<Rightarrow> nat \<Rightarrow> hash \<Rightarrow> nat \<Rightarrow> nat \<Rightarrow>
    (reach_error, reindex_ctx \<times> hash \<times> nat) res" where
  "reclaim_up_after 0 fuel cx allocation_block reindex_root required current slack_sum path_len = Inl OutOfFuel"
| "reclaim_up_after (Suc n) fuel cx allocation_block reindex_root required current slack_sum path_len =
     (if current = reindex_root then
        rbind (mul64 (cx_slack cx) path_len) (\<lambda>path_slack.
        rbind (add64 required path_slack) (\<lambda>t.
        rbind (sub64 t slack_sum) (\<lambda>offset.
        rbind (apply_interval_op_and_propagate fuel cx current offset decrease_end) (\<lambda>cx1.
        rbind (offset_siblings_after fuel cx1 allocation_block current offset) (\<lambda>cx2.
        Inr (cx2, current, cx_slack cx))))))
      else
        rbind (interval_remaining_after (cx_store cx) current) (\<lambda>iv.
        rbind (iv_size iv) (\<lambda>slack_after_current.
        rbind (add64 slack_sum slack_after_current) (\<lambda>slack_sum'.
        if required \<le> slack_sum' then
          rbind (sub64 slack_after_current (slack_sum' - required)) (\<lambda>offset.
          rbind (apply_interval_op cx current offset decrease_end) (\<lambda>cx1.
          rbind (offset_siblings_after fuel cx1 allocation_block current offset) (\<lambda>cx2.
          Inr (cx2, current, 0))))
        else
          rbind (get_next_chain_ancestor_unchecked (cx_store cx) reindex_root current) (\<lambda>next.
          rbind (add64 path_len 1) (\<lambda>path_len'.
          reclaim_up_after n fuel cx allocation_block reindex_root required next slack_sum' path_len'))))))"

primrec reclaim_down_after :: "nat \<Rightarrow> nat \<Rightarrow> reindex_ctx \<Rightarrow> hash \<Rightarrow> hash \<Rightarrow> nat \<Rightarrow> hash \<Rightarrow>
    (reach_error, reindex_ctx) res" where
  "reclaim_down_after 0 fuel cx allocation_block common_ancestor path_slack_alloc current = Inl OutOfFuel"
| "reclaim_down_after (Suc n) fuel cx allocation_block common_ancestor path_slack_alloc current =
     rbind (get_parent (cx_store cx) current) (\<lambda>up.
     if up = common_ancestor then Inr cx
     else rbind (interval_remaining_after (cx_store cx) up) (\<lambda>iv.
       rbind (iv_size iv) (\<lambda>slack_after_current.
       rbind (sub64 slack_after_current path_slack_alloc) (\<lambda>offset.
       rbind (apply_interval_op cx up offset decrease_end) (\<lambda>cx1.
       rbind (offset_siblings_after fuel cx1 allocation_block up offset) (\<lambda>cx2.
       reclaim_down_after n fuel cx2 allocation_block common_ancestor path_slack_alloc up))))))"

definition reclaim_interval_after ::
  "nat \<Rightarrow> reindex_ctx \<Rightarrow> hash \<Rightarrow> hash \<Rightarrow> hash \<Rightarrow> hash \<Rightarrow> nat \<Rightarrow> (reach_error, reindex_ctx) res" where
  "reclaim_interval_after fuel cx allocation_block common_ancestor chosen_child reindex_root required_allocation =
     rbind (reclaim_up_after fuel fuel cx allocation_block reindex_root required_allocation chosen_child 0 0)
       (\<lambda>(cx', current, path_slack_alloc).
     reclaim_down_after fuel fuel cx' allocation_block common_ancestor path_slack_alloc current)"

definition reindex_intervals_earlier_than_root ::
  "nat \<Rightarrow> reindex_ctx \<Rightarrow> hash \<Rightarrow> hash \<Rightarrow> hash \<Rightarrow> nat \<Rightarrow> (reach_error, reindex_ctx) res" where
  "reindex_intervals_earlier_than_root fuel cx allocation_block reindex_root common_ancestor required_allocation =
     rbind (get_next_chain_ancestor_unchecked (cx_store cx) reindex_root common_ancestor) (\<lambda>chosen_child.
     rbind (get_interval (cx_store cx) allocation_block) (\<lambda>block_interval.
     rbind (get_interval (cx_store cx) chosen_child) (\<lambda>chosen_interval.
     if iv_start block_interval < iv_start chosen_interval
     then reclaim_interval_before fuel cx allocation_block common_ancestor chosen_child reindex_root required_allocation
     else reclaim_interval_after fuel cx allocation_block common_ancestor chosen_child reindex_root required_allocation)))"

text \<open>The search loop of \<^verbatim>\<open>reindex_intervals\<close>.\<close>

primrec reindex_loop :: "nat \<Rightarrow> nat \<Rightarrow> reindex_ctx \<Rightarrow> hash \<Rightarrow> hash \<Rightarrow> (reach_error, reindex_ctx) res" where
  "reindex_loop 0 fuel cx reindex_root current = Inl OutOfFuel"
| "reindex_loop (Suc n) fuel cx reindex_root current =
     rbind (get_interval (cx_store cx) current) (\<lambda>current_interval.
     rbind (count_subtrees fuel cx current) (\<lambda>cx'.
     rbind (iv_size current_interval) (\<lambda>isize.
     rbind (unwrap (cx_sizes cx' current)) (\<lambda>subtree_size.
     if subtree_size \<le> isize then propagate_interval fuel cx' current
     else rbind (get_parent (cx_store cx') current) (\<lambda>parent.
       if parent = NONE then Inl (Err DataOverflow)
       else if current = reindex_root then Inl (Err DataOverflow)
       else rbind (is_strict_chain_ancestor_of (cx_store cx') parent reindex_root) (\<lambda>strict.
         if strict
         then reindex_intervals_earlier_than_root fuel cx' current reindex_root parent subtree_size
         else reindex_loop n fuel cx' reindex_root parent))))))"

definition reindex_intervals :: "nat \<Rightarrow> reindex_ctx \<Rightarrow> hash \<Rightarrow> hash \<Rightarrow> (reach_error, reindex_ctx) res" where
  "reindex_intervals fuel cx new_child reindex_root = reindex_loop fuel fuel cx reindex_root new_child"

text \<open>The \<^verbatim>\<open>map\<close> of \<^verbatim>\<open>tighten_intervals_*\<close>, which fills the cache as it goes.\<close>

primrec count_all :: "nat \<Rightarrow> reindex_ctx \<Rightarrow> hash list \<Rightarrow> (reach_error, reindex_ctx \<times> nat list) res" where
  "count_all fuel cx [] = Inr (cx, [])"
| "count_all fuel cx (b # bs) = rbind (count_subtrees fuel cx b) (\<lambda>cx'.
     rbind (unwrap (cx_sizes cx' b)) (\<lambda>n.
     rbind (count_all fuel cx' bs) (\<lambda>(cx'', ns). Inr (cx'', n # ns))))"

primrec assign_and_propagate ::
  "nat \<Rightarrow> reindex_ctx \<Rightarrow> (hash \<times> interval) list \<Rightarrow> (reach_error, reindex_ctx) res" where
  "assign_and_propagate fuel cx [] = Inr cx"
| "assign_and_propagate fuel cx (ci # rest) =
     rbind (set_interval (cx_store cx) (fst ci) (snd ci)) (\<lambda>st.
     rbind (propagate_interval fuel (cx\<lparr>cx_store := st\<rparr>) (fst ci)) (\<lambda>cx'.
     assign_and_propagate fuel cx' rest))"

definition tighten_intervals_before ::
  "nat \<Rightarrow> reindex_ctx \<Rightarrow> hash \<Rightarrow> hash list \<Rightarrow> (reach_error, reindex_ctx \<times> nat) res" where
  "tighten_intervals_before fuel cx parent children_before =
     rbind (count_all fuel cx children_before) (\<lambda>(cx1, sizes).
     rbind (sum64 sizes) (\<lambda>total.
     rbind (get_interval (cx_store cx1) parent) (\<lambda>iv.
     rbind (add64 (iv_start iv) (cx_slack cx1)) (\<lambda>s.
     rbind (add64 s total) (\<lambda>t. rbind (sub64 t 1) (\<lambda>e.
     rbind (split_exact (interval_new s e) sizes) (\<lambda>ivs.
     rbind (assign_and_propagate fuel cx1 (zip children_before ivs)) (\<lambda>cx2.
     Inr (cx2, total)))))))))"

definition tighten_intervals_after ::
  "nat \<Rightarrow> reindex_ctx \<Rightarrow> hash \<Rightarrow> hash list \<Rightarrow> (reach_error, reindex_ctx \<times> nat) res" where
  "tighten_intervals_after fuel cx parent children_after =
     rbind (count_all fuel cx children_after) (\<lambda>(cx1, sizes).
     rbind (sum64 sizes) (\<lambda>total.
     rbind (get_interval (cx_store cx1) parent) (\<lambda>iv.
     rbind (sub64 (iv_end iv) (cx_slack cx1)) (\<lambda>t.
     rbind (sub64 t total) (\<lambda>s. rbind (sub64 t 1) (\<lambda>e.
     rbind (split_exact (interval_new s e) sizes) (\<lambda>ivs.
     rbind (assign_and_propagate fuel cx1 (zip children_after ivs)) (\<lambda>cx2.
     Inr (cx2, total)))))))))"

definition expand_interval_to_chosen ::
  "nat \<Rightarrow> reindex_ctx \<Rightarrow> hash \<Rightarrow> hash \<Rightarrow> nat \<Rightarrow> nat \<Rightarrow> bool \<Rightarrow> (reach_error, reindex_ctx) res" where
  "expand_interval_to_chosen fuel cx parent child before_sum after_sum is_final_reindex_root =
     rbind (get_interval (cx_store cx) parent) (\<lambda>iv.
     rbind (add64 (iv_start iv) before_sum) (\<lambda>s0. rbind (add64 s0 (cx_slack cx)) (\<lambda>s.
     rbind (sub64 (iv_end iv) after_sum) (\<lambda>e0. rbind (sub64 e0 (cx_slack cx)) (\<lambda>e1. rbind (sub64 e1 1) (\<lambda>e.
     let allocation = interval_new s e in
     rbind (get_interval (cx_store cx) child) (\<lambda>current.
     rbind (if is_final_reindex_root \<and> \<not> iv_contains allocation current then
              rbind (add64 s (cx_slack cx)) (\<lambda>ns. rbind (sub64 e (cx_slack cx)) (\<lambda>ne.
              rbind (set_interval (cx_store cx) child (interval_new ns ne)) (\<lambda>st.
              propagate_interval fuel (cx\<lparr>cx_store := st\<rparr>) child)))
            else Inr cx) (\<lambda>cx'.
     rbind (set_interval (cx_store cx') child allocation) (\<lambda>st.
     Inr (cx'\<lparr>cx_store := st\<rparr>))))))))))"

definition concentrate_interval ::
  "nat \<Rightarrow> reindex_ctx \<Rightarrow> hash \<Rightarrow> hash \<Rightarrow> bool \<Rightarrow> (reach_error, reindex_ctx) res" where
  "concentrate_interval fuel cx parent child is_final_reindex_root =
     rbind (get_children (cx_store cx) parent) (\<lambda>children.
     rbind (split_children children child) (\<lambda>(siblings_before, siblings_after).
     rbind (tighten_intervals_before fuel cx parent siblings_before) (\<lambda>(cx1, before_sum).
     rbind (tighten_intervals_after fuel cx1 parent siblings_after) (\<lambda>(cx2, after_sum).
     expand_interval_to_chosen fuel cx2 parent child before_sum after_sum is_final_reindex_root))))"

end
