(* ===== verification/ReachTree.thy ===== *)
theory ReachTree
  imports Reindex
begin

text \<open>
  Adding, deleting and re-rooting: \<^verbatim>\<open>consensus/src/processes/reachability/tree.rs\<close>
  and the updating half of \<^verbatim>\<open>consensus/src/processes/reachability/inquirer.rs\<close>.
\<close>

section \<open>The operations of \<open>tree.rs\<close>\<close>

definition add_tree_block ::
  "nat \<Rightarrow> reach_store \<Rightarrow> hash \<Rightarrow> hash \<Rightarrow> nat \<Rightarrow> nat \<Rightarrow> (reach_error, reach_store) res" where
  "add_tree_block fuel st new_block parent reindex_depth reindex_slack =
     rbind (interval_remaining_after st parent) (\<lambda>remaining.
     rbind (append_child st parent new_block) (\<lambda>st1.
     rbind (get_height st1 parent) (\<lambda>parent_height.
     rbind (iv_is_empty remaining) (\<lambda>e.
     if e then
       rbind (add64 parent_height 1) (\<lambda>height.
       rbind (store_insert st1 new_block parent remaining height) (\<lambda>st2.
       rbind (get_reindex_root st2) (\<lambda>reindex_root.
       rbind (reindex_intervals fuel (reindex_ctx_new st2 reindex_depth reindex_slack) new_block reindex_root) (\<lambda>cx.
       Inr (cx_store cx)))))
     else
       rbind (split_half remaining) (\<lambda>(allocated, _).
       rbind (add64 parent_height 1) (\<lambda>height.
       store_insert st1 new_block parent allocated height))))))"

primrec find_common_tree_ancestor :: "nat \<Rightarrow> reach_store \<Rightarrow> hash \<Rightarrow> hash \<Rightarrow> (reach_error, hash) res" where
  "find_common_tree_ancestor 0 st current reindex_root = Inl OutOfFuel"
| "find_common_tree_ancestor (Suc n) st current reindex_root =
     rbind (is_chain_ancestor_of st current reindex_root) (\<lambda>b.
     if b then Inr current
     else rbind (get_parent st current) (\<lambda>up. find_common_tree_ancestor n st up reindex_root))"

text \<open>The last loop of \<^verbatim>\<open>find_next_reindex_root\<close>.\<close>

primrec next_root_loop :: "nat \<Rightarrow> reach_store \<Rightarrow> hash \<Rightarrow> nat \<Rightarrow> nat \<Rightarrow> hash \<Rightarrow> (reach_error, hash) res" where
  "next_root_loop 0 st hint hint_height reindex_depth next = Inl OutOfFuel"
| "next_root_loop (Suc n) st hint hint_height reindex_depth next =
     rbind (get_next_chain_ancestor_unchecked st hint next) (\<lambda>child.
     rbind (get_height st child) (\<lambda>child_height.
     if hint_height < child_height then Inl (Err DataInconsistency)
     else if hint_height - child_height < reindex_depth then Inr next
     else next_root_loop n st hint hint_height reindex_depth child))"

definition find_next_reindex_root ::
  "nat \<Rightarrow> reach_store \<Rightarrow> hash \<Rightarrow> hash \<Rightarrow> nat \<Rightarrow> nat \<Rightarrow> (reach_error, hash \<times> hash) res" where
  "find_next_reindex_root fuel st current hint reindex_depth reindex_slack =
     rbind (get_height st hint) (\<lambda>hint_height.
     rbind (is_chain_ancestor_of st current hint) (\<lambda>b.
     if b then
       rbind (next_root_loop fuel st hint hint_height reindex_depth current) (\<lambda>next. Inr (current, next))
     else
       rbind (get_height st current) (\<lambda>current_height.
       if hint_height < current_height \<or> hint_height - current_height < reindex_slack
       then Inr (current, current)
       else rbind (find_common_tree_ancestor fuel st hint current) (\<lambda>common.
         rbind (next_root_loop fuel st hint hint_height reindex_depth common) (\<lambda>next.
         Inr (common, next))))))"

primrec advance_loop :: "nat \<Rightarrow> nat \<Rightarrow> reach_store \<Rightarrow> hash \<Rightarrow> hash \<Rightarrow> nat \<Rightarrow> nat \<Rightarrow> (reach_error, reach_store) res" where
  "advance_loop 0 fuel st ancestor next reindex_depth reindex_slack =
     (if ancestor = next then Inr st else Inl OutOfFuel)"
| "advance_loop (Suc n) fuel st ancestor next reindex_depth reindex_slack =
     (if ancestor = next then Inr st
      else rbind (get_next_chain_ancestor_unchecked st next ancestor) (\<lambda>child.
        rbind (concentrate_interval fuel (reindex_ctx_new st reindex_depth reindex_slack) ancestor child (child = next)) (\<lambda>cx.
        advance_loop n fuel (cx_store cx) child next reindex_depth reindex_slack)))"

definition try_advancing_reindex_root ::
  "nat \<Rightarrow> reach_store \<Rightarrow> hash \<Rightarrow> nat \<Rightarrow> nat \<Rightarrow> (reach_error, reach_store) res" where
  "try_advancing_reindex_root fuel st hint reindex_depth reindex_slack =
     rbind (get_reindex_root st) (\<lambda>current.
     rbind (find_next_reindex_root fuel st current hint reindex_depth reindex_slack) (\<lambda>(ancestor, next).
     if current = next then Inr st
     else rbind (advance_loop fuel fuel st ancestor next reindex_depth reindex_slack) (\<lambda>st'.
       Inr (set_reindex_root st' next))))"

section \<open>The updates of \<open>inquirer.rs\<close>\<close>

definition DEFAULT_REINDEX_DEPTH :: nat where
  "DEFAULT_REINDEX_DEPTH = 100"

definition DEFAULT_REINDEX_SLACK :: nat where
  "DEFAULT_REINDEX_SLACK = 2 ^ 14"

definition init_with_params :: "reach_store \<Rightarrow> hash \<Rightarrow> interval \<Rightarrow> (reach_error, reach_store) res" where
  "init_with_params st origin capacity =
     (if store_has st origin then Inr st else store_init st origin capacity)"

definition reach_init :: "reach_store \<Rightarrow> (reach_error, reach_store) res" where
  "reach_init st = init_with_params st ORIGIN interval_maximal"

definition add_block_with_params ::
  "nat \<Rightarrow> reach_store \<Rightarrow> hash \<Rightarrow> hash \<Rightarrow> hash list \<Rightarrow> nat option \<Rightarrow> nat option \<Rightarrow> (reach_error, reach_store) res" where
  "add_block_with_params fuel st new_block selected_parent mergeset reindex_depth reindex_slack =
     rbind (add_tree_block fuel st new_block selected_parent
        (case reindex_depth of None \<Rightarrow> DEFAULT_REINDEX_DEPTH | Some d \<Rightarrow> d)
        (case reindex_slack of None \<Rightarrow> DEFAULT_REINDEX_SLACK | Some s \<Rightarrow> s)) (\<lambda>st'.
     add_dag_block st' new_block mergeset)"

definition add_block :: "nat \<Rightarrow> reach_store \<Rightarrow> hash \<Rightarrow> hash \<Rightarrow> hash list \<Rightarrow> (reach_error, reach_store) res" where
  "add_block fuel st new_block selected_parent mergeset =
     add_block_with_params fuel st new_block selected_parent mergeset None None"

text \<open>The step 4 loop of \<^verbatim>\<open>delete_block\<close> over the mergeset.\<close>

definition replace_in_covering_sets ::
  "reach_store \<Rightarrow> hash \<Rightarrow> hash list \<Rightarrow> hash list \<Rightarrow> (reach_error, reach_store) res" where
  "replace_in_covering_sets st block children mergeset =
     rfold (\<lambda>s merged_block.
       rbind (get_future_covering_set s merged_block) (\<lambda>fs.
       rbind (binary_search_descendant s fs block) (\<lambda>r.
       case r of NotFound _ \<Rightarrow> Inl (Err DataInconsistency)
       | Found _ i \<Rightarrow> replace_future_covering_item s merged_block i children))) st mergeset"

text \<open>Step 5: hand the interval of the deleted block to its children or its left sibling.\<close>

definition hand_over_interval ::
  "reach_store \<Rightarrow> hash \<Rightarrow> nat \<Rightarrow> interval \<Rightarrow> hash list \<Rightarrow> (reach_error, reach_store) res" where
  "hand_over_interval st parent block_index iv children =
     (case children of
        [] \<Rightarrow>
          if 0 < block_index then
            rbind (get_children st parent) (\<lambda>cs.
            rbind (idx cs (block_index - 1)) (\<lambda>sibling.
            rbind (get_interval st sibling) (\<lambda>sibling_interval.
            set_interval st sibling (interval_new (iv_start sibling_interval) (iv_end iv)))))
          else Inr st
      | [child] \<Rightarrow> set_interval st child iv
      | first_child # _ \<Rightarrow>
          rbind (get_interval st first_child) (\<lambda>first_interval.
          rbind (set_interval st first_child (interval_new (iv_start iv) (iv_end first_interval))) (\<lambda>st1.
          rbind (get_interval st1 (last children)) (\<lambda>last_interval.
          set_interval st1 (last children) (interval_new (iv_start last_interval) (iv_end iv))))))"

definition delete_block :: "reach_store \<Rightarrow> hash \<Rightarrow> hash list \<Rightarrow> (reach_error, reach_store) res" where
  "delete_block st block mergeset =
     rbind (get_interval st block) (\<lambda>iv.
     rbind (get_parent st block) (\<lambda>parent.
     rbind (get_children st block) (\<lambda>children.
     rbind (get_children st parent) (\<lambda>siblings.
     rbind (binary_search_descendant st siblings block) (\<lambda>r.
     case r of
       NotFound _ \<Rightarrow> Inl (Err DataInconsistency)
     | Found _ block_index \<Rightarrow>
         rbind (replace_child st parent block_index children) (\<lambda>st1.
         rbind (rfold (\<lambda>s child. set_parent s child parent) st1 children) (\<lambda>st2.
         rbind (replace_in_covering_sets st2 block children mergeset) (\<lambda>st3.
         rbind (hand_over_interval st3 parent block_index iv children) (\<lambda>st4.
         Inr (store_delete st4 block))))))))))"

definition hint_virtual_selected_parent :: "nat \<Rightarrow> reach_store \<Rightarrow> hash \<Rightarrow> (reach_error, reach_store) res" where
  "hint_virtual_selected_parent fuel st hint =
     try_advancing_reindex_root fuel st hint DEFAULT_REINDEX_DEPTH DEFAULT_REINDEX_SLACK"

section \<open>A new leaf\<close>

text \<open>The store after \<^verbatim>\<open>append_child\<close> and \<^verbatim>\<open>insert\<close> of a new leaf.\<close>

definition put_leaf :: "reach_store \<Rightarrow> hash \<Rightarrow> hash \<Rightarrow> interval \<Rightarrow> reach_store" where
  "put_leaf st b p iv = st\<lparr>rs_map := (rs_map st)
     (p \<mapsto> (the_data st p)\<lparr>rd_children := kids st p @ [b]\<rparr>, b \<mapsto> reach_data_new p iv (hgt st p + 1))\<rparr>"

lemma put_leaf_sel [simp]:
  assumes "p \<in> blocks st" and "b \<notin> blocks st"
  shows "blocks (put_leaf st b p iv) = insert b (blocks st)"
    "ivl (put_leaf st b p iv) x = (if x = b then iv else ivl st x)"
    "kids (put_leaf st b p iv) x = (if x = b then [] else if x = p then kids st p @ [b] else kids st x)"
    "par (put_leaf st b p iv) x = (if x = b then p else par st x)"
    "hgt (put_leaf st b p iv) x = (if x = b then hgt st p + 1 else hgt st x)"
    "fcs (put_leaf st b p iv) x = (if x = b then [] else fcs st x)"
    "rs_reindex_root (put_leaf st b p iv) = rs_reindex_root st"
proof -
  have "b \<noteq> p" using assms by auto
  then show "blocks (put_leaf st b p iv) = insert b (blocks st)"
    "ivl (put_leaf st b p iv) x = (if x = b then iv else ivl st x)"
    "kids (put_leaf st b p iv) x = (if x = b then [] else if x = p then kids st p @ [b] else kids st x)"
    "par (put_leaf st b p iv) x = (if x = b then p else par st x)"
    "hgt (put_leaf st b p iv) x = (if x = b then hgt st p + 1 else hgt st x)"
    "fcs (put_leaf st b p iv) x = (if x = b then [] else fcs st x)"
    "rs_reindex_root (put_leaf st b p iv) = rs_reindex_root st"
    using assms(1) by (auto simp: put_leaf_def the_data_def reach_data_new_def)
qed

lemma rd_children_append:
  "rd_children_update (\<lambda>cs. cs @ [b]) d = d\<lparr>rd_children := rd_children d @ [b]\<rparr>"
  by (cases d) simp

lemma append_insert_leaf:
  assumes "p \<in> blocks st" and "b \<notin> blocks st"
  shows "\<exists>st1. append_child st p b = Inr st1 \<and> get_height st1 p = Inr (hgt st p) \<and>
           store_insert st1 b p iv (hgt st p + 1) = Inr (put_leaf st b p iv)"
proof -
  have "b \<noteq> p" using assms by auto
  define st1 where "st1 = st\<lparr>rs_map := (rs_map st)(p \<mapsto> (the_data st p)\<lparr>rd_children := kids st p @ [b]\<rparr>)\<rparr>"
  have "append_child st p b = Inr st1"
    using assms(1) by (simp add: append_child_def update_data_in st1_def rd_children_append)
  moreover have "get_height st1 p = Inr (hgt st p)"
    by (simp add: get_height_def get_data_def st1_def)
  moreover have "store_insert st1 b p iv (hgt st p + 1) = Inr (put_leaf st b p iv)"
    using assms(2) \<open>b \<noteq> p\<close> by (simp add: store_insert_def st1_def put_leaf_def domIff)
  ultimately show ?thesis by blast
qed

lemma shape_inv_put_leaf:
  assumes inv: "shape_inv r st" and p: "p \<in> blocks st" and b: "b \<notin> blocks st" "b \<noteq> NONE"
  shows "shape_inv r (put_leaf st b p iv)"
proof -
  note D = shape_invD [OF inv]
  note sel = put_leaf_sel [OF p b(1)]
  have ne: "r \<noteq> b" "p \<noteq> b" using D(2) p b by auto
  have fresh: "c \<noteq> b" if "x \<in> blocks st" "c \<in> set (kids st x)" for x c
    using D(6) [OF that] b(1) by auto
  show ?thesis
    unfolding shape_inv_def sel(1)
  proof (intro conjI ballI [of "insert b (blocks st)"] impI)
    show "par (put_leaf st b p iv) r = NONE" using D(4) ne by (simp add: sel)
    fix x assume x: "x \<in> insert b (blocks st)"
    show "distinct (kids (put_leaf st b p iv) x)"
      using D(5) [of x] D(5) [OF p] fresh [OF p, of b] x by (auto simp: sel)
    show "\<forall>c \<in> set (kids (put_leaf st b p iv) x). c \<in> insert b (blocks st) \<and>
        par (put_leaf st b p iv) c = x \<and> hgt (put_leaf st b p iv) x < hgt (put_leaf st b p iv) c"
    proof
      fix c assume c: "c \<in> set (kids (put_leaf st b p iv) x)"
      with x ne have cases: "x \<in> blocks st" "x \<noteq> b" "c = b \<and> x = p \<or> c \<in> set (kids st x)"
        using b(1) by (auto simp: sel split: if_splits)
      from cases(3) show "c \<in> insert b (blocks st) \<and> par (put_leaf st b p iv) c = x \<and>
          hgt (put_leaf st b p iv) x < hgt (put_leaf st b p iv) c"
      proof (elim disjE conjE)
        assume "c = b" "x = p"
        then show ?thesis using ne by (simp add: sel)
      next
        assume k: "c \<in> set (kids st x)"
        show ?thesis
          using D(6,7,8) [OF cases(1) k] fresh [OF cases(1) k] cases(2) by (simp add: sel)
      qed
    qed
    assume xr: "x \<noteq> r"
    show "par (put_leaf st b p iv) x \<in> insert b (blocks st)"
      using x xr D(9) [of x] p by (cases "x = b") (simp_all add: sel)
    show "x \<in> set (kids (put_leaf st b p iv) (par (put_leaf st b p iv) x))"
    proof (cases "x = b")
      case True
      then show ?thesis using ne by (simp add: sel)
    next
      case False
      then have xb: "x \<in> blocks st" using x by simp
      have "par st x \<noteq> b" using D(9) [OF xb xr] b(1) by auto
      with False D(10) [OF xb xr] show ?thesis by (auto simp: sel)
    qed
  qed (use D b in simp_all)
qed

lemma anc_put_leaf:
  assumes inv: "shape_inv r st" and p: "p \<in> blocks st" and b: "b \<notin> blocks st"
  shows "anc (put_leaf st b p iv) a x \<longleftrightarrow> (if x = b then a = b \<or> anc st a p else anc st a x)"
proof -
  have kids_b: "b \<notin> set (kids st x)" if "x \<in> blocks st" for x
    using shape_invD(6) [OF inv that] b by auto
  have edges: "tree_edges (put_leaf st b p iv) = insert (p, b) (tree_edges st)"
  proof -
    have "(q, c) \<in> tree_edges (put_leaf st b p iv) \<longleftrightarrow> (q, c) \<in> insert (p, b) (tree_edges st)" for q c
    proof (cases "q = b")
      case True
      then show ?thesis using p b by (auto simp: tree_edges_def put_leaf_sel [OF p b])
    next
      case False
      then show ?thesis using p by (auto simp: tree_edges_def put_leaf_sel [OF p b])
    qed
    then show ?thesis by (simp only: set_eq_iff split_paired_All) simp
  qed
  have sub: "anc st a x \<Longrightarrow> anc (put_leaf st b p iv) a x" for x
    unfolding anc_def edges by (rule rtrancl_mono [THEN subsetD]) auto
  have new: "anc (put_leaf st b p iv) p b"
    unfolding anc_def edges by (rule r_into_rtrancl) simp
  have b_alone: "a = b" if "anc st b a" for a
    using anc_first [OF that] b by simp
  have "if x = b then a = b \<or> anc st a p else anc st a x" if "anc (put_leaf st b p iv) a x"
    using that
  proof (induction rule: anc_induct)
    case (step q c)
    show ?case
    proof (cases "c = b")
      case True
      have "q \<noteq> b" using step(3) by (auto simp: put_leaf_sel [OF p b])
      then have "q \<in> blocks st" using step(2) by (simp add: put_leaf_sel [OF p b])
      with step(3) True \<open>q \<noteq> b\<close> kids_b have "q = p" by (simp add: put_leaf_sel [OF p b] split: if_splits)
      with step(4) True \<open>q \<noteq> b\<close> show ?thesis by simp
    next
      case False
      have "q \<noteq> b" using step(3) by (auto simp: put_leaf_sel [OF p b])
      then have "q \<in> blocks st" using step(2) by (simp add: put_leaf_sel [OF p b])
      moreover have "c \<in> set (kids st q)"
        using step(3) False \<open>q \<noteq> b\<close> by (simp add: put_leaf_sel [OF p b] split: if_splits)
      ultimately show ?thesis using step(4) False \<open>q \<noteq> b\<close> by (auto intro: anc_step)
    qed
  qed simp
  moreover have "anc (put_leaf st b p iv) a x" if "if x = b then a = b \<or> anc st a p else anc st a x"
  proof (cases "x = b")
    case True
    with that sub [of p] new show ?thesis by (auto intro: anc_trans)
  next
    case False
    with that sub show ?thesis by simp
  qed
  ultimately show ?thesis by blast
qed

section \<open>Adding a block when its parent has room\<close>

text \<open>The free range of a parent after its last child.\<close>

definition free_start :: "reach_store \<Rightarrow> hash \<Rightarrow> nat" where
  "free_start st p = (if kids st p = [] then iv_start (ivl st p) else iv_end (ivl st (last (kids st p))) + 1)"

lemma node_ok_free:
  assumes "node_ok st p"
  shows "0 < free_start st p" "free_start st p \<le> iv_end (ivl st p)"
    "packed (iv_start (ivl st p)) (free_start st p) (map (ivl st) (kids st p))"
proof -
  have n: "packed (iv_start (ivl st p)) (iv_end (ivl st p)) (map (ivl st) (kids st p))"
    "0 < iv_start (ivl st p)" "iv_start (ivl st p) \<le> iv_end (ivl st p)"
    using assms by (auto simp: node_ok_def iv_wf_def iv_len_def)
  show "0 < free_start st p" using n(2) by (simp add: free_start_def)
  show "free_start st p \<le> iv_end (ivl st p)"
    "packed (iv_start (ivl st p)) (free_start st p) (map (ivl st) (kids st p))"
    using n by (cases "kids st p" rule: rev_cases; simp add: free_start_def packed_append)+
qed

lemma remaining_after_free:
  assumes "tree_inv r st" and "p \<in> blocks st"
  shows "interval_remaining_after st p = Inr (interval_new (free_start st p) (iv_end (ivl st p) - 1))"
    "iv_wf (interval_new (free_start st p) (iv_end (ivl st p) - 1))"
proof -
  have ok: "node_ok st p" by (rule tree_invD(2) [OF assms])
  note f = node_ok_free [OF ok]
  have wf: "iv_wf (ivl st p)" using ok by (simp add: node_ok_def)
  have cap: "interval_children_capacity st p = Inr (interval_new (iv_start (ivl st p)) (iv_end (ivl st p) - 1))"
    using assms(2) f by (simp add: interval_children_capacity_def decrease_end_def)
  show "iv_wf (interval_new (free_start st p) (iv_end (ivl st p) - 1))"
    using f wf by (auto simp: iv_wf_def)
  show "interval_remaining_after st p = Inr (interval_new (free_start st p) (iv_end (ivl st p) - 1))"
  proof (cases "kids st p = []")
    case True
    then show ?thesis using assms(2) by (simp add: interval_remaining_after_def cap free_start_def)
  next
    case False
    then have "last (kids st p) \<in> blocks st"
      using shape_invD(6) [OF tree_invD(1) [OF assms(1)] assms(2)] by simp
    moreover have "iv_end (ivl st (last (kids st p))) + 1 < 2 ^ 64"
      using f(2) False wf by (simp add: free_start_def iv_wf_def u64_max_def)
    ultimately show ?thesis using assms(2) False
      by (simp add: interval_remaining_after_def cap free_start_def)
  qed
qed

lemma node_ok_put_leaf:
  assumes "node_ok st x" and "x \<in> blocks st" and p: "p \<in> blocks st" and b: "b \<notin> blocks st"
    and "\<forall>c \<in> set (kids st x). c \<in> blocks st"
    and "x = p \<Longrightarrow> free_start st p \<le> iv_start iv \<and> iv_start iv \<le> iv_end iv \<and> iv_end iv < iv_end (ivl st p)"
  shows "node_ok (put_leaf st b p iv) x"
proof -
  have "x \<noteq> b" using assms(2) b by auto
  have eq: "map (ivl (put_leaf st b p iv)) (kids st x) = map (ivl st) (kids st x)"
    using assms(5) b by (auto simp: put_leaf_sel [OF p b])
  have i: "ivl (put_leaf st b p iv) x = ivl st x" "ivl (put_leaf st b p iv) b = iv"
    using \<open>x \<noteq> b\<close> by (simp_all add: put_leaf_sel [OF p b])
  show ?thesis
  proof (cases "x = p")
    case True
    then have k: "kids (put_leaf st b p iv) x = kids st x @ [b]"
      using \<open>x \<noteq> b\<close> by (simp add: put_leaf_sel [OF p b])
    have "packed (iv_start (ivl st x)) (iv_start iv) (map (ivl st) (kids st x))"
      using packed_mono [OF node_ok_free(3) [OF assms(1)] order_refl] assms(6) True by simp
    then have "packed (iv_start (ivl st x)) (iv_end (ivl st x)) (map (ivl st) (kids st x) @ [iv])"
      using assms(6) True by (simp add: packed_append)
    then show ?thesis
      using assms(1) unfolding node_ok_def k i map_append eq list.map by simp
  next
    case False
    then have k: "kids (put_leaf st b p iv) x = kids st x"
      using \<open>x \<noteq> b\<close> by (simp add: put_leaf_sel [OF p b])
    show ?thesis using assms(1) unfolding node_ok_def k i eq by simp
  qed
qed

text \<open>
  With room after the last child, \<^verbatim>\<open>add_tree_block\<close> allocates half of it to the new
  leaf and keeps the invariant.
\<close>

lemma add_tree_block_room:
  assumes inv: "tree_inv r st" and p: "p \<in> blocks st" and b: "b \<notin> blocks st" "b \<noteq> NONE"
    and room: "free_start st p < iv_end (ivl st p)" and h: "hgt st p + 1 < 2 ^ 64"
  obtains iv where "add_tree_block fuel st b p depth slack = Inr (put_leaf st b p iv)"
    "tree_inv r (put_leaf st b p iv)"
proof -
  define rem where "rem = interval_new (free_start st p) (iv_end (ivl st p) - 1)"
  have wf: "iv_wf rem" and ra: "interval_remaining_after st p = Inr rem"
    using remaining_after_free [OF inv p] by (simp_all add: rem_def)
  have len: "0 < iv_len rem" using room by (simp add: rem_def iv_len_def)
  from split_half_cut [OF wf len] obtain m where m: "iv_start rem < m" "m \<le> iv_end rem + 1"
    "split_half rem = (Inr (interval_new (iv_start rem) (m - 1), interval_new m (iv_end rem)) ::
       (reach_error, _) res)" by blast
  define iv where "iv = interval_new (iv_start rem) (m - 1)"
  obtain st1 where st1: "append_child st p b = Inr st1" "get_height st1 p = Inr (hgt st p)"
    "store_insert st1 b p iv (hgt st p + 1) = Inr (put_leaf st b p iv)"
    using append_insert_leaf [OF p b(1)] by blast
  have run: "add_tree_block fuel st b p depth slack = Inr (put_leaf st b p iv)"
    using h len wf by (simp add: add_tree_block_def ra st1 m(3) del: One_nat_def flip: iv_def)
  have iv: "free_start st p \<le> iv_start iv" "iv_start iv \<le> iv_end iv" "iv_end iv < iv_end (ivl st p)"
    using m(1,2) room by (auto simp: iv_def rem_def)
  have wf_iv: "iv_wf iv" "0 < iv_len iv"
    using wf m(1,2) by (auto simp: iv_wf_def iv_def iv_len_def)
  have "tree_inv r (put_leaf st b p iv)"
    unfolding tree_inv_def put_leaf_sel(1) [OF p b(1)]
  proof (intro conjI ballI)
    show "shape_inv r (put_leaf st b p iv)" by (rule shape_inv_put_leaf [OF tree_invD(1) [OF inv] p b])
    fix x assume "x \<in> insert b (blocks st)"
    then consider "x = b" | "x \<in> blocks st" by auto
    then show "node_ok (put_leaf st b p iv) x"
    proof cases
      case 1
      then show ?thesis using wf_iv by (simp add: node_ok_def put_leaf_sel [OF p b(1)] iv_len_def)
    next
      case 2
      show ?thesis
        by (rule node_ok_put_leaf [OF tree_invD(2) [OF inv 2] 2 p b(1)])
          (use shape_invD(6) [OF tree_invD(1) [OF inv] 2] iv in auto)
    qed
  qed
  with run that show ?thesis by blast
qed

end
