(* ===== verification/ReachDag.thy ===== *)
theory ReachDag
  imports ReachTree
begin

text \<open>
  DAG reachability: the future covering sets and the correctness of
  \<^verbatim>\<open>is_dag_ancestor_of\<close> across \<^verbatim>\<open>add_block\<close>.  The block DAG itself is a ghost
  argument \<open>G\<close>, the set of DAG parents of each block.
\<close>

section \<open>Stores with the same tree\<close>

definition same_shape :: "reach_store \<Rightarrow> reach_store \<Rightarrow> bool" where
  "same_shape st st' \<longleftrightarrow> blocks st' = blocks st \<and> rs_reindex_root st' = rs_reindex_root st \<and>
     (\<forall>x. kids st' x = kids st x \<and> par st' x = par st x \<and> hgt st' x = hgt st x \<and> fcs st' x = fcs st x)"

definition same_tree :: "reach_store \<Rightarrow> reach_store \<Rightarrow> bool" where
  "same_tree st st' \<longleftrightarrow> blocks st' = blocks st \<and> rs_reindex_root st' = rs_reindex_root st \<and>
     (\<forall>x. kids st' x = kids st x \<and> par st' x = par st x \<and> hgt st' x = hgt st x \<and> ivl st' x = ivl st x)"

lemma same_shape_refl [simp]: "same_shape st st"
  by (simp add: same_shape_def)

lemma same_shape_trans: "same_shape a b \<Longrightarrow> same_shape b c \<Longrightarrow> same_shape a c"
  by (simp add: same_shape_def)

lemma same_tree_refl [simp]: "same_tree st st"
  by (simp add: same_tree_def)

lemma same_tree_trans: "same_tree a b \<Longrightarrow> same_tree b c \<Longrightarrow> same_tree a c"
  by (simp add: same_tree_def)

lemma anc_kids_cong:
  assumes "blocks st' = blocks st" and "\<And>x. kids st' x = kids st x"
  shows "anc st' = anc st"
  using assms by (simp add: anc_def tree_edges_def fun_eq_iff)

lemma same_shape_anc: "same_shape st st' \<Longrightarrow> anc st' = anc st"
  by (rule anc_kids_cong) (simp_all add: same_shape_def)

lemma same_tree_anc: "same_tree st st' \<Longrightarrow> anc st' = anc st"
  by (rule anc_kids_cong) (simp_all add: same_tree_def)

lemma same_shape_branch: "same_shape st st' \<Longrightarrow> branch st' = branch st"
  by (simp add: branch_def fun_eq_iff same_shape_anc) (simp add: same_shape_def)

lemma same_shape_inv: "same_shape st st' \<Longrightarrow> shape_inv r st' = shape_inv r st"
  by (simp add: same_shape_def shape_inv_def)

lemma same_tree_inv: "same_tree st st' \<Longrightarrow> tree_inv r st' = tree_inv r st"
  by (simp add: same_tree_def shape_inv_def tree_inv_def node_ok_def)

lemma same_tree_ordered: "same_tree st st' \<Longrightarrow> ordered st' hs = ordered st hs"
  by (simp add: same_tree_def ordered_def)

text \<open>The order of unrelated blocks is fixed by the tree, whatever the intervals.\<close>

lemma before_branch:
  assumes "tree_inv r st" and "a \<in> blocks st" and "b \<in> blocks st"
  shows "iv_before (ivl st a) (ivl st b) \<longleftrightarrow> branch st a b"
proof
  assume before: "iv_before (ivl st a) (ivl st b)"
  note ne = nonempty_block [OF assms(1,2)] nonempty_block [OF assms(1,3)]
  have "\<not> anc st a b" "\<not> anc st b a"
    using before ne anc_iff_point [OF assms] anc_iff_point [OF assms(1,3,2)]
    by (auto simp: iv_before_def)
  moreover have "\<not> branch st b a"
    using branch_before [OF assms(1), of b a] before ne by (auto simp: iv_before_def)
  ultimately show "branch st a b"
    using anc_trichotomy [OF tree_invD(1) [OF assms(1)] assms(2,3)] by simp
qed (rule branch_before [OF assms(1)])

lemma ordered_transfer:
  assumes "tree_inv r st" and "tree_inv r' st'" and "blocks st \<subseteq> blocks st'"
    and "\<And>a b. branch st a b \<Longrightarrow> branch st' a b" and "ordered st hs"
  shows "ordered st' hs"
  unfolding ordered_def
proof
  show "set hs \<subseteq> blocks st'"
    by (rule subset_trans [OF _ assms(3)]) (use assms(5) in \<open>simp add: ordered_def\<close>)
  show "sorted_wrt (\<lambda>a b. iv_before (ivl st' a) (ivl st' b)) hs"
  proof (rule sorted_wrt_mono_rel [of _ "\<lambda>a b. iv_before (ivl st a) (ivl st b)"])
    show "sorted_wrt (\<lambda>a b. iv_before (ivl st a) (ivl st b)) hs" using assms(5) by (simp add: ordered_def)
    fix a b assume ab: "a \<in> set hs" "b \<in> set hs" "iv_before (ivl st a) (ivl st b)"
    then have "a \<in> blocks st" "b \<in> blocks st" using assms(5) by (auto simp: ordered_def)
    with ab(3) before_branch [OF assms(1)] have "branch st a b" by simp
    from branch_before [OF assms(2) assms(4) [OF this]] show "iv_before (ivl st' a) (ivl st' b)" .
  qed
qed

lemma branch_put_leaf:
  assumes "shape_inv r st" and p: "p \<in> blocks st" and b: "b \<notin> blocks st" and "branch st x y"
  shows "branch (put_leaf st b p iv) x y"
  using assms(4)
proof (rule branchE)
  fix q i j
  assume q: "q \<in> blocks st" and ij: "i < j" "j < length (kids st q)"
    and x: "anc st (kids st q ! i) x" and y: "anc st (kids st q ! j) y"
  have "q \<noteq> b" using q b by auto
  have le: "anc st u v \<Longrightarrow> anc (put_leaf st b p iv) u v" for u v
    using anc_first [of st u v] b anc_put_leaf [OF assms(1) p b, of iv u v] anc_last [of st u v]
      shape_invD(6) [OF assms(1)] by (cases "v = b") auto
  have nth: "kids (put_leaf st b p iv) q ! k = kids st q ! k" if "k \<le> j" for k
    using that ij \<open>q \<noteq> b\<close> by (auto simp: put_leaf_sel [OF p b] nth_append)
  show ?thesis
  proof (rule branchI)
    show "q \<in> blocks (put_leaf st b p iv)" using q by (simp add: put_leaf_sel [OF p b])
    show "i < j" by (rule ij(1))
    show "j < length (kids (put_leaf st b p iv) q)"
      using ij \<open>q \<noteq> b\<close> by (auto simp: put_leaf_sel [OF p b])
    show "anc (put_leaf st b p iv) (kids (put_leaf st b p iv) q ! i) x"
      using ij le [OF x] nth [of i] by simp
    show "anc (put_leaf st b p iv) (kids (put_leaf st b p iv) q ! j) y"
      using le [OF y] nth [of j] by simp
  qed
qed

section \<open>Inserting into future covering sets\<close>

lemma ordered_vec_insert:
  assumes "ordered st hs" and "b \<in> blocks st" and "i \<le> length hs"
    and "\<And>j. j < i \<Longrightarrow> iv_before (ivl st (hs ! j)) (ivl st b)"
    and "\<And>j. i \<le> j \<Longrightarrow> j < length hs \<Longrightarrow> iv_before (ivl st b) (ivl st (hs ! j))"
  shows "ordered st (vec_insert hs i b)"
proof -
  let ?P = "\<lambda>a b. iv_before (ivl st a) (ivl st b)"
  have s: "sorted_wrt ?P (take i hs @ drop i hs)" using assms(1) by (simp add: ordered_def)
  have "?P x b" if x: "x \<in> set (take i hs)" for x
  proof -
    from x obtain j where "j < i" "x = hs ! j" by (auto simp: in_set_conv_nth)
    then show ?thesis using assms(4) by simp
  qed
  moreover have "?P b x" if x: "x \<in> set (drop i hs)" for x
  proof -
    from x obtain j where "j < length hs - i" "x = hs ! (i + j)" by (auto simp: in_set_conv_nth)
    then show ?thesis using assms(5) by simp
  qed
  ultimately have "sorted_wrt ?P (vec_insert hs i b)"
    using s unfolding sorted_wrt_append vec_insert_def by simp
  moreover have "set (vec_insert hs i b) \<subseteq> blocks st"
    using assms(1,2) unfolding ordered_def vec_insert_def
    by (auto dest: in_set_takeD in_set_dropD simp del: domIff)
  ultimately show ?thesis by (simp add: ordered_def)
qed

lemma set_vec_insert: "set (vec_insert xs i x) = insert x (set xs)"
proof -
  have "set (vec_insert xs i x) = insert x (set (take i xs) \<union> set (drop i xs))"
    by (auto simp: vec_insert_def)
  then show ?thesis by (simp flip: set_append)
qed

lemma insert_future_covering_item_in:
  assumes "m \<in> blocks st" and "i \<le> length (fcs st m)"
  obtains st' where "insert_future_covering_item st m b i = Inr st'" "same_tree st st'"
    "\<And>x. fcs st' x = (if x = m then vec_insert (fcs st m) i b else fcs st x)"
proof -
  define st' where "st' = st\<lparr>rs_map := (rs_map st)(m \<mapsto>
    rd_fcs_update (\<lambda>fs. vec_insert fs i b) (the_data st m))\<rparr>"
  have "insert_future_covering_item st m b i = Inr st'"
    using assms by (simp add: insert_future_covering_item_def update_data_in st'_def)
  moreover have "same_tree st st'" "\<And>x. fcs st' x = (if x = m then vec_insert (fcs st m) i b else fcs st x)"
    using assms(1) by (auto simp: st'_def same_tree_def)
  ultimately show ?thesis by (rule that)
qed

lemma insert_to_fcs_ok:
  assumes inv: "tree_inv r st" and m: "m \<in> blocks st" and b: "b \<in> blocks st" "kids st b = []"
    and ord: "ordered st (fcs st m)" and new: "\<And>f. f \<in> set (fcs st m) \<Longrightarrow> \<not> anc st f b"
  obtains st' where "insert_to_future_covering_set st m b = Inr st'" "same_tree st st'"
    "\<And>x. x \<noteq> m \<Longrightarrow> fcs st' x = fcs st x" "set (fcs st' m) = insert b (set (fcs st m))"
    "ordered st (fcs st' m)"
proof -
  from binary_search_descendant_spec [OF inv b(1) ord] new
  obtain i where i: "i \<le> length (fcs st m)" "binary_search_descendant st (fcs st m) b = Inr (NotFound i)"
    "\<forall>j < i. iv_start (ivl st (fcs st m ! j)) < iv_end (ivl st b)"
    "\<forall>j. i \<le> j \<longrightarrow> j < length (fcs st m) \<longrightarrow> iv_end (ivl st b) < iv_start (ivl st (fcs st m ! j))"
    by (auto simp del: domIff)
  obtain st' where st': "insert_future_covering_item st m b i = Inr st'" "same_tree st st'"
    "\<And>x. fcs st' x = (if x = m then vec_insert (fcs st m) i b else fcs st x)"
    using insert_future_covering_item_in [OF m i(1)] by metis
  have "ordered st (fcs st' m)"
    unfolding st'(3) if_True simp_thms
  proof (rule ordered_vec_insert [OF ord b(1) i(1), unfolded HOL.simp_thms])
    fix j assume j: "j < i"
    define f where "f = fcs st m ! j"
    have f: "f \<in> set (fcs st m)" using j i(1) by (simp add: f_def)
    then have fb: "f \<in> blocks st" using ord by (auto simp: ordered_def)
    have "f \<noteq> b" using new [OF f] by auto
    from inv fb b(1) show "iv_before (ivl st (fcs st m ! j)) (ivl st b)"
    proof (cases rule: related_cases)
      case 1
      with new [OF f] show ?thesis by simp
    next
      case 2
      with anc_first [OF 2(1)] b(2) \<open>f \<noteq> b\<close> show ?thesis by simp
    next
      case 3
      then show ?thesis by (simp add: f_def)
    next
      case 4
      with i(3) j show ?thesis by (force simp: iv_before_def f_def)
    qed
  next
    fix j assume "i \<le> j" "j < length (fcs st m)"
    with i(4) show "iv_before (ivl st b) (ivl st (fcs st m ! j))" by (simp add: iv_before_def)
  qed
  with st' i m that show ?thesis
    by (simp add: insert_to_future_covering_set_def set_vec_insert)
qed

text \<open>\<^verbatim>\<open>add_dag_block\<close> adds the new leaf to the covering set of every merged block.\<close>

lemma add_dag_block_ok:
  assumes "tree_inv r st" and "b \<in> blocks st" and "kids st b = []" and "distinct ms"
    and "\<And>m. m \<in> set ms \<Longrightarrow> m \<in> blocks st \<and> ordered st (fcs st m) \<and> (\<forall>f \<in> set (fcs st m). \<not> anc st f b)"
  shows "\<exists>st'. add_dag_block st b ms = Inr st' \<and> same_tree st st' \<and>
    (\<forall>x. x \<notin> set ms \<longrightarrow> fcs st' x = fcs st x) \<and>
    (\<forall>m \<in> set ms. set (fcs st' m) = insert b (set (fcs st m)) \<and> ordered st (fcs st' m))"
  using assms
proof (induction ms arbitrary: st)
  case Nil
  then show ?case by (auto simp: add_dag_block_def)
next
  case (Cons m ms)
  have m: "m \<in> blocks st" "ordered st (fcs st m)" "\<And>f. f \<in> set (fcs st m) \<Longrightarrow> \<not> anc st f b"
    using Cons.prems(5) [of m] by simp_all
  obtain st1 where st1: "insert_to_future_covering_set st m b = Inr st1" "same_tree st st1"
    "\<And>x. x \<noteq> m \<Longrightarrow> fcs st1 x = fcs st x" "set (fcs st1 m) = insert b (set (fcs st m))" "ordered st (fcs st1 m)"
    using insert_to_fcs_ok [OF Cons.prems(1) m(1) Cons.prems(2,3) m(2,3)] by metis
  have eq: "blocks st1 = blocks st" "kids st1 b = kids st b" using st1(2) by (simp_all add: same_tree_def)
  have "\<exists>st'. add_dag_block st1 b ms = Inr st' \<and> same_tree st1 st' \<and>
    (\<forall>x. x \<notin> set ms \<longrightarrow> fcs st' x = fcs st1 x) \<and>
    (\<forall>m \<in> set ms. set (fcs st' m) = insert b (set (fcs st1 m)) \<and> ordered st1 (fcs st' m))"
  proof (rule Cons.IH)
    show "tree_inv r st1" using Cons.prems(1) same_tree_inv [OF st1(2)] by simp
    show "b \<in> blocks st1" "kids st1 b = []" "distinct ms" using Cons.prems eq by simp_all
    fix m' assume m': "m' \<in> set ms"
    then have "m' \<noteq> m" using Cons.prems(4) by auto
    then show "m' \<in> blocks st1 \<and> ordered st1 (fcs st1 m') \<and> (\<forall>f \<in> set (fcs st1 m'). \<not> anc st1 f b)"
      using Cons.prems(5) [of m'] m' st1(3) eq same_tree_ordered [OF st1(2)] same_tree_anc [OF st1(2)] by simp
  qed
  then obtain st' where st': "add_dag_block st1 b ms = Inr st'" "same_tree st1 st'"
    "\<forall>x. x \<notin> set ms \<longrightarrow> fcs st' x = fcs st1 x"
    "\<forall>m \<in> set ms. set (fcs st' m) = insert b (set (fcs st1 m)) \<and> ordered st1 (fcs st' m)" by blast
  have "add_dag_block st b (m # ms) = Inr st'"
    using st1(1) st'(1) by (simp add: add_dag_block_def)
  moreover have "same_tree st st'" by (rule same_tree_trans [OF st1(2) st'(2)])
  moreover have "\<forall>x. x \<notin> set (m # ms) \<longrightarrow> fcs st' x = fcs st x" using st'(3) st1(3) by simp
  moreover have "\<forall>m' \<in> set (m # ms). set (fcs st' m') = insert b (set (fcs st m')) \<and> ordered st (fcs st' m')"
  proof
    fix m' assume m': "m' \<in> set (m # ms)"
    show "set (fcs st' m') = insert b (set (fcs st m')) \<and> ordered st (fcs st' m')"
    proof (cases "m' = m")
      case True
      with Cons.prems(4) st'(3) st1(4,5) show ?thesis by simp
    next
      case False
      with m' st'(4) st1(3) same_tree_ordered [OF st1(2)] show ?thesis by simp
    qed
  qed
  ultimately show ?case by blast
qed

section \<open>Correctness of the DAG queries\<close>

definition dag_rel :: "(hash \<Rightarrow> hash set) \<Rightarrow> (hash \<times> hash) set" where
  "dag_rel G = {(p, c). p \<in> G c}"

definition dag_reach :: "(hash \<Rightarrow> hash set) \<Rightarrow> hash \<Rightarrow> hash \<Rightarrow> bool" where
  "dag_reach G a b \<longleftrightarrow> (a, b) \<in> (dag_rel G)\<^sup>*"

text \<open>
  The covering sets are ordered, and together with tree ancestry they decide
  reachability in the DAG, whose parents all are stored.
\<close>

definition covering_inv :: "(hash \<Rightarrow> hash set) \<Rightarrow> reach_store \<Rightarrow> bool" where
  "covering_inv G st \<longleftrightarrow> (\<forall>c \<in> blocks st. G c \<subseteq> blocks st) \<and> (\<forall>a \<in> blocks st. ordered st (fcs st a)) \<and>
     (\<forall>a \<in> blocks st. \<forall>b \<in> blocks st.
        dag_reach G a b \<longleftrightarrow> anc st a b \<or> (\<exists>f \<in> set (fcs st a). anc st f b))"

lemma covering_invD:
  assumes "covering_inv G st"
  shows "c \<in> blocks st \<Longrightarrow> G c \<subseteq> blocks st" "a \<in> blocks st \<Longrightarrow> ordered st (fcs st a)"
    "a \<in> blocks st \<Longrightarrow> b \<in> blocks st \<Longrightarrow>
       dag_reach G a b \<longleftrightarrow> anc st a b \<or> (\<exists>f \<in> set (fcs st a). anc st f b)"
  using assms unfolding covering_inv_def by blast+

lemma dag_query_reach:
  assumes "tree_inv r st" and "covering_inv G st" and "a \<in> blocks st" and "b \<in> blocks st"
  shows "is_dag_ancestor_of st a b = Inr (dag_reach G a b)"
  using dag_query_anc [OF assms(1,3,4) covering_invD(2) [OF assms(2,3)]] covering_invD(3) [OF assms(2-4)]
  by simp

lemma dag_reach_closed:
  assumes "\<forall>c \<in> S. G c \<subseteq> S" and "dag_reach G a b" and "b \<in> S"
  shows "a \<in> S"
  using assms(2) unfolding dag_reach_def
proof (induction rule: converse_rtrancl_induct)
  case base
  show ?case by (rule assms(3))
next
  case (step y z)
  from step(1) have "y \<in> G z" by (simp add: dag_rel_def)
  with assms(1) step(3) show ?case by blast
qed

lemma dag_reach_old:
  assumes "\<forall>c \<in> S. G c \<subseteq> S" and "b \<notin> S" and "c \<in> S"
  shows "dag_reach (G(b := ps)) a c \<longleftrightarrow> dag_reach G a c"
proof -
  let ?G = "G(b := ps)"
  have G': "?G x = G x" if "x \<in> S" for x using that assms(2) by auto
  have closed': "\<forall>c \<in> S. ?G c \<subseteq> S" using assms(1) G' by simp
  have "dag_reach G a c" if "dag_reach ?G a c"
    using that unfolding dag_reach_def
  proof (induction rule: converse_rtrancl_induct)
    case (step y z)
    have "dag_reach ?G z c" using step(2) by (simp only: dag_reach_def)
    then have "z \<in> S" by (rule dag_reach_closed [OF closed' _ assms(3)])
    with step(1) G' have "(y, z) \<in> dag_rel G" by (simp add: dag_rel_def)
    with step(3) show ?case by (rule converse_rtrancl_into_rtrancl [rotated])
  qed simp
  moreover have "dag_reach ?G a c" if "dag_reach G a c"
    using that unfolding dag_reach_def
  proof (induction rule: converse_rtrancl_induct)
    case (step y z)
    have "dag_reach G z c" using step(2) by (simp only: dag_reach_def)
    then have "z \<in> S" by (rule dag_reach_closed [OF assms(1) _ assms(3)])
    with step(1) G' have "(y, z) \<in> dag_rel ?G" by (simp add: dag_rel_def)
    with step(3) show ?case by (rule converse_rtrancl_into_rtrancl [rotated])
  qed simp
  ultimately show ?thesis by blast
qed

lemma dag_reach_new:
  assumes "\<forall>c \<in> S. G c \<subseteq> S" and "b \<notin> S" and "ps \<subseteq> S"
  shows "dag_reach (G(b := ps)) a b \<longleftrightarrow> a = b \<or> (\<exists>p \<in> ps. dag_reach G a p)"
proof
  assume "dag_reach (G(b := ps)) a b"
  then show "a = b \<or> (\<exists>p \<in> ps. dag_reach G a p)"
    unfolding dag_reach_def
  proof (cases rule: rtranclE)
    case (step p)
    then have "p \<in> ps" by (simp add: dag_rel_def)
    moreover have "dag_reach G a p"
      using step(1) dag_reach_old [OF assms(1,2), where c = p and ps = ps and a = a] \<open>p \<in> ps\<close> assms(3) by (auto simp: dag_reach_def)
    ultimately show "a = b \<or> (\<exists>p \<in> ps. (a, p) \<in> (dag_rel G)\<^sup>*)" by (auto simp: dag_reach_def)
  qed simp
next
  assume "a = b \<or> (\<exists>p \<in> ps. dag_reach G a p)"
  then show "dag_reach (G(b := ps)) a b"
  proof (elim disjE bexE)
    fix p assume p: "p \<in> ps" "dag_reach G a p"
    then have "dag_reach (G(b := ps)) a p" using dag_reach_old [OF assms(1,2), where c = p and ps = ps and a = a] assms(3) by auto
    moreover have "(p, b) \<in> dag_rel (G(b := ps))" using p(1) by (simp add: dag_rel_def)
    ultimately show ?thesis unfolding dag_reach_def by (rule rtrancl_into_rtrancl)
  qed (simp add: dag_reach_def)
qed

text \<open>What \<^verbatim>\<open>add_tree_block\<close> delivers: the new leaf, possibly with moved intervals.\<close>

definition leaf_added :: "hash \<Rightarrow> reach_store \<Rightarrow> hash \<Rightarrow> hash \<Rightarrow> reach_store \<Rightarrow> bool" where
  "leaf_added r st b p st' \<longleftrightarrow> tree_inv r st' \<and> ivl st' r = ivl st r \<and>
     (\<exists>iv. same_shape (put_leaf st b p iv) st')"

lemma leaf_addedD:
  assumes inv: "tree_inv r st" and p: "p \<in> blocks st" and b: "b \<notin> blocks st" and "leaf_added r st b p st'"
  shows "tree_inv r st'" "blocks st' = insert b (blocks st)" "kids st' b = []"
    "fcs st' x = (if x = b then [] else fcs st x)"
    "anc st' a x \<longleftrightarrow> (if x = b then a = b \<or> anc st a p else anc st a x)"
    "ordered st hs \<Longrightarrow> ordered st' hs"
proof -
  obtain iv where s: "same_shape (put_leaf st b p iv) st'" and t: "tree_inv r st'"
    using assms(4) by (auto simp: leaf_added_def)
  note sel = put_leaf_sel [OF p b]
  show "tree_inv r st'" by (rule t)
  show B: "blocks st' = insert b (blocks st)" and "kids st' b = []"
    and "fcs st' x = (if x = b then [] else fcs st x)"
    using s by (simp_all add: same_shape_def sel)
  show "anc st' a x \<longleftrightarrow> (if x = b then a = b \<or> anc st a p else anc st a x)"
    using same_shape_anc [OF s] anc_put_leaf [OF tree_invD(1) [OF inv] p b] by simp
  show "ordered st hs \<Longrightarrow> ordered st' hs"
  proof (rule ordered_transfer [OF inv t])
    show "blocks st \<subseteq> blocks st'" using B by blast
    show "branch st x y \<Longrightarrow> branch st' x y" for x y
      using branch_put_leaf [OF tree_invD(1) [OF inv] p b] same_shape_branch [OF s] by simp
  qed
qed

lemma add_dag_block_covering:
  assumes inv: "tree_inv r st" and cov: "covering_inv G st" and b: "b \<notin> blocks st"
    and ps: "ps \<subseteq> blocks st" and sp: "sp \<in> ps" and ms: "distinct ms"
    "set ms = {x \<in> blocks st. (\<exists>p \<in> ps. dag_reach G x p) \<and> \<not> dag_reach G x sp}"
    and leaf: "leaf_added r st b sp st1"
  shows "\<exists>st'. add_dag_block st1 b ms = Inr st' \<and> tree_inv r st' \<and> covering_inv (G(b := ps)) st' \<and>
    blocks st' = insert b (blocks st) \<and> same_tree st1 st'"
proof -
  have p: "sp \<in> blocks st" using ps sp by blast
  note L = leaf_addedD [OF inv p b leaf]
  note C = covering_invD [OF cov]
  have closed: "\<forall>c \<in> blocks st. G c \<subseteq> blocks st" using C(1) by blast
  have fcs_old: "f \<in> blocks st" if "a \<in> blocks st" "f \<in> set (fcs st a)" for a f
    using C(2) [OF that(1)] that(2) by (auto simp: ordered_def)
  have old_ne: "x \<noteq> b" if "x \<in> blocks st" for x using that b by auto
  have b_anc: "\<not> anc st b c" if "c \<in> blocks st" for c
    using anc_first [of st b c] b that by auto
  obtain st' where st': "add_dag_block st1 b ms = Inr st'" "same_tree st1 st'"
    "\<forall>x. x \<notin> set ms \<longrightarrow> fcs st' x = fcs st1 x"
    "\<forall>m \<in> set ms. set (fcs st' m) = insert b (set (fcs st1 m)) \<and> ordered st1 (fcs st' m)"
  proof (atomize_elim, rule add_dag_block_ok [OF L(1) _ L(3) ms(1)])
    show "b \<in> blocks st1" by (simp add: L(2))
    fix m assume "m \<in> set ms"
    then have m: "m \<in> blocks st" "\<not> dag_reach G m sp" using ms(2) by auto
    have "\<not> anc st1 f b" if "f \<in> set (fcs st m)" for f
      using C(3) [OF m(1) p] m(2) that old_ne [OF fcs_old [OF m(1) that]] by (auto simp: L(5))
    then show "m \<in> blocks st1 \<and> ordered st1 (fcs st1 m) \<and> (\<forall>f \<in> set (fcs st1 m). \<not> anc st1 f b)"
      using m(1) old_ne [OF m(1)] L(6) [OF C(2) [OF m(1)]] by (simp add: L(2,4))
  qed
  have blocks': "blocks st' = insert b (blocks st)" using st'(2) L(2) by (simp add: same_tree_def)
  have anc': "anc st' a x \<longleftrightarrow> (if x = b then a = b \<or> anc st a sp else anc st a x)" for a x
    using same_tree_anc [OF st'(2)] L(5) by simp
  have fcs1: "set (fcs st' a) = set (fcs st a) \<union> (if a \<in> set ms then {b} else {})" if "a \<in> blocks st" for a
    using st'(3,4) old_ne [OF that] by (auto simp: L(4))
  have fcsb: "fcs st' b = []" using st'(3) ms(2) b by (auto simp: L(4))
  have reach: "dag_reach (G(b := ps)) a c \<longleftrightarrow> anc st' a c \<or> (\<exists>f \<in> set (fcs st' a). anc st' f c)"
    if "a \<in> insert b (blocks st)" "c \<in> insert b (blocks st)" for a c
  proof (cases "c = b")
    case True
    have lhs: "dag_reach (G(b := ps)) a b \<longleftrightarrow> a = b \<or> (\<exists>p \<in> ps. dag_reach G a p)"
      by (rule dag_reach_new [OF closed b ps])
    show ?thesis
    proof (cases "a = b")
      case False
      then have a: "a \<in> blocks st" using that(1) by simp
      have "(\<exists>p \<in> ps. dag_reach G a p) \<longleftrightarrow> a \<in> set ms \<or> dag_reach G a sp" using ms(2) a sp by auto
      also have "\<dots> \<longleftrightarrow> anc st a sp \<or> (\<exists>f \<in> set (fcs st' a). f = b \<or> anc st f sp)"
        using C(3) [OF a p] fcs_old [OF a] old_ne b_anc [OF p] by (auto simp: fcs1 [OF a])
      finally show ?thesis using True False lhs by (simp add: anc')
    qed (use True lhs in \<open>simp add: anc'\<close>)
  next
    case False
    then have c: "c \<in> blocks st" using that(2) by simp
    have lhs: "dag_reach (G(b := ps)) a c \<longleftrightarrow> dag_reach G a c"
      by (rule dag_reach_old [OF closed b c])
    show ?thesis
    proof (cases "a = b")
      case True
      have "\<not> dag_reach G b c" using dag_reach_closed [OF closed _ c, where a = b] b by blast
      with True False lhs b_anc [OF c] fcsb show ?thesis by (simp add: anc')
    next
      case False
      then have a: "a \<in> blocks st" using that(1) by simp
      show ?thesis
        using lhs C(3) [OF a c] \<open>c \<noteq> b\<close> b_anc [OF c] by (auto simp: anc' fcs1 [OF a])
    qed
  qed
  have "covering_inv (G(b := ps)) st'"
    unfolding covering_inv_def blocks'
  proof (intro conjI ballI)
    fix a assume a: "a \<in> insert b (blocks st)"
    show "(G(b := ps)) a \<subseteq> insert b (blocks st)"
      using a ps C(1) by (cases "a = b") auto
    show "ordered st' (fcs st' a)"
      unfolding same_tree_ordered [OF st'(2)]
    proof (cases "a \<in> set ms")
      case True
      with st'(4) show "ordered st1 (fcs st' a)" by simp
    next
      case False
      with a st'(3) L(6) [OF C(2)] show "ordered st1 (fcs st' a)"
        by (cases "a = b") (simp_all add: L(4) fcsb, simp add: ordered_def)
    qed
  qed (rule reach)
  with st'(1,2) L(1) blocks' same_tree_inv [OF st'(2)] show ?thesis by auto
qed

end
