(* ===== verification/Work.thy ===== *)
theory Work
  imports Prelude "HOL-Library.Log_Nat"
begin

unbundle bit_operations_syntax

text \<open>
  Compact difficulty targets and block work: the \<^verbatim>\<open>Uint256\<close> methods of
  \<^verbatim>\<open>math/src/lib.rs\<close> and \<^verbatim>\<open>calc_work\<close>, \<^verbatim>\<open>level_work\<close> of
  \<^verbatim>\<open>consensus/src/processes/difficulty.rs\<close>.  \<^verbatim>\<open>Uint192\<close> and \<^verbatim>\<open>Uint256\<close> are words:
  in release builds their operators wrap, and a shift count is taken modulo the
  width.
\<close>

type_synonym uint256 = "256 word"
type_synonym blue_work = "192 word"

definition shl256 :: "uint256 \<Rightarrow> nat \<Rightarrow> uint256" where
  "shl256 x s = push_bit (s mod 256) x"

definition shr256 :: "uint256 \<Rightarrow> nat \<Rightarrow> uint256" where
  "shr256 x s = drop_bit (s mod 256) x"

definition from_compact_target_bits :: "32 word \<Rightarrow> uint256" where
  "from_compact_target_bits bits =
     (let unshifted_expt = unat (drop_bit 24 bits);
          (mant, expt) =
            (if unshifted_expt \<le> 3
             then (drop_bit (8 * (3 - unshifted_expt)) (bits AND 0xFFFFFF), 0)
             else (bits AND 0xFFFFFF, 8 * (unshifted_expt - 3)))
      in if mant > 0x7FFFFF then 0 else shl256 (ucast mant) expt)"

text \<open>\<^verbatim>\<open>Uint256::bits\<close>: the least number of bits that represent the value.\<close>

definition bits256 :: "uint256 \<Rightarrow> nat" where
  "bits256 x = nat (bitlen (uint x))"

definition compact_target_bits :: "uint256 \<Rightarrow> 32 word" where
  "compact_target_bits x =
     (let n = div_ceil (bits256 x) 8;
          compact = (if n \<le> 3 then ucast (push_bit (8 * (3 - n)) (ucast x :: 64 word))
                     else ucast (ucast (shr256 x (8 * (n - 3))) :: 64 word)) :: 32 word;
          (compact', n') = (if compact AND 0x00800000 \<noteq> 0 then (drop_bit 8 compact, n + 1) else (compact, n))
      in compact' OR push_bit 24 (word_of_nat n'))"

definition calc_work :: "32 word \<Rightarrow> (unit, blue_work) res" where
  "calc_work bits =
     (let target = from_compact_target_bits bits in
      if target + 1 = 0 then Inl Panic
      else let w = (NOT target) div (target + 1) + 1
           in if uint w < 2 ^ 192 then Inr (ucast w) else Inl Panic)"

definition MAX_WORK_LEVEL :: nat where
  "MAX_WORK_LEVEL = 128"

text \<open>Block levels are \<^verbatim>\<open>u8\<close>; the exponent is computed in \<^verbatim>\<open>u32\<close> and underflow panics.\<close>

definition level_work :: "nat \<Rightarrow> nat \<Rightarrow> (unit, blue_work) res" where
  "level_work level max_block_level =
     (if level = 0 then Inr 0
      else rbind (sub64 (level + 256) max_block_level) (\<lambda>expo.
        Inr (push_bit (min expo MAX_WORK_LEVEL mod 192) 1)))"

section \<open>Work of a target\<close>

text \<open>The quotient the comment of \<^verbatim>\<open>calc_work\<close> derives: \<open>2 ^ 256 div (target + 1)\<close>.\<close>

lemma work_quotient:
  fixes t :: uint256
  assumes "t \<noteq> 0" and "t + 1 \<noteq> 0"
  shows "uint ((NOT t) div (t + 1) + 1) = 2 ^ 256 div (uint t + 1)"
proof -
  have t: "0 < uint t" "uint t < 2 ^ 256 - 1"
  proof -
    show "0 < uint t" using assms(1) by (simp add: uint_0_iff order_less_le)
    have "uint t < 2 ^ 256" using uint_bounded [of t] by simp
    moreover have "uint t \<noteq> 2 ^ 256 - 1"
    proof
      assume "uint t = 2 ^ 256 - 1"
      then have "t = word_of_int (2 ^ 256 - 1)" by (metis word_of_int_uint)
      then show False using assms(2) by simp
    qed
    ultimately show "uint t < 2 ^ 256 - 1" by simp
  qed
  have succ: "uint (t + 1) = uint t + 1"
    using t by (simp add: uint_plus_if')
  have nt: "uint (NOT t) = 2 ^ 256 - 1 - uint t"
    using uint_bounded [of t]
    by (simp add: unsigned_not_eq take_bit_not_eq_mask_diff mask_eq_exp_minus_1 take_bit_int_eq_self)
  have q: "uint ((NOT t) div (t + 1)) = (2 ^ 256 - 1 - uint t) div (uint t + 1)"
    by (simp add: uint_div succ nt)
  have eq: "(2 ^ 256 - 1 - uint t) div (uint t + 1) + 1 = 2 ^ 256 div (uint t + 1)"
  proof -
    have "(2::int) ^ 256 = (2 ^ 256 - 1 - uint t) + (uint t + 1)" by simp
    then have "2 ^ 256 div (uint t + 1) = (2 ^ 256 - 1 - uint t) div (uint t + 1) + 1"
      using t(1) by (metis div_add_self2 less_irrefl add_nonneg_pos order_less_imp_le zero_less_one)
    then show ?thesis by simp
  qed
  have "(2::int) ^ 256 div (uint t + 1) \<le> 2 ^ 256 div 2"
    using t(1) by (intro zdiv_mono2) auto
  then have "uint ((NOT t) div (t + 1)) + 1 < 2 ^ 256" using q eq by simp
  then show ?thesis using q eq by (simp add: uint_plus_if')
qed

text \<open>A decoded target never is the greatest word, so \<open>target + 1\<close> does not wrap to zero.\<close>

lemma from_compact_cases:
  obtains (zero) "from_compact_target_bits bits = 0"
  | (shifted) mant n where "from_compact_target_bits bits = push_bit n (ucast (mant :: 32 word))" "mant \<le> 0x7FFFFF"
proof -
  define e where "e = unat (drop_bit 24 bits)"
  define m where "m = (if e \<le> 3 then drop_bit (8 * (3 - e)) (bits AND 0xFFFFFF) else bits AND 0xFFFFFF)"
  define n where "n = (if e \<le> 3 then 0 else 8 * (e - 3)) mod 256"
  have "from_compact_target_bits bits = (if m > 0x7FFFFF then 0 else push_bit n (ucast m))"
    by (simp add: from_compact_target_bits_def Let_def shl256_def m_def n_def flip: e_def)
  then show ?thesis using zero shifted [of n m] by (cases "m > 0x7FFFFF") auto
qed

lemma from_compact_not_max: "from_compact_target_bits bits + 1 \<noteq> 0"
proof (cases bits rule: from_compact_cases)
  case (shifted mant n)
  show ?thesis
  proof
    assume "from_compact_target_bits bits + 1 = 0"
    then have all: "push_bit n (ucast mant :: uint256) = - 1" using shifted(1) by (simp add: eq_neg_iff_add_eq_0)
    then have "bit (push_bit n (ucast mant :: uint256)) 0" by simp
    then have "n = 0" by (simp add: bit_push_bit_iff)
    then have "bit (ucast mant :: uint256) 40" using all by simp
    then have "bit mant 40" by (simp add: bit_ucast_iff)
    then show False using bit_imp_le_length [of mant 40] by simp
  qed
qed simp

section \<open>Properties\<close>

text \<open>
  C35: \<^verbatim>\<open>calc_work\<close> of a nonzero target is \<open>2 ^ 256 div (target + 1)\<close>, as its comment
  derives, and panics exactly when this exceeds 192 bits; the increment and the
  complement never wrap.  A zero target, also that of a compact value with the
  sign bit of the mantissa set, has work zero.
\<close>

theorem calc_work_value:
  "calc_work bits = (let t = uint (from_compact_target_bits bits); q = 2 ^ 256 div (t + 1) in
     if t = 0 then Inr 0 else if q < 2 ^ 192 then Inr (word_of_int q) else Inl Panic)"
proof (cases "from_compact_target_bits bits = 0")
  case True
  have "(NOT (0 :: uint256)) div (0 + 1) + 1 = 0" by simp
  then have "calc_work bits = Inr 0" unfolding calc_work_def Let_def True by (simp only: add_0 one_neq_zero if_False) simp
  with True show ?thesis by (simp only: Let_def unsigned_0 simp_thms if_True)
next
  case False
  define t where "t = from_compact_target_bits bits"
  have t: "t \<noteq> 0" "t + 1 \<noteq> 0" using False from_compact_not_max by (simp_all add: t_def)
  define w where "w = (NOT t) div (t + 1) + 1"
  have w: "uint w = 2 ^ 256 div (uint t + 1)" unfolding w_def by (rule work_quotient [OF t])
  have "(ucast w :: blue_work) = word_of_int (uint w)" by (rule ucast_eq)
  then have uw: "(ucast w :: blue_work) = word_of_int (2 ^ 256 div (uint t + 1))" unfolding w .
  have ut: "uint t \<noteq> 0" using t(1) by (simp add: uint_0_iff)
  have "calc_work bits = (if uint w < 2 ^ 192 then Inr (ucast w) else Inl Panic)"
    unfolding calc_work_def Let_def t_def [symmetric] w_def [symmetric] by (rule if_not_P [OF t(2)])
  then show ?thesis unfolding Let_def t_def [symmetric] uw w if_not_P [OF ut] .
qed

end
