(* ===== verification/Ghostdag.thy ===== *)
theory Ghostdag
  imports ReachDag Work "HOL-Library.AList"
begin

text \<open>
  The GHOSTDAG protocol: \<^verbatim>\<open>consensus/src/processes/ghostdag/{mergeset,ordering,protocol}.rs\<close>
  and \<^verbatim>\<open>GhostdagData\<close> of \<^verbatim>\<open>consensus/src/model/stores/ghostdag.rs\<close>.  The manager
  reads the stores it holds: GHOSTDAG data, block relations (parents), header
  bits and reachability.  A \<^verbatim>\<open>KType\<close> is a \<^verbatim>\<open>u16\<close>; blue work is a 192-bit word,
  whose sums wrap in release builds.  Every \<^verbatim>\<open>unwrap\<close> on a store is a panic.
\<close>

section \<open>Data\<close>

record ghostdag_data =
  gd_blue_score :: nat
  gd_blue_work :: blue_work
  gd_selected_parent :: hash
  gd_mergeset_blues :: "hash list"
  gd_mergeset_reds :: "hash list"
  gd_anticone_sizes :: "hash \<rightharpoonup> nat"

definition add16 :: "nat \<Rightarrow> nat \<Rightarrow> (unit, nat) res" where
  "add16 a b = (if a + b < 2 ^ 16 then Inr (a + b) else Inl Panic)"

definition gd_new_with_selected_parent :: "hash \<Rightarrow> nat \<Rightarrow> (unit, ghostdag_data) res" where
  "gd_new_with_selected_parent sp k = rbind (add16 k 1) (\<lambda>_.
     Inr \<lparr>gd_blue_score = 0, gd_blue_work = 0, gd_selected_parent = sp, gd_mergeset_blues = [sp],
          gd_mergeset_reds = [], gd_anticone_sizes = [sp \<mapsto> 0]\<rparr>)"

definition mergeset_size :: "ghostdag_data \<Rightarrow> nat" where
  "mergeset_size d = length (gd_mergeset_blues d) + length (gd_mergeset_reds d)"

text \<open>
  \<^verbatim>\<open>add_blue\<close>; the map of affected blues is an association list in the order in
  which it was filled.
\<close>

definition add_blue :: "ghostdag_data \<Rightarrow> hash \<Rightarrow> nat \<Rightarrow> (hash \<times> nat) list \<Rightarrow> (unit, ghostdag_data) res" where
  "add_blue d block blue_anticone_size block_blues_anticone_sizes =
     rbind (rfold (\<lambda>m (blue, n). rbind (add16 n 1) (\<lambda>n'. Inr (m(blue \<mapsto> n'))))
        ((gd_anticone_sizes d)(block \<mapsto> blue_anticone_size)) block_blues_anticone_sizes) (\<lambda>m.
     Inr (d\<lparr>gd_mergeset_blues := gd_mergeset_blues d @ [block], gd_anticone_sizes := m\<rparr>))"

definition add_red :: "ghostdag_data \<Rightarrow> hash \<Rightarrow> ghostdag_data" where
  "add_red d block = d\<lparr>gd_mergeset_reds := gd_mergeset_reds d @ [block]\<rparr>"

definition finalize_score_and_work :: "ghostdag_data \<Rightarrow> nat \<Rightarrow> blue_work \<Rightarrow> ghostdag_data" where
  "finalize_score_and_work d score work = d\<lparr>gd_blue_score := score, gd_blue_work := work\<rparr>"

definition unordered_mergeset_of_data :: "ghostdag_data \<Rightarrow> hash list" where
  "unordered_mergeset_of_data d = drop 1 (gd_mergeset_blues d) @ gd_mergeset_reds d"

section \<open>Sortable blocks\<close>

datatype sortable_block = SortableBlock (sb_hash: hash) (sb_blue_work: blue_work)

text \<open>\<^verbatim>\<open>impl Ord for SortableBlock\<close>: by blue work, then by hash.\<close>

instantiation sortable_block :: linorder
begin

definition less_eq_sortable_block :: "sortable_block \<Rightarrow> sortable_block \<Rightarrow> bool" where
  "less_eq_sortable_block a b \<longleftrightarrow>
     sb_blue_work a < sb_blue_work b \<or> sb_blue_work a = sb_blue_work b \<and> sb_hash a \<le> sb_hash b"

definition less_sortable_block :: "sortable_block \<Rightarrow> sortable_block \<Rightarrow> bool" where
  "less_sortable_block a b \<longleftrightarrow>
     sb_blue_work a < sb_blue_work b \<or> sb_blue_work a = sb_blue_work b \<and> sb_hash a < sb_hash b"

instance
  by standard (auto simp: less_eq_sortable_block_def less_sortable_block_def intro: sortable_block.expand)

end

text \<open>\<^verbatim>\<open>Iterator::max\<close>: the last of the maximal elements.\<close>

definition iter_max :: "'a::linorder list \<Rightarrow> 'a option" where
  "iter_max xs = (case xs of [] \<Rightarrow> None | y # ys \<Rightarrow> Some (fold (\<lambda>x acc. if acc \<le> x then x else acc) ys y))"

section \<open>The manager\<close>

record gd_manager =
  gm_genesis :: hash
  gm_k :: nat
  gm_store :: "hash \<rightharpoonup> ghostdag_data"
  gm_relations :: "hash \<rightharpoonup> hash list"
  gm_bits :: "hash \<rightharpoonup> 32 word"
  gm_reach :: reach_store
  gm_level_work :: blue_work

definition gd_get_data :: "gd_manager \<Rightarrow> hash \<Rightarrow> (unit, ghostdag_data) res" where
  "gd_get_data m h = unwrap (gm_store m h)"

text \<open>\<^verbatim>\<open>ReachabilityService::is_dag_ancestor_of\<close>, which unwraps the result.\<close>

definition dag_ancestor :: "gd_manager \<Rightarrow> hash \<Rightarrow> hash \<Rightarrow> (unit, bool) res" where
  "dag_ancestor m this queried = (case is_dag_ancestor_of (gm_reach m) this queried of
     Inl _ \<Rightarrow> Inl Panic | Inr b \<Rightarrow> Inr b)"

definition genesis_ghostdag_data :: ghostdag_data where
  "genesis_ghostdag_data = \<lparr>gd_blue_score = 0, gd_blue_work = 0, gd_selected_parent = ORIGIN,
     gd_mergeset_blues = [], gd_mergeset_reds = [], gd_anticone_sizes = Map.empty\<rparr>"

definition origin_ghostdag_data :: ghostdag_data where
  "origin_ghostdag_data = \<lparr>gd_blue_score = 0, gd_blue_work = 0, gd_selected_parent = 0,
     gd_mergeset_blues = [], gd_mergeset_reds = [], gd_anticone_sizes = Map.empty\<rparr>"

definition sortable :: "gd_manager \<Rightarrow> hash \<Rightarrow> (unit, sortable_block) res" where
  "sortable m h = rbind (gd_get_data m h) (\<lambda>d. Inr (SortableBlock h (gd_blue_work d)))"

definition find_selected_parent :: "gd_manager \<Rightarrow> hash list \<Rightarrow> (unit, hash) res" where
  "find_selected_parent m parents =
     rbind (rmap (sortable m) parents) (\<lambda>bs. rbind (unwrap (iter_max bs)) (\<lambda>b. Inr (sb_hash b)))"

definition sort_blocks :: "gd_manager \<Rightarrow> hash list \<Rightarrow> (unit, hash list) res" where
  "sort_blocks m bs = rbind (rmap (sortable m) bs) (\<lambda>sbs. Inr (map sb_hash (sort sbs)))"

text \<open>
  The mergeset search.  The hash sets \<^verbatim>\<open>mergeset\<close> and \<^verbatim>\<open>past\<close> are duplicate-free
  lists in insertion order; the order in which the code iterates over
  \<^verbatim>\<open>mergeset\<close> is erased by the sort that follows.
\<close>

type_synonym ancestor_query = "hash \<Rightarrow> hash \<Rightarrow> (unit, bool) res"

definition mergeset_visit ::
  "ancestor_query \<Rightarrow> hash \<Rightarrow> hash list \<times> hash list \<times> hash list \<Rightarrow> hash \<Rightarrow> (unit, hash list \<times> hash list \<times> hash list) res" where
  "mergeset_visit reachability selected_parent = (\<lambda>(queue, mergeset, past) parent.
     if parent \<in> set mergeset \<or> parent \<in> set past then Inr (queue, mergeset, past)
     else rbind (reachability parent selected_parent) (\<lambda>b.
       if b then Inr (queue, mergeset, past @ [parent])
       else Inr (queue @ [parent], mergeset @ [parent], past)))"

fun mergeset_loop :: "nat \<Rightarrow> (hash \<rightharpoonup> hash list) \<Rightarrow> ancestor_query \<Rightarrow> hash \<Rightarrow> hash list \<Rightarrow> hash list \<Rightarrow> hash list \<Rightarrow>
    (unit, hash list) res" where
  "mergeset_loop n relations reachability selected_parent [] mergeset past = Inr mergeset"
| "mergeset_loop 0 relations reachability selected_parent (current # queue) mergeset past = Inl OutOfFuel"
| "mergeset_loop (Suc n) relations reachability selected_parent (current # queue) mergeset past =
     rbind (unwrap (relations current)) (\<lambda>current_parents.
     rbind (rfold (mergeset_visit reachability selected_parent) (queue, mergeset, past) current_parents)
       (\<lambda>(queue', mergeset', past').
         mergeset_loop n relations reachability selected_parent queue' mergeset' past'))"

definition unordered_mergeset_without_selected_parent ::
  "nat \<Rightarrow> (hash \<rightharpoonup> hash list) \<Rightarrow> ancestor_query \<Rightarrow> hash \<Rightarrow> hash list \<Rightarrow> (unit, hash list) res" where
  "unordered_mergeset_without_selected_parent fuel relations reachability selected_parent parents =
     (let queue = filter (\<lambda>p. p \<noteq> selected_parent) parents
      in mergeset_loop fuel relations reachability selected_parent queue (remdups queue) [])"

definition ordered_mergeset_without_selected_parent ::
  "nat \<Rightarrow> gd_manager \<Rightarrow> hash \<Rightarrow> hash list \<Rightarrow> (unit, hash list) res" where
  "ordered_mergeset_without_selected_parent fuel m selected_parent parents =
     rbind (unordered_mergeset_without_selected_parent fuel (gm_relations m) (dag_ancestor m) selected_parent parents)
       (sort_blocks m)"

section \<open>Coloring\<close>

datatype coloring_state = StateBlue | StateRed | StatePending

datatype coloring_output = OutBlue nat "(hash \<times> nat) list" | OutRed

primrec blue_anticone_loop :: "nat \<Rightarrow> gd_manager \<Rightarrow> hash \<Rightarrow> (hash \<rightharpoonup> nat) \<Rightarrow> hash \<Rightarrow> (unit, nat) res" where
  "blue_anticone_loop 0 m block sizes sp = Inl OutOfFuel"
| "blue_anticone_loop (Suc n) m block sizes sp =
     (case sizes block of
        Some s \<Rightarrow> Inr s
      | None \<Rightarrow>
          if sp = gm_genesis m \<or> sp = ORIGIN then Inl Panic
          else rbind (gd_get_data m sp) (\<lambda>d.
            blue_anticone_loop n m block (gd_anticone_sizes d) (gd_selected_parent d)))"

definition blue_anticone_size :: "nat \<Rightarrow> gd_manager \<Rightarrow> hash \<Rightarrow> ghostdag_data \<Rightarrow> (unit, nat) res" where
  "blue_anticone_size fuel m block ctx =
     blue_anticone_loop fuel m block (gd_anticone_sizes ctx) (gd_selected_parent ctx)"

text \<open>The loop over the blue peers of a chain block.\<close>

fun check_peers :: "nat \<Rightarrow> gd_manager \<Rightarrow> ghostdag_data \<Rightarrow> hash \<Rightarrow> nat \<Rightarrow> hash list \<Rightarrow> (hash \<times> nat) list \<Rightarrow> nat \<Rightarrow>
    (unit, coloring_state \<times> (hash \<times> nat) list \<times> nat) res" where
  "check_peers fuel m new_data candidate k [] sizes asize = Inr (StatePending, sizes, asize)"
| "check_peers fuel m new_data candidate k (peer # peers) sizes asize =
     rbind (dag_ancestor m peer candidate) (\<lambda>b.
     if b then check_peers fuel m new_data candidate k peers sizes asize
     else rbind (blue_anticone_size fuel m peer new_data) (\<lambda>peer_size.
       rbind (add16 asize 1) (\<lambda>asize'.
       if k < asize' then Inr (StateRed, AList.update peer peer_size sizes, asize')
       else if peer_size = k then Inr (StateRed, AList.update peer peer_size sizes, asize')
       else rbind (rassert (peer_size \<le> k)) (\<lambda>_.
         check_peers fuel m new_data candidate k peers (AList.update peer peer_size sizes) asize'))))"

definition check_blue_candidate_with_chain_block ::
  "nat \<Rightarrow> gd_manager \<Rightarrow> ghostdag_data \<Rightarrow> hash option \<Rightarrow> ghostdag_data \<Rightarrow> hash \<Rightarrow> (hash \<times> nat) list \<Rightarrow> nat \<Rightarrow> nat \<Rightarrow>
    (unit, coloring_state \<times> (hash \<times> nat) list \<times> nat) res" where
  "check_blue_candidate_with_chain_block fuel m new_data chain_hash chain_data candidate sizes asize k =
     rbind (case chain_hash of None \<Rightarrow> Inr False | Some h \<Rightarrow> dag_ancestor m h candidate) (\<lambda>b.
     if b then Inr (StateBlue, sizes, asize)
     else check_peers fuel m new_data candidate k (gd_mergeset_blues chain_data) sizes asize)"

primrec candidate_loop :: "nat \<Rightarrow> nat \<Rightarrow> gd_manager \<Rightarrow> ghostdag_data \<Rightarrow> hash option \<Rightarrow> ghostdag_data \<Rightarrow> hash \<Rightarrow> nat \<Rightarrow>
    (hash \<times> nat) list \<Rightarrow> nat \<Rightarrow> (unit, coloring_output) res" where
  "candidate_loop 0 fuel m new_data chain_hash chain_data candidate k sizes asize = Inl OutOfFuel"
| "candidate_loop (Suc n) fuel m new_data chain_hash chain_data candidate k sizes asize =
     rbind (check_blue_candidate_with_chain_block fuel m new_data chain_hash chain_data candidate sizes asize k)
       (\<lambda>(state, sizes', asize').
     case state of
       StateBlue \<Rightarrow> Inr (OutBlue asize' sizes')
     | StateRed \<Rightarrow> Inr OutRed
     | StatePending \<Rightarrow> rbind (gd_get_data m (gd_selected_parent chain_data)) (\<lambda>d.
         candidate_loop n fuel m new_data (Some (gd_selected_parent chain_data)) d candidate k sizes' asize'))"

definition check_blue_candidate ::
  "nat \<Rightarrow> gd_manager \<Rightarrow> ghostdag_data \<Rightarrow> hash \<Rightarrow> nat \<Rightarrow> (unit, coloring_output) res" where
  "check_blue_candidate fuel m new_data candidate k =
     rbind (add16 k 1) (\<lambda>k1.
     if length (gd_mergeset_blues new_data) mod 2 ^ 16 = k1 then Inr OutRed
     else candidate_loop fuel fuel m new_data None new_data candidate k [] 0)"

definition color_candidate :: "nat \<Rightarrow> gd_manager \<Rightarrow> nat \<Rightarrow> ghostdag_data \<Rightarrow> hash \<Rightarrow> (unit, ghostdag_data) res" where
  "color_candidate fuel m k d candidate =
     rbind (check_blue_candidate fuel m d candidate k) (\<lambda>coloring.
     case coloring of
       OutBlue n sizes \<Rightarrow> add_blue d candidate n sizes
     | OutRed \<Rightarrow> Inr (add_red d candidate))"

definition blue_work_of :: "gd_manager \<Rightarrow> hash \<Rightarrow> (unit, blue_work) res" where
  "blue_work_of m h = rbind (unwrap (gm_bits m h)) (\<lambda>bits.
     rbind (calc_work bits) (\<lambda>w. Inr (max w (gm_level_work m))))"

definition ghostdag :: "nat \<Rightarrow> gd_manager \<Rightarrow> hash list \<Rightarrow> (unit, ghostdag_data) res" where
  "ghostdag fuel m parents =
     rbind (rassert (parents \<noteq> [])) (\<lambda>_.
     rbind (find_selected_parent m parents) (\<lambda>selected_parent.
     if selected_parent = ORIGIN then gd_new_with_selected_parent selected_parent 1
     else let k = gm_k m in
       rbind (gd_new_with_selected_parent selected_parent k) (\<lambda>d0.
       rbind (ordered_mergeset_without_selected_parent fuel m selected_parent parents) (\<lambda>ordered_mergeset.
       rbind (rfold (color_candidate fuel m k) d0 ordered_mergeset) (\<lambda>d.
       rbind (gd_get_data m selected_parent) (\<lambda>spd.
       rbind (add64 (gd_blue_score spd) (length (gd_mergeset_blues d))) (\<lambda>blue_score.
       rbind (rmap (blue_work_of m) (gd_mergeset_blues d)) (\<lambda>works.
       Inr (finalize_score_and_work d blue_score (gd_blue_work spd + sum_list works))))))))))"

text \<open>
  \<^verbatim>\<open>ascending_mergeset_without_selected_parent\<close>: \<^verbatim>\<open>merge_join_by\<close> of the blues after the
  selected parent with the reds; two equal keys panic.
\<close>

fun merge_join :: "sortable_block list \<Rightarrow> sortable_block list \<Rightarrow> (unit, sortable_block list) res" where
  "merge_join [] bs = Inr bs"
| "merge_join as [] = Inr as"
| "merge_join (a # as) (b # bs) =
     (if a < b then rbind (merge_join as (b # bs)) (\<lambda>rest. Inr (a # rest))
      else if b < a then rbind (merge_join (a # as) bs) (\<lambda>rest. Inr (b # rest))
      else Inl Panic)"

definition ascending_mergeset_without_selected_parent ::
  "gd_manager \<Rightarrow> ghostdag_data \<Rightarrow> (unit, sortable_block list) res" where
  "ascending_mergeset_without_selected_parent m d =
     rbind (rmap (sortable m) (drop 1 (gd_mergeset_blues d))) (\<lambda>blues.
     rbind (rmap (sortable m) (gd_mergeset_reds d)) (\<lambda>reds. merge_join blues reds))"

definition consensus_ordered_mergeset :: "gd_manager \<Rightarrow> ghostdag_data \<Rightarrow> (unit, hash list) res" where
  "consensus_ordered_mergeset m d =
     rbind (ascending_mergeset_without_selected_parent m d) (\<lambda>bs.
     Inr (gd_selected_parent d # map sb_hash bs))"

section \<open>The reachability interface\<close>

text \<open>The specification of the mergeset: the past of the parents that the selected parent misses.\<close>

definition dag_mergeset :: "(hash \<Rightarrow> hash set) \<Rightarrow> hash \<Rightarrow> hash set \<Rightarrow> hash set" where
  "dag_mergeset G sp ps = {x. (\<exists>p \<in> ps. dag_reach G x p) \<and> \<not> dag_reach G x sp}"

text \<open>
  What GHOSTDAG relies on: on stored blocks, the query of a valid service decides
  reachability in the block DAG, whose parents are stored.
\<close>

locale dag_reachability =
  fixes query :: "'s \<Rightarrow> ancestor_query"
    and invar :: "'s \<Rightarrow> bool"
    and stored :: "'s \<Rightarrow> hash set"
    and parents_of :: "'s \<Rightarrow> hash \<Rightarrow> hash set"
  assumes query_reach: "invar s \<Longrightarrow> a \<in> stored s \<Longrightarrow> b \<in> stored s \<Longrightarrow>
      query s a b = Inr (dag_reach (parents_of s) a b)"
    and parents_stored: "invar s \<Longrightarrow> b \<in> stored s \<Longrightarrow> parents_of s b \<subseteq> stored s"
    and stored_finite: "invar s \<Longrightarrow> finite (stored s)"
begin

definition search_inv :: "'s \<Rightarrow> hash \<Rightarrow> hash set \<Rightarrow> hash list \<Rightarrow> hash list \<Rightarrow> hash list \<Rightarrow> bool" where
  "search_inv s sp ps queue mergeset past \<longleftrightarrow>
     set mergeset \<subseteq> dag_mergeset (parents_of s) sp ps \<and> set queue \<subseteq> set mergeset \<and> ps - {sp} \<subseteq> set mergeset \<and>
     (\<forall>x \<in> set past. dag_reach (parents_of s) x sp) \<and> distinct mergeset"

lemma reach_trans: "dag_reach G a b \<Longrightarrow> dag_reach G b c \<Longrightarrow> dag_reach G a c"
  unfolding dag_reach_def by (rule rtrancl_trans)

lemma reach_parent: "p \<in> G c \<Longrightarrow> dag_reach G p c"
  unfolding dag_reach_def dag_rel_def by auto

lemma reach_stored:
  assumes "invar s" and "dag_reach (parents_of s) a b" and "b \<in> stored s"
  shows "a \<in> stored s"
  by (rule dag_reach_closed [OF _ assms(2,3)]) (use parents_stored [OF assms(1)] in blast)

lemma mergeset_of_stored:
  assumes "invar s" and "ps \<subseteq> stored s" and "x \<in> dag_mergeset (parents_of s) sp ps"
  shows "x \<in> stored s"
  using assms(2,3) reach_stored [OF assms(1)] unfolding dag_mergeset_def by blast

lemma visit_step:
  assumes s: "invar s" and sp: "sp \<in> stored s" and ps: "ps \<subseteq> stored s"
    and inv: "search_inv s sp ps Q M P" and x: "x \<in> dag_mergeset (parents_of s) sp ps" "y \<in> parents_of s x"
  shows "\<exists>Q' M' P'. mergeset_visit (query s) sp (Q, M, P) y = Inr (Q', M', P') \<and> search_inv s sp ps Q' M' P' \<and>
    set M \<subseteq> set M' \<and> (y \<in> set M' \<or> dag_reach (parents_of s) y sp) \<and> set M' - set Q' \<subseteq> set M - set Q \<and>
    length Q' + card (stored s - set M') = length Q + card (stored s - set M)"
proof -
  have xs: "x \<in> stored s" by (rule mergeset_of_stored [OF s ps x(1)])
  have ys: "y \<in> stored s" using parents_stored [OF s xs] x(2) by blast
  have yx: "dag_reach (parents_of s) y x" by (rule reach_parent [of y "parents_of s" x, OF x(2)])
  have q: "query s y sp = Inr (dag_reach (parents_of s) y sp)" by (rule query_reach [OF s ys sp])
  show ?thesis
  proof (cases "y \<in> set M \<or> y \<in> set P")
    case True
    with inv show ?thesis
      by (intro exI [of _ Q] exI [of _ M] exI [of _ P]) (auto simp: mergeset_visit_def search_inv_def)
  next
    case False
    show ?thesis
    proof (cases "dag_reach (parents_of s) y sp")
      case True
      with False inv q show ?thesis
        by (intro exI [of _ Q] exI [of _ M] exI [of _ "P @ [y]"]) (auto simp: mergeset_visit_def search_inv_def)
    next
      case notpast: False
      have "y \<in> dag_mergeset (parents_of s) sp ps"
        using x(1) notpast reach_trans [OF yx] unfolding dag_mergeset_def by blast
      then have "search_inv s sp ps (Q @ [y]) (M @ [y]) P"
        using inv False unfolding search_inv_def by auto
      moreover have "card (stored s - set M) = Suc (card (stored s - set (M @ [y])))"
      proof -
        have "stored s - set M = insert y (stored s - set (M @ [y]))" using ys False by auto
        then show ?thesis using stored_finite [OF s] by (simp add: card_insert_if)
      qed
      ultimately show ?thesis using False notpast q
        by (intro exI [of _ "Q @ [y]"] exI [of _ "M @ [y]"] exI [of _ P]) (auto simp: mergeset_visit_def)
    qed
  qed
qed

lemma visit_all:
  assumes s: "invar s" and sp: "sp \<in> stored s" and ps: "ps \<subseteq> stored s"
    and x: "x \<in> dag_mergeset (parents_of s) sp ps" and "set ys \<subseteq> parents_of s x" and "search_inv s sp ps Q M P"
  shows "\<exists>Q' M' P'. rfold (mergeset_visit (query s) sp) (Q, M, P) ys = Inr (Q', M', P') \<and>
    search_inv s sp ps Q' M' P' \<and> set M \<subseteq> set M' \<and>
    (\<forall>y \<in> set ys. y \<in> set M' \<or> dag_reach (parents_of s) y sp) \<and> set M' - set Q' \<subseteq> set M - set Q \<and>
    length Q' + card (stored s - set M') = length Q + card (stored s - set M)"
  using assms(5,6)
proof (induction ys arbitrary: Q M P)
  case Nil
  then show ?case by auto
next
  case (Cons y ys)
  from Cons.prems(1) have "y \<in> parents_of s x" by simp
  from visit_step [OF s sp ps Cons.prems(2) x this] obtain Q1 M1 P1 where
    1: "mergeset_visit (query s) sp (Q, M, P) y = Inr (Q1, M1, P1)" "search_inv s sp ps Q1 M1 P1"
    "set M \<subseteq> set M1" "y \<in> set M1 \<or> dag_reach (parents_of s) y sp" "set M1 - set Q1 \<subseteq> set M - set Q"
    "length Q1 + card (stored s - set M1) = length Q + card (stored s - set M)" by blast
  from Cons.IH [OF _ 1(2)] Cons.prems(1) obtain Q2 M2 P2 where
    2: "rfold (mergeset_visit (query s) sp) (Q1, M1, P1) ys = Inr (Q2, M2, P2)" "search_inv s sp ps Q2 M2 P2"
    "set M1 \<subseteq> set M2" "\<forall>y \<in> set ys. y \<in> set M2 \<or> dag_reach (parents_of s) y sp" "set M2 - set Q2 \<subseteq> set M1 - set Q1"
    "length Q2 + card (stored s - set M2) = length Q1 + card (stored s - set M1)" by auto
  show ?case
    by (intro exI [of _ Q2] exI [of _ M2] exI [of _ P2]) (use 1 2 in auto)
qed

text \<open>With every processed block expanded, the search ends with the whole mergeset.\<close>

lemma search_complete:
  assumes inv: "search_inv s sp ps [] M P"
    and closed: "\<forall>x \<in> set M. \<forall>y \<in> parents_of s x. y \<in> set M \<or> dag_reach (parents_of s) y sp"
  shows "set M = dag_mergeset (parents_of s) sp ps"
proof
  show "set M \<subseteq> dag_mergeset (parents_of s) sp ps" using inv by (simp add: search_inv_def)
  show "dag_mergeset (parents_of s) sp ps \<subseteq> set M"
  proof
    fix x assume x: "x \<in> dag_mergeset (parents_of s) sp ps"
    then obtain p where p: "p \<in> ps" "dag_reach (parents_of s) x p" "\<not> dag_reach (parents_of s) x sp"
      by (auto simp: dag_mergeset_def)
    then have "p \<noteq> sp" by auto
    then have "p \<in> set M" using inv p(1) by (auto simp: search_inv_def)
    from p(2) have "p \<in> set M \<longrightarrow> x \<in> set M"
      unfolding dag_reach_def
    proof (induction rule: rtrancl_induct)
      case (step y z)
      have "dag_reach (parents_of s) x y" using step(1) by (simp add: dag_reach_def)
      then have "\<not> dag_reach (parents_of s) y sp" using p(3) reach_trans by blast
      moreover have "y \<in> parents_of s z" using step(2) by (simp add: dag_rel_def)
      ultimately show ?case using closed step(3) by blast
    qed simp
    with \<open>p \<in> set M\<close> show "x \<in> set M" by simp
  qed
qed

lemma loop_ok:
  assumes s: "invar s" and sp: "sp \<in> stored s" and ps: "ps \<subseteq> stored s"
    and rel: "\<And>x. x \<in> stored s \<Longrightarrow> \<exists>l. relations x = Some l \<and> set l = parents_of s x"
    and "search_inv s sp ps Q M P"
    and "\<forall>x \<in> set M - set Q. \<forall>y \<in> parents_of s x. y \<in> set M \<or> dag_reach (parents_of s) y sp"
    and "length Q + card (stored s - set M) \<le> n"
  shows "\<exists>M'. mergeset_loop n relations (query s) sp Q M P = Inr M' \<and> set M' = dag_mergeset (parents_of s) sp ps \<and> distinct M'"
  using assms(5-7)
proof (induction n arbitrary: Q M P)
  case (0 Q M P)
  then have "Q = []" by simp
  with 0 search_complete [of s sp ps M P] show ?case by (auto simp: search_inv_def)
next
  case (Suc n Q M P)
  show ?case
  proof (cases Q)
    case Nil
    with Suc.prems search_complete [of s sp ps M P] show ?thesis by (auto simp: search_inv_def)
  next
    case (Cons x Q0)
    have xM: "x \<in> set M" using Suc.prems(1) Cons by (auto simp: search_inv_def)
    then have x: "x \<in> dag_mergeset (parents_of s) sp ps" using Suc.prems(1) by (auto simp: search_inv_def)
    obtain l where l: "relations x = Some l" "set l = parents_of s x"
      using rel [OF mergeset_of_stored [OF s ps x]] by blast
    have inv0: "search_inv s sp ps Q0 M P" using Suc.prems(1) Cons by (auto simp: search_inv_def)
    from visit_all [OF s sp ps x _ inv0, of l] l(2) obtain Q' M' P' where
      v: "rfold (mergeset_visit (query s) sp) (Q0, M, P) l = Inr (Q', M', P')" "search_inv s sp ps Q' M' P'"
      "set M \<subseteq> set M'" "\<forall>y \<in> set l. y \<in> set M' \<or> dag_reach (parents_of s) y sp" "set M' - set Q' \<subseteq> set M - set Q0"
      "length Q' + card (stored s - set M') = length Q0 + card (stored s - set M)" by auto
    have closed: "\<forall>z \<in> set M' - set Q'. \<forall>y \<in> parents_of s z. y \<in> set M' \<or> dag_reach (parents_of s) y sp"
    proof
      fix z assume z: "z \<in> set M' - set Q'"
      then have "z = x \<or> z \<in> set M - set Q" using v(5) Cons by auto
      then show "\<forall>y \<in> parents_of s z. y \<in> set M' \<or> dag_reach (parents_of s) y sp"
        using v(3,4) l(2) Suc.prems(2) by blast
    qed
    have "length Q' + card (stored s - set M') \<le> n" using v(6) Suc.prems(3) Cons by simp
    from Suc.IH [OF v(2) closed this] l(1) v(1) show ?thesis by (simp add: Cons)
  qed
qed

lemma mergeset_search:
  assumes s: "invar s" and sp: "sp \<in> stored s" and ps: "set ps \<subseteq> stored s"
    and rel: "\<And>x. x \<in> stored s \<Longrightarrow> \<exists>l. relations x = Some l \<and> set l = parents_of s x"
    and antichain: "\<And>p. p \<in> set ps \<Longrightarrow> p \<noteq> sp \<Longrightarrow> \<not> dag_reach (parents_of s) p sp"
    and fuel: "length ps + card (stored s) \<le> fuel"
  shows "\<exists>M. unordered_mergeset_without_selected_parent fuel relations (query s) sp ps = Inr M \<and>
    set M = dag_mergeset (parents_of s) sp (set ps) \<and> distinct M"
proof -
  let ?Q = "filter (\<lambda>p. p \<noteq> sp) ps"
  have "set ?Q \<subseteq> dag_mergeset (parents_of s) sp (set ps)"
    using antichain unfolding dag_mergeset_def by (auto simp: dag_reach_def)
  then have inv: "search_inv s sp (set ps) ?Q (remdups ?Q) []" by (auto simp: search_inv_def)
  have "length ?Q + card (stored s - set (remdups ?Q)) \<le> length ps + card (stored s)"
    by (intro add_mono card_mono length_filter_le) (use stored_finite [OF s] in auto)
  with fuel have "length ?Q + card (stored s - set (remdups ?Q)) \<le> fuel" by simp
  from loop_ok [OF s sp ps rel inv _ this] show ?thesis
    unfolding unordered_mergeset_without_selected_parent_def Let_def by simp
qed

end

end
