(* ===== verification/ReindexInv.thy ===== *)
theory ReindexInv
  imports ReachDag
begin

text \<open>
  Correctness of the breadth-first algorithms of
  \<^verbatim>\<open>consensus/src/processes/reachability/reindex.rs\<close>: \<^verbatim>\<open>count_subtrees\<close> computes the
  size of every subtree, \<^verbatim>\<open>propagate_interval\<close> re-establishes the interval
  invariant below a block with enough room, and \<^verbatim>\<open>add_tree_block\<close> keeps the
  invariant when it reindexes below the reindex root.
\<close>

section \<open>Subtree sizes\<close>

definition subtree :: "reach_store \<Rightarrow> hash \<Rightarrow> hash set" where
  "subtree st b = {x. anc st b x}"

definition tsize :: "reach_store \<Rightarrow> hash \<Rightarrow> nat" where
  "tsize st b = card (subtree st b)"

lemma subtree_self [simp]: "b \<in> subtree st b"
  by (simp add: subtree_def)

lemma subtree_blocks: "shape_inv r st \<Longrightarrow> b \<in> blocks st \<Longrightarrow> subtree st b \<subseteq> blocks st"
  using anc_blocks [of r st b] by (auto simp: subtree_def simp del: domIff)

lemma finite_subtree: "shape_inv r st \<Longrightarrow> b \<in> blocks st \<Longrightarrow> finite (subtree st b)"
  by (rule finite_subset [OF subtree_blocks shape_invD(1)])

lemma tsize_le: "shape_inv r st \<Longrightarrow> b \<in> blocks st \<Longrightarrow> tsize st b \<le> card (blocks st)"
  unfolding tsize_def by (rule card_mono [OF shape_invD(1) subtree_blocks])

lemma tsize_pos: "shape_inv r st \<Longrightarrow> b \<in> blocks st \<Longrightarrow> 0 < tsize st b"
  using finite_subtree [of r st b] subtree_self [of b st] unfolding tsize_def card_gt_0_iff by blast

lemma child_not_anc:
  assumes "shape_inv r st" "p \<in> blocks st" "c \<in> set (kids st p)"
  shows "\<not> anc st c p"
  using anc_hgt [OF assms(1), of c p] shape_invD(8) [OF assms] by auto

lemma subtree_children_disjoint:
  assumes "shape_inv r st" "b \<in> blocks st" "c \<in> set (kids st b)" "d \<in> set (kids st b)" "c \<noteq> d"
  shows "subtree st c \<inter> subtree st d = {}"
proof (rule ccontr)
  assume "subtree st c \<inter> subtree st d \<noteq> {}"
  then obtain x where "anc st c x" "anc st d x" by (auto simp: subtree_def)
  from anc_linear [OF assms(1) this] show False
    using anc_of_child [OF assms(1,2,4), of c] anc_of_child [OF assms(1,2,3), of d] assms(5)
      child_not_anc [OF assms(1,2,3)] child_not_anc [OF assms(1,2,4)] by auto
qed

lemma subtree_unfold:
  assumes "b \<in> blocks st"
  shows "subtree st b = insert b (\<Union>c \<in> set (kids st b). subtree st c)"
proof (rule set_eqI)
  fix x
  show "x \<in> subtree st b \<longleftrightarrow> x \<in> insert b (\<Union>c \<in> set (kids st b). subtree st c)"
    using anc_first [of st b x] anc_trans [OF anc_child [OF assms]] by (auto simp: subtree_def)
qed

text \<open>The recursion that the documentation of \<^verbatim>\<open>count_subtrees\<close> gives.\<close>

lemma tsize_rec:
  assumes inv: "shape_inv r st" and b: "b \<in> blocks st"
  shows "tsize st b = sum_list (map (tsize st) (kids st b)) + 1"
proof -
  have fin: "finite (subtree st c)" if "c \<in> set (kids st b)" for c
    by (rule finite_subtree [OF inv shape_invD(6) [OF inv b that]])
  have "card (\<Union>c \<in> set (kids st b). subtree st c) = (\<Sum>c \<in> set (kids st b). card (subtree st c))"
    by (rule card_UN_disjoint) (use fin subtree_children_disjoint [OF inv b] in auto)
  also have "\<dots> = sum_list (map (tsize st) (kids st b))"
    using shape_invD(5) [OF inv b] by (simp add: sum_list_distinct_conv_sum_set tsize_def)
  finally have c: "card (\<Union>c \<in> set (kids st b). subtree st c) = sum_list (map (tsize st) (kids st b))" .
  have "b \<notin> (\<Union>c \<in> set (kids st b). subtree st c)"
    using child_not_anc [OF inv b] by (auto simp: subtree_def)
  with c show ?thesis
    unfolding tsize_def [of st b] subtree_unfold [OF b] using fin by (subst card_insert_disjoint) auto
qed

text \<open>A cache of subtree sizes is correct and closed under children.\<close>

definition cache_ok :: "reach_store \<Rightarrow> (hash \<rightharpoonup> nat) \<Rightarrow> bool" where
  "cache_ok st S \<longleftrightarrow> (\<forall>x n. S x = Some n \<longrightarrow> x \<in> blocks st \<and> n = tsize st x \<and> (\<forall>c \<in> set (kids st x). S c \<noteq> None))"

lemma cache_okD:
  assumes "cache_ok st S" and "S x \<noteq> None"
  shows "S x = Some (tsize st x)" "x \<in> blocks st" "c \<in> set (kids st x) \<Longrightarrow> S c \<noteq> None"
proof -
  obtain n where n: "S x = Some n" using assms(2) by auto
  have *: "x \<in> blocks st \<and> n = tsize st x \<and> (\<forall>c \<in> set (kids st x). S c \<noteq> None)"
    using assms(1) n unfolding cache_ok_def by blast
  show "S x = Some (tsize st x)" using * n by simp
  show "x \<in> blocks st" using * by simp
  show "c \<in> set (kids st x) \<Longrightarrow> S c \<noteq> None" using * by simp
qed

lemma cache_ok_anc:
  assumes "cache_ok st S" and "S x \<noteq> None" and "anc st x d"
  shows "S d = Some (tsize st d)"
proof -
  have "S d \<noteq> None"
    using assms(3)
  proof (induction rule: anc_induct)
    case refl
    show ?case by (rule assms(2))
  next
    case (step p c)
    show ?case by (rule cache_okD(3) [OF assms(1) step(4,3)])
  qed
  then show ?thesis by (rule cache_okD(1) [OF assms(1)])
qed

lemma cache_ok_upd:
  assumes "cache_ok st S" and "x \<in> blocks st" and "\<forall>c \<in> set (kids st x). S c \<noteq> None"
  shows "cache_ok st (S(x \<mapsto> tsize st x))"
  unfolding cache_ok_def
proof (intro allI impI)
  fix y n assume y: "(S(x \<mapsto> tsize st x)) y = Some n"
  show "y \<in> blocks st \<and> n = tsize st y \<and> (\<forall>c \<in> set (kids st y). (S(x \<mapsto> tsize st x)) c \<noteq> None)"
  proof (cases "y = x")
    case True
    with y assms(2,3) show ?thesis by simp
  next
    case False
    then have "S y \<noteq> None" using y by simp
    note C = cache_okD [OF assms(1) this]
    show ?thesis using False y C by auto
  qed
qed

lemma cache_ok_empty [simp]: "cache_ok st Map.empty"
  by (simp add: cache_ok_def)

section \<open>The invariant of the breadth-first count\<close>

definition cnt :: "(hash \<rightharpoonup> nat) \<Rightarrow> hash \<Rightarrow> nat" where
  "cnt K x = (case K x of None \<Rightarrow> 0 | Some k \<Rightarrow> k)"

lemma cnt_upd [simp]: "cnt (K(x \<mapsto> k)) y = (if y = x then k else cnt K y)"
  by (simp add: cnt_def)

text \<open>
  \<open>E\<close> are the expanded blocks and \<open>F\<close> the finished ones, whose size is known and
  has been counted at the parent; \<open>skip\<close> holds the expanded block whose count
  lags behind by one while a size is pushed up.
\<close>

definition bfs_inv ::
  "reach_store \<Rightarrow> hash \<Rightarrow> hash set \<Rightarrow> hash list \<Rightarrow> (hash \<rightharpoonup> nat) \<Rightarrow> (hash \<rightharpoonup> nat) \<Rightarrow> hash set \<Rightarrow> hash set \<Rightarrow> bool" where
  "bfs_inv st B skip Q S K E F \<longleftrightarrow>
     cache_ok st S \<and> (\<forall>x \<in> F. S x \<noteq> None) \<and> (\<forall>x \<in> E. S x \<noteq> None \<longrightarrow> x \<in> F) \<and>
     set Q \<union> E \<union> F \<subseteq> subtree st B \<and> distinct Q \<and> set Q \<inter> (E \<union> F) = {} \<and> B \<in> set Q \<union> E \<union> F \<and>
     (\<forall>e \<in> E. kids st e \<noteq> [] \<and> set (kids st e) \<subseteq> set Q \<union> E \<union> F) \<and>
     (\<forall>e \<in> E - skip. cnt K e = card (set (kids st e) \<inter> F) \<and> (e \<in> F \<longleftrightarrow> set (kids st e) \<subseteq> F)) \<and>
     (\<forall>e \<in> E \<inter> skip. cnt K e + 1 = card (set (kids st e) \<inter> F) \<and> e \<notin> F) \<and>
     (\<forall>x \<in> set Q \<union> E \<union> F. x = B \<or> par st x \<in> E) \<and> (\<forall>x. x \<notin> E \<longrightarrow> cnt K x = 0)"

lemma bfs_invD:
  assumes "bfs_inv st B skip Q S K E F"
  shows "cache_ok st S" "x \<in> F \<Longrightarrow> S x \<noteq> None" "x \<in> E \<Longrightarrow> S x \<noteq> None \<Longrightarrow> x \<in> F"
    "set Q \<union> E \<union> F \<subseteq> subtree st B" "distinct Q" "set Q \<inter> (E \<union> F) = {}" "B \<in> set Q \<union> E \<union> F"
    "e \<in> E \<Longrightarrow> kids st e \<noteq> []" "e \<in> E \<Longrightarrow> set (kids st e) \<subseteq> set Q \<union> E \<union> F"
    "e \<in> E \<Longrightarrow> e \<notin> skip \<Longrightarrow> cnt K e = card (set (kids st e) \<inter> F)"
    "e \<in> E \<Longrightarrow> e \<notin> skip \<Longrightarrow> e \<in> F \<longleftrightarrow> set (kids st e) \<subseteq> F"
    "e \<in> E \<Longrightarrow> e \<in> skip \<Longrightarrow> cnt K e + 1 = card (set (kids st e) \<inter> F)"
    "e \<in> E \<Longrightarrow> e \<in> skip \<Longrightarrow> e \<notin> F"
    "x \<in> set Q \<union> E \<union> F \<Longrightarrow> x = B \<or> par st x \<in> E" "x \<notin> E \<Longrightarrow> cnt K x = 0"
proof -
  note * = assms [unfolded bfs_inv_def]
  show "cache_ok st S" "x \<in> F \<Longrightarrow> S x \<noteq> None" "x \<in> E \<Longrightarrow> S x \<noteq> None \<Longrightarrow> x \<in> F"
    "set Q \<union> E \<union> F \<subseteq> subtree st B" "distinct Q" "set Q \<inter> (E \<union> F) = {}" "B \<in> set Q \<union> E \<union> F"
    using * by simp_all
  show "e \<in> E \<Longrightarrow> kids st e \<noteq> []" "e \<in> E \<Longrightarrow> set (kids st e) \<subseteq> set Q \<union> E \<union> F"
    using * by simp_all
  show "e \<in> E \<Longrightarrow> e \<notin> skip \<Longrightarrow> cnt K e = card (set (kids st e) \<inter> F)"
    "e \<in> E \<Longrightarrow> e \<notin> skip \<Longrightarrow> e \<in> F \<longleftrightarrow> set (kids st e) \<subseteq> F"
    using * by simp_all
  show "e \<in> E \<Longrightarrow> e \<in> skip \<Longrightarrow> cnt K e + 1 = card (set (kids st e) \<inter> F)"
    "e \<in> E \<Longrightarrow> e \<in> skip \<Longrightarrow> e \<notin> F"
    using * by simp_all
  show "x \<in> set Q \<union> E \<union> F \<Longrightarrow> x = B \<or> par st x \<in> E" "x \<notin> E \<Longrightarrow> cnt K x = 0"
    using * by simp_all
qed

lemma bfs_inv_count:
  assumes "bfs_inv st B {e} Q S K E F" and e: "e \<in> E" and "\<not> set (kids st e) \<subseteq> F"
  shows "bfs_inv st B {} Q S (K(e \<mapsto> cnt K e + 1)) E F"
proof -
  note D = bfs_invD [OF assms(1)]
  have "cnt (K(e \<mapsto> cnt K e + 1)) x = card (set (kids st x) \<inter> F) \<and> (x \<in> F \<longleftrightarrow> set (kids st x) \<subseteq> F)"
    if "x \<in> E" for x
    using D(10,11) [OF that] D(12,13) [OF that] assms(3) by (cases "x = e") simp_all
  moreover have "cnt (K(e \<mapsto> cnt K e + 1)) x = 0" if "x \<notin> E" for x
    using D(15) [OF that] that e by auto
  ultimately show ?thesis
    unfolding bfs_inv_def
    using assms(1) [unfolded bfs_inv_def] by (elim conjE) (intro conjI, simp_all)
qed

lemma bfs_inv_finish:
  assumes inv: "shape_inv r st" and B: "B \<in> blocks st" and "bfs_inv st B {e} Q S K E F" and e: "e \<in> E"
    and full: "set (kids st e) \<subseteq> F"
  shows "bfs_inv st B (if e = B then {} else {par st e}) Q (S(e \<mapsto> tsize st e)) (K(e \<mapsto> cnt K e + 1)) E (insert e F)"
proof -
  note D = bfs_invD [OF assms(3)]
  let ?skip = "if e = B then {} else {par st e}"
  have blk: "x \<in> blocks st" if "x \<in> E" for x using D(4) that subtree_blocks [OF inv B] by blast
  have par_e: "x = par st e" "e \<noteq> B" if "x \<in> E" "e \<in> set (kids st x)" for x
  proof -
    show "x = par st e" using shape_invD(7) [OF inv blk [OF that(1)] that(2)] by simp
    show "e \<noteq> B"
      using that D(4) child_not_anc [OF inv blk [OF that(1)], of B] by (auto simp: subtree_def)
  qed
  have eF: "e \<notin> F" using D(13) [OF e] by simp
  have main: "cnt (K(e \<mapsto> cnt K e + 1)) x = card (set (kids st x) \<inter> insert e F) \<and>
      (x \<in> insert e F \<longleftrightarrow> set (kids st x) \<subseteq> insert e F)" if x: "x \<in> E" "x \<notin> ?skip" for x
  proof -
    have ne: "e \<notin> set (kids st x)" using par_e [OF x(1)] x(2) by auto
    then have "set (kids st x) \<inter> insert e F = set (kids st x) \<inter> F" "set (kids st x) \<subseteq> insert e F \<longleftrightarrow> set (kids st x) \<subseteq> F"
      by auto
    then show ?thesis using D(10,11) [OF x(1)] D(12) [OF e] full by (cases "x = e") simp_all
  qed
  have lag: "cnt (K(e \<mapsto> cnt K e + 1)) x + 1 = card (set (kids st x) \<inter> insert e F) \<and> x \<notin> insert e F"
    if x: "x \<in> E" "x \<in> ?skip" for x
  proof -
    have eB: "e \<noteq> B" and xp: "x = par st e" using x(2) by (auto split: if_splits)
    have "e \<in> subtree st B" using D(4) e by blast
    then have "anc st B e" by (simp add: subtree_def)
    with anc_last [OF this] eB obtain q where q: "q \<in> blocks st" "e \<in> set (kids st q)" by blast
    have kid: "e \<in> set (kids st x)" using shape_invD(7) [OF inv q] q(2) xp by simp
    have "x \<noteq> e" using child_not_anc [OF inv q] shape_invD(7) [OF inv q] xp by auto
    then have "x \<notin> {e}" by simp
    note Dx = D(10,11) [OF x(1) this]
    have "x \<notin> F" using Dx(2) kid eF by auto
    moreover have "set (kids st x) \<inter> insert e F = insert e (set (kids st x) \<inter> F)" using kid by auto
    ultimately show ?thesis using Dx(1) eF \<open>x \<noteq> e\<close> by simp
  qed
  have cache: "cache_ok st (S(e \<mapsto> tsize st e))"
    by (rule cache_ok_upd [OF D(1) blk [OF e]]) (use D(2) full in blast)
  show ?thesis
    unfolding bfs_inv_def
  proof (intro conjI)
    show "cache_ok st (S(e \<mapsto> tsize st e))" by (rule cache)
    show "\<forall>x \<in> insert e F. (S(e \<mapsto> tsize st e)) x \<noteq> None" using D(2) by simp
    show "\<forall>x \<in> E. (S(e \<mapsto> tsize st e)) x \<noteq> None \<longrightarrow> x \<in> insert e F" using D(3) by simp
    show "\<forall>x \<in> E - ?skip. cnt (K(e \<mapsto> cnt K e + 1)) x = card (set (kids st x) \<inter> insert e F) \<and>
      (x \<in> insert e F \<longleftrightarrow> set (kids st x) \<subseteq> insert e F)" using main by blast
    show "\<forall>x \<in> E \<inter> ?skip. cnt (K(e \<mapsto> cnt K e + 1)) x + 1 = card (set (kids st x) \<inter> insert e F) \<and> x \<notin> insert e F"
      using lag by blast
    show "\<forall>x. x \<notin> E \<longrightarrow> cnt (K(e \<mapsto> cnt K e + 1)) x = 0" using D(15) e by auto
  qed (use D(4-9,14) e in \<open>auto simp del: domIff\<close>)
qed

lemma count_up_ok:
  assumes inv: "shape_inv r st" and B: "B \<in> blocks st" and small: "card (blocks st) < 2 ^ 64"
    and "bfs_inv st B (if x = B then {} else {par st x}) Q S K E F" and "x \<in> F" and "card (E - F) \<le> n"
  shows "\<exists>S' K' F'. count_up n st B x S K = Inr (S', K') \<and> bfs_inv st B {} Q S' K' E F' \<and> F \<subseteq> F' \<and> F' \<subseteq> F \<union> E"
  using assms(4-6)
proof (induction n arbitrary: x S K F)
  case (0 x S K F)
  note D = bfs_invD [OF 0(1)]
  have finE: "finite E" by (rule finite_subset [OF _ finite_subtree [OF inv B]]) (use D(4) in blast)
  show ?case
  proof (cases "x = B")
    case True
    with 0 show ?thesis by auto
  next
    case False
    then have "par st x \<in> E" "par st x \<notin> F" using D(14) [of x] D(13) 0(2) by auto
    with 0(3) finE show ?thesis by auto
  qed
next
  case (Suc n x S K F)
  note D = bfs_invD [OF Suc.prems(1)]
  have sub: "y \<in> blocks st" if "y \<in> E \<union> F" for y
    using that D(4) subtree_blocks [OF inv B] by blast
  have finE: "finite E" by (rule finite_subset [OF _ finite_subtree [OF inv B]]) (use D(4) in blast)
  show ?case
  proof (cases "x = B")
    case True
    with Suc.prems show ?thesis by auto
  next
    case False
    define e where "e = par st x"
    have e: "e \<in> E" "e \<notin> F" using False D(14) [of x] D(13) Suc.prems(2) by (auto simp: e_def)
    have eb: "e \<in> blocks st" "x \<in> blocks st" using sub e Suc.prems(2) by auto
    have inv_e: "bfs_inv st B {e} Q S K E F" using Suc.prems(1) False by (simp add: e_def)
    note De = bfs_invD [OF inv_e]
    have dist: "card (set (kids st e)) = length (kids st e)"
      by (rule distinct_card [OF shape_invD(5) [OF inv eb(1)]])
    have cnt_e: "cnt K e + 1 = card (set (kids st e) \<inter> F)" using De(12) [OF e(1)] by simp
    have le: "card (set (kids st e) \<inter> F) \<le> length (kids st e)"
      using card_mono [of "set (kids st e)" "set (kids st e) \<inter> F"] dist by simp
    have "length (kids st e) \<le> card (blocks st)"
      using card_mono [OF shape_invD(1) [OF inv], of "set (kids st e)"] shape_invD(6) [OF inv eb(1)] dist
      by (metis subsetI)
    then have add: "add64 (cnt K e) 1 = (Inr (cnt K e + 1) :: (reach_error, nat) res)"
      using cnt_e le small by (intro add64_Inr) simp
    have step: "count_up (Suc n) st B x S K =
        (if cnt K e + 1 < length (kids st e) then Inr (S, K(e \<mapsto> cnt K e + 1))
         else rbind (rmap (\<lambda>c. unwrap (S c)) (kids st e)) (\<lambda>ss. rbind (sum64 ss) (\<lambda>subtree_sum.
           rbind (add64 subtree_sum 1) (\<lambda>total.
           count_up n st B e (S(e \<mapsto> total)) (K(e \<mapsto> cnt K e + 1))))))"
      using False eb add by (simp add: e_def [symmetric] cnt_def [symmetric] del: One_nat_def)
    show ?thesis
    proof (cases "cnt K e + 1 < length (kids st e)")
      case True
      then have "\<not> set (kids st e) \<subseteq> F" using cnt_e dist by (auto simp: Int_absorb2)
      from bfs_inv_count [OF inv_e e(1) this] True show ?thesis
        unfolding step by auto
    next
      case notless: False
      have "card (set (kids st e) \<inter> F) = card (set (kids st e))" using notless cnt_e le dist by simp
      then have "set (kids st e) \<inter> F = set (kids st e)" by (intro card_subset_eq) simp_all
      then have full: "set (kids st e) \<subseteq> F" by blast
      have rm: "rmap (\<lambda>c. unwrap (S c)) (kids st e) = Inr (map (tsize st) (kids st e))"
        by (rule rmap_total) (use full De(2) cache_okD(1) [OF De(1)] in auto)
      have tot: "sum_list (map (tsize st) (kids st e)) + 1 = tsize st e" "tsize st e < 2 ^ 64"
        using tsize_rec [OF inv eb(1)] tsize_le [OF inv eb(1)] small by simp_all
      have go: "count_up (Suc n) st B x S K = count_up n st B e (S(e \<mapsto> tsize st e)) (K(e \<mapsto> cnt K e + 1))"
        unfolding step using notless tot by (simp add: rm)
      have "E - insert e F \<subset> E - F" using e by blast
      then have "card (E - insert e F) < card (E - F)" using finE by (intro psubset_card_mono) simp_all
      then have m: "card (E - insert e F) \<le> n" using Suc.prems(3) by simp
      obtain S' K' F' where "count_up n st B e (S(e \<mapsto> tsize st e)) (K(e \<mapsto> cnt K e + 1)) = Inr (S', K')"
        "bfs_inv st B {} Q S' K' E F'" "insert e F \<subseteq> F'" "F' \<subseteq> insert e F \<union> E"
        using Suc.IH [OF bfs_inv_finish [OF inv B inv_e e(1) full] insertI1 m] by blast
      with go e(1) show ?thesis by auto
    qed
  qed
qed

section \<open>Correctness of the breadth-first count\<close>

lemma bfs_inv_expand:
  assumes inv: "shape_inv r st" and B: "B \<in> blocks st" and I: "bfs_inv st B {} (x # Q) S K E F"
    and kids: "kids st x \<noteq> []" and new: "S x = None"
  shows "bfs_inv st B {} (Q @ kids st x) S K (insert x E) F"
proof -
  note D = bfs_invD [OF I]
  have xs: "x \<in> subtree st B" using D(4) by auto
  have xb: "x \<in> blocks st" using xs subtree_blocks [OF inv B] by blast
  have xEF: "x \<notin> E" "x \<notin> F" "x \<notin> set Q" using D(5,6) by auto
  have kid: "c \<in> subtree st B" "par st c = x" "c \<noteq> B" if "c \<in> set (kids st x)" for c
  proof -
    show "c \<in> subtree st B" using xs anc_step [OF _ xb that] by (simp add: subtree_def)
    show "par st c = x" by (rule shape_invD(7) [OF inv xb that])
    show "c \<noteq> B" using child_not_anc [OF inv xb that] xs by (auto simp: subtree_def)
  qed
  have fresh: "c \<notin> set Q \<union> E \<union> F" "c \<noteq> x" if "c \<in> set (kids st x)" for c
  proof -
    show "c \<notin> set Q \<union> E \<union> F" using kid(2,3) [OF that] D(14) [of c] xEF(1) by auto
    show "c \<noteq> x" using child_not_anc [OF inv xb that] by auto
  qed
  have kF: "set (kids st x) \<inter> F = {}" using fresh by auto
  show ?thesis
    unfolding bfs_inv_def
  proof (intro conjI)
    show "distinct (Q @ kids st x)" using D(5) shape_invD(5) [OF inv xb] fresh by auto
    show "\<forall>e \<in> insert x E - {}. cnt K e = card (set (kids st e) \<inter> F) \<and> (e \<in> F \<longleftrightarrow> set (kids st e) \<subseteq> F)"
    proof
      fix e assume "e \<in> insert x E - {}"
      then consider "e = x" | "e \<in> E" by auto
      then show "cnt K e = card (set (kids st e) \<inter> F) \<and> (e \<in> F \<longleftrightarrow> set (kids st e) \<subseteq> F)"
      proof cases
        case 1
        have "\<not> set (kids st x) \<subseteq> F" using kF kids by (cases "kids st x") auto
        then show ?thesis using 1 kF D(15) [OF xEF(1)] xEF(2) by simp
      next
        case 2
        then show ?thesis using D(10,11) [of e] by simp
      qed
    qed
    show "set (Q @ kids st x) \<inter> (insert x E \<union> F) = {}" using D(6) fresh xEF by auto
    show "\<forall>y \<in> set (Q @ kids st x) \<union> insert x E \<union> F. y = B \<or> par st y \<in> insert x E"
      using D(14) kid(2) by auto
    show "\<forall>e \<in> insert x E. kids st e \<noteq> [] \<and> set (kids st e) \<subseteq> set (Q @ kids st x) \<union> insert x E \<union> F"
      using D(8,9) kids by auto
    show "set (Q @ kids st x) \<union> insert x E \<union> F \<subseteq> subtree st B" using D(4) kid(1) by auto
  qed (use D(1-3,7,15) new in auto)
qed

lemma bfs_inv_leaf:
  assumes inv: "shape_inv r st" and B: "B \<in> blocks st" and I: "bfs_inv st B {} (x # Q) S K E F"
    and S': "cache_ok st S'" "S' x \<noteq> None" "\<And>y. y \<noteq> x \<Longrightarrow> S' y = S y"
  shows "bfs_inv st B (if x = B then {} else {par st x}) Q S' K E (insert x F)"
proof -
  note D = bfs_invD [OF I]
  let ?skip = "if x = B then {} else {par st x}"
  have xEF: "x \<notin> E" "x \<notin> F" "x \<notin> set Q" using D(5,6) by auto
  have blk: "y \<in> blocks st" if "y \<in> set (x # Q) \<union> E \<union> F" for y
    using that D(4) subtree_blocks [OF inv B] by blast
  have par_x: "e = par st x" "x \<noteq> B" if "e \<in> E" "x \<in> set (kids st e)" for e
  proof -
    have eb: "e \<in> blocks st" using blk that(1) by simp
    show "e = par st x" using shape_invD(7) [OF inv eb that(2)] by simp
    show "x \<noteq> B" using that D(4) child_not_anc [OF inv eb, of B] by (auto simp: subtree_def)
  qed
  show ?thesis
    unfolding bfs_inv_def
  proof (intro conjI)
    show "\<forall>e \<in> E - ?skip. cnt K e = card (set (kids st e) \<inter> insert x F) \<and> (e \<in> insert x F \<longleftrightarrow> set (kids st e) \<subseteq> insert x F)"
    proof
      fix e assume e: "e \<in> E - ?skip"
      then have "x \<notin> set (kids st e)" using par_x [of e] by auto
      then have "set (kids st e) \<inter> insert x F = set (kids st e) \<inter> F"
        "set (kids st e) \<subseteq> insert x F \<longleftrightarrow> set (kids st e) \<subseteq> F" by auto
      moreover have "e \<noteq> x" using e xEF by auto
      ultimately show "cnt K e = card (set (kids st e) \<inter> insert x F) \<and> (e \<in> insert x F \<longleftrightarrow> set (kids st e) \<subseteq> insert x F)"
        using D(10,11) [of e] e by simp
    qed
    show "\<forall>e \<in> E \<inter> ?skip. cnt K e + 1 = card (set (kids st e) \<inter> insert x F) \<and> e \<notin> insert x F"
    proof
      fix e assume e: "e \<in> E \<inter> ?skip"
      then have xB: "x \<noteq> B" and ep: "e = par st x" by (auto split: if_splits)
      have "anc st B x" using D(4) by (auto simp: subtree_def)
      from anc_last [OF this] xB obtain q where q: "q \<in> blocks st" "x \<in> set (kids st q)" by blast
      have kid: "x \<in> set (kids st e)" using shape_invD(7) [OF inv q] q(2) ep by simp
      have "e \<notin> F" using D(11) [of e] e kid xEF(2) by auto
      moreover have "set (kids st e) \<inter> insert x F = insert x (set (kids st e) \<inter> F)" using kid by auto
      moreover have "e \<noteq> x" using e xEF by auto
      ultimately show "cnt K e + 1 = card (set (kids st e) \<inter> insert x F) \<and> e \<notin> insert x F"
        using D(10) [of e] e xEF(2) by simp
    qed
    show "\<forall>y \<in> insert x F. S' y \<noteq> None" using D(2) S'(2,3) xEF(2) by (metis insert_iff)
    show "\<forall>y \<in> E. S' y \<noteq> None \<longrightarrow> y \<in> insert x F" using D(3) S'(3) xEF(1) by (metis insert_iff)
  qed (use D(4-9,14,15) xEF S'(1) in auto)
qed

lemma bfs_inv_done:
  assumes inv: "shape_inv r st" and B: "B \<in> blocks st" and I: "bfs_inv st B {} [] S K E F"
  shows "S B \<noteq> None"
proof -
  note D = bfs_invD [OF I]
  have finE: "finite E" by (rule finite_subset [OF _ finite_subtree [OF inv B]]) (use D(4) in blast)
  have blk: "y \<in> blocks st" if "y \<in> E" for y using that D(4) subtree_blocks [OF inv B] by blast
  have "E - F = {}"
  proof (rule ccontr)
    assume ne: "E - F \<noteq> {}"
    define m where "m = Max (hgt st ` (E - F))"
    have "m \<in> hgt st ` (E - F)" unfolding m_def by (rule Max_in) (use finE ne in auto)
    then obtain e where e: "e \<in> E" "e \<notin> F" "hgt st e = m" by auto
    then obtain c where c: "c \<in> set (kids st e)" "c \<notin> F" using D(11) [of e] by auto
    then have "c \<in> E" using D(9) [OF e(1)] by auto
    then have "hgt st c \<le> m" unfolding m_def by (intro Max_ge) (use finE c in auto)
    with shape_invD(8) [OF inv blk [OF e(1)] c(1)] e(3) show False by simp
  qed
  then show ?thesis using D(2,7) by auto
qed

lemma count_bfs_ok:
  assumes inv: "shape_inv r st" and B: "B \<in> blocks st" and small: "card (blocks st) < 2 ^ 64"
    and fuel: "card (blocks st) \<le> fuel"
    and "bfs_inv st B {} Q S K E F" and "card (subtree st B - (E \<union> F)) \<le> n"
  shows "\<exists>S'. count_bfs n fuel st B Q S K = Inr S' \<and> cache_ok st S' \<and> S' B \<noteq> None"
  using assms(5,6)
proof (induction n arbitrary: Q S K E F)
  case (0 Q S K E F)
  note D = bfs_invD [OF 0(1)]
  have "subtree st B \<subseteq> E \<union> F" using 0(2) finite_subtree [OF inv B] by auto
  then have "Q = []" using D(4,6) by (cases Q) auto
  with 0 bfs_inv_done [OF inv B] D(1) show ?case by auto
next
  case (Suc n Q S K E F)
  note D = bfs_invD [OF Suc.prems(1)]
  show ?case
  proof (cases Q)
    case Nil
    with Suc.prems(1) bfs_inv_done [OF inv B] D(1) show ?thesis by auto
  next
    case (Cons x Q')
    note I = Suc.prems(1) [unfolded Cons]
    have xs: "x \<in> subtree st B" "x \<notin> E \<union> F" using bfs_invD(4,6) [OF I] by auto
    have xb: "x \<in> blocks st" using xs(1) subtree_blocks [OF inv B] by blast
    have less: "card (subtree st B - (E' \<union> F')) \<le> n" if "insert x (E \<union> F) \<subseteq> E' \<union> F'" for E' F'
    proof -
      have "subtree st B - (E' \<union> F') \<subset> subtree st B - (E \<union> F)" using that xs by auto
      then have "card (subtree st B - (E' \<union> F')) < card (subtree st B - (E \<union> F))"
        using finite_subtree [OF inv B] by (intro psubset_card_mono) auto
      then show ?thesis using Suc.prems(2) by simp
    qed
    show ?thesis
    proof (cases "kids st x \<noteq> [] \<and> S x = None")
      case True
      have "\<exists>S'. count_bfs n fuel st B (Q' @ kids st x) S K = Inr S' \<and> cache_ok st S' \<and> S' B \<noteq> None"
        by (rule Suc.IH [OF bfs_inv_expand [OF inv B I] less]) (use True in auto)
      then show ?thesis using True xb by (simp add: Cons)
    next
      case False
      define S1 where "S1 = (if kids st x = [] then S(x \<mapsto> 1) else S)"
      have leaf: "tsize st x = 1" if "kids st x = []" using tsize_rec [OF inv xb] that by simp
      have S1: "cache_ok st S1" "S1 x \<noteq> None" "\<And>y. y \<noteq> x \<Longrightarrow> S1 y = S y"
        using False D(1) cache_ok_upd [OF D(1) xb] leaf by (auto simp: S1_def)
      note I1 = bfs_inv_leaf [OF inv B I S1]
      have "E - insert x F \<subseteq> blocks st" using bfs_invD(4) [OF I] subtree_blocks [OF inv B] by blast
      from card_mono [OF shape_invD(1) [OF inv] this] fuel
      have "card (E - insert x F) \<le> fuel" by simp
      from count_up_ok [OF inv B small I1 insertI1 this]
      obtain S' K' F' where up: "count_up fuel st B x S1 K = Inr (S', K')"
        "bfs_inv st B {} Q' S' K' E F'" "insert x F \<subseteq> F'" by blast
      have "\<exists>S''. count_bfs n fuel st B Q' S' K' = Inr S'' \<and> cache_ok st S'' \<and> S'' B \<noteq> None"
        by (rule Suc.IH [OF up(2) less]) (use up(3) in blast)
      moreover have "count_bfs (Suc n) fuel st B Q S K = count_bfs n fuel st B Q' S' K'"
        using False xb up(1) by (auto simp: Cons S1_def)
      ultimately show ?thesis by simp
    qed
  qed
qed

lemma count_subtrees_ok:
  assumes "shape_inv r (cx_store cx)" and "B \<in> blocks (cx_store cx)"
    and "card (blocks (cx_store cx)) < 2 ^ 64" and "card (blocks (cx_store cx)) \<le> fuel"
    and "cache_ok (cx_store cx) (cx_sizes cx)"
  obtains S where "count_subtrees fuel cx B = Inr (cx\<lparr>cx_sizes := S\<rparr>)" "cache_ok (cx_store cx) S"
    "S B = Some (tsize (cx_store cx) B)"
proof (cases "cx_sizes cx B = None")
  case True
  let ?st = "cx_store cx"
  have init: "bfs_inv ?st B {} [B] (cx_sizes cx) Map.empty {} {}"
    unfolding bfs_inv_def using assms(5) by (intro conjI) (simp_all add: cnt_def)
  have "card (subtree ?st B - ({} \<union> {})) \<le> fuel"
    using tsize_le [OF assms(1,2)] assms(4) by (simp add: tsize_def)
  from count_bfs_ok [OF assms(1-4) init this] obtain S where
    S: "count_bfs fuel fuel ?st B [B] (cx_sizes cx) Map.empty = Inr S" "cache_ok ?st S" "S B \<noteq> None" by blast
  show ?thesis
  proof (rule that)
    show "count_subtrees fuel cx B = Inr (cx\<lparr>cx_sizes := S\<rparr>)" using True S(1) by (simp add: count_subtrees_def)
    show "S B = Some (tsize ?st B)" by (rule cache_okD(1) [OF S(2,3)])
  qed (rule S(2))
next
  case False
  show ?thesis
  proof (rule that)
    show "count_subtrees fuel cx B = Inr (cx\<lparr>cx_sizes := cx_sizes cx\<rparr>)"
      using False by (simp add: count_subtrees_def)
    show "cx_sizes cx B = Some (tsize (cx_store cx) B)" by (rule cache_okD(1) [OF assms(5) False])
  qed (rule assms(5))
qed

section \<open>Propagating intervals\<close>

lemma same_shape_upd_ivl: "h \<in> blocks st \<Longrightarrow> same_shape st (upd_ivl st h iv)"
  by (simp add: same_shape_def)

lemma same_shape_tsize: "same_shape st st' \<Longrightarrow> tsize st' = tsize st"
  by (simp add: tsize_def subtree_def same_shape_anc fun_eq_iff)

lemma same_shape_cache: "same_shape st st' \<Longrightarrow> cache_ok st' S = cache_ok st S"
  by (simp add: cache_ok_def same_shape_tsize) (simp add: same_shape_def)

lemma same_shapeD:
  assumes "same_shape st st'"
  shows "blocks st' = blocks st" "kids st' x = kids st x" "par st' x = par st x" "hgt st' x = hgt st x"
    "fcs st' x = fcs st x" "rs_reindex_root st' = rs_reindex_root st"
  using assms by (simp_all add: same_shape_def)

lemma set_intervals_ok:
  assumes "set cs \<subseteq> blocks st" and "distinct cs" and "length ivs = length cs"
  shows "\<exists>st'. set_intervals st cs ivs = Inr st' \<and> same_shape st st' \<and> map (ivl st') cs = ivs \<and>
    (\<forall>x. x \<notin> set cs \<longrightarrow> ivl st' x = ivl st x)"
  using assms
proof (induction cs arbitrary: st ivs)
  case Nil
  then show ?case by (simp add: set_intervals_def)
next
  case (Cons c cs)
  then obtain i "is" where ivs: "ivs = i # is" by (cases ivs) auto
  have c: "c \<in> blocks st" using Cons.prems(1) by simp
  let ?st = "upd_ivl st c i"
  have "\<exists>st'. set_intervals ?st cs is = Inr st' \<and> same_shape ?st st' \<and> map (ivl st') cs = is \<and>
    (\<forall>x. x \<notin> set cs \<longrightarrow> ivl st' x = ivl ?st x)"
    by (rule Cons.IH) (use Cons.prems ivs c in simp_all)
  then obtain st' where st': "set_intervals ?st cs is = Inr st'" "same_shape ?st st'" "map (ivl st') cs = is"
    "\<And>x. x \<notin> set cs \<Longrightarrow> ivl st' x = ivl ?st x" by blast
  have "set_intervals st (c # cs) ivs = Inr st'" using st'(1) c by (simp add: set_intervals_def ivs)
  moreover have "same_shape st st'" by (rule same_shape_trans [OF same_shape_upd_ivl [OF c] st'(2)])
  moreover have "ivl st' c = i" using st'(4) [of c] Cons.prems(2) c by simp
  moreover have "ivl st' x = ivl st x" if "x \<notin> set (c # cs)" for x using st'(4) [of x] that c by simp
  ultimately show ?case using st'(3) ivs by auto
qed

text \<open>
  \<open>P\<close> are the processed blocks: their children are placed.  Blocks in the queue
  have an interval that is large enough for their subtree.
\<close>

definition prop_inv :: "reach_store \<Rightarrow> hash \<Rightarrow> reach_store \<Rightarrow> hash list \<Rightarrow> hash set \<Rightarrow> bool" where
  "prop_inv st0 B st Q P \<longleftrightarrow> same_shape st0 st \<and>
     (\<forall>x. x = B \<or> x \<notin> subtree st0 B \<longrightarrow> ivl st x = ivl st0 x) \<and>
     set Q \<union> P \<subseteq> subtree st0 B \<and> distinct Q \<and> set Q \<inter> P = {} \<and> B \<in> set Q \<union> P \<and>
     (\<forall>x \<in> P. node_ok st x \<and> set (kids st0 x) \<subseteq> set Q \<union> P) \<and>
     (\<forall>q \<in> set Q. iv_wf (ivl st q) \<and> tsize st0 q \<le> iv_len (ivl st q)) \<and>
     (\<forall>x \<in> set Q \<union> P. x = B \<or> par st0 x \<in> P)"

lemma prop_invD:
  assumes "prop_inv st0 B st Q P"
  shows "same_shape st0 st" "x = B \<or> x \<notin> subtree st0 B \<Longrightarrow> ivl st x = ivl st0 x"
    "set Q \<union> P \<subseteq> subtree st0 B" "distinct Q" "set Q \<inter> P = {}" "B \<in> set Q \<union> P"
    "x \<in> P \<Longrightarrow> node_ok st x" "x \<in> P \<Longrightarrow> set (kids st0 x) \<subseteq> set Q \<union> P"
    "q \<in> set Q \<Longrightarrow> iv_wf (ivl st q)" "q \<in> set Q \<Longrightarrow> tsize st0 q \<le> iv_len (ivl st q)"
    "x \<in> set Q \<union> P \<Longrightarrow> x = B \<or> par st0 x \<in> P"
proof -
  note * = assms [unfolded prop_inv_def]
  show "x = B \<or> x \<notin> subtree st0 B \<Longrightarrow> ivl st x = ivl st0 x" using * by blast
  show "same_shape st0 st"
    "set Q \<union> P \<subseteq> subtree st0 B" "distinct Q" "set Q \<inter> P = {}" "B \<in> set Q \<union> P"
    "x \<in> P \<Longrightarrow> node_ok st x" "x \<in> P \<Longrightarrow> set (kids st0 x) \<subseteq> set Q \<union> P"
    "q \<in> set Q \<Longrightarrow> iv_wf (ivl st q)" "q \<in> set Q \<Longrightarrow> tsize st0 q \<le> iv_len (ivl st q)"
    "x \<in> set Q \<union> P \<Longrightarrow> x = B \<or> par st0 x \<in> P"
    using * by simp_all
qed

lemma node_ok_cong:
  assumes "node_ok st x" and "kids st' x = kids st x" and "ivl st' x = ivl st x"
    and "\<And>c. c \<in> set (kids st x) \<Longrightarrow> ivl st' c = ivl st c"
  shows "node_ok st' x"
proof -
  have "map (ivl st') (kids st x) = map (ivl st) (kids st x)" using assms(4) by simp
  with assms(1) show ?thesis unfolding node_ok_def assms(2,3) by (simp only:)
qed

text \<open>Placing the children of a block with enough room.\<close>

lemma place_children:
  assumes inv: "shape_inv r st" and x: "x \<in> blocks st" and kids: "kids st x \<noteq> []"
    and wf: "iv_wf (ivl st x)" and room: "tsize st x \<le> iv_len (ivl st x)"
  obtains iv bs st' where "interval_children_capacity st x = Inr iv"
    "split_exponential iv (map (tsize st) (kids st x)) = (Inr (tiles (iv_start (ivl st x)) bs) :: (reach_error, _) res)"
    "set_intervals st (kids st x) (tiles (iv_start (ivl st x)) bs) = Inr st'" "same_shape st st'"
    "\<And>y. y \<notin> set (kids st x) \<Longrightarrow> ivl st' y = ivl st y" "node_ok st' x"
    "\<And>c. c \<in> set (kids st x) \<Longrightarrow> iv_wf (ivl st' c) \<and> tsize st c \<le> iv_len (ivl st' c)"
proof -
  define s where "s = iv_start (ivl st x)"
  define iv where "iv = interval_new s (iv_end (ivl st x) - 1)"
  let ?ss = "map (tsize st) (kids st x)"
  have rec: "tsize st x = sum_list ?ss + 1" by (rule tsize_rec [OF inv x])
  have pos: "0 < n" if "n \<in> set ?ss" for n using that tsize_pos [OF inv shape_invD(6) [OF inv x]] by auto
  obtain c0 cs0 where c0: "kids st x = c0 # cs0" using kids by (cases "kids st x") auto
  have sum_pos: "0 < sum_list ?ss" using pos [of "tsize st c0"] by (simp add: c0)
  have len: "iv_len (ivl st x) = iv_end (ivl st x) + 1 - s" "0 < s" "iv_end (ivl st x) < u64_max"
    using wf by (simp_all add: iv_len_def iv_wf_def s_def)
  have big: "s + sum_list ?ss \<le> iv_end (ivl st x)" using room rec len by simp
  have iv: "iv_wf iv" "iv_len iv = iv_end (ivl st x) - s" "iv_start iv = s"
    using big len sum_pos by (auto simp: iv_def iv_wf_def iv_len_def)
  have cap: "interval_children_capacity st x = Inr iv"
    using x big len(2) by (simp add: interval_children_capacity_def decrease_end_def iv_def s_def)
  have "sum_list ?ss \<le> iv_len iv" using big iv by simp
  then obtain bs where bs: "split_exponential iv ?ss = (Inr (tiles s bs) :: (reach_error, _) res)"
    "list_all2 (\<le>) ?ss bs" "sum_list bs = iv_len iv"
    using split_exponential_tiles [OF iv(1) sum_pos, where 'e = reach_error] iv(3) by metis
  have lbs: "length bs = length (kids st x)" using list_all2_lengthD [OF bs(2)] by simp
  have "set (kids st x) \<subseteq> blocks st" using shape_invD(6) [OF inv x] by blast
  from set_intervals_ok [OF this shape_invD(5) [OF inv x], of "tiles s bs"] lbs
  obtain st' where st': "set_intervals st (kids st x) (tiles s bs) = Inr st'" "same_shape st st'"
    "map (ivl st') (kids st x) = tiles s bs" "\<And>y. y \<notin> set (kids st x) \<Longrightarrow> ivl st' y = ivl st y"
    by auto
  have ge: "?ss ! i \<le> bs ! i" if "i < length bs" for i
    using list_all2_nthD2 [OF bs(2) that] .
  have bpos: "\<forall>n \<in> set bs. 0 < n"
  proof
    fix n assume "n \<in> set bs"
    then obtain i where i: "i < length bs" "n = bs ! i" by (auto simp: in_set_conv_nth)
    have "0 < tsize st (kids st x ! i)"
      using tsize_pos [OF inv shape_invD(6) [OF inv x]] i(1) lbs by simp
    with ge [OF i(1)] i lbs show "0 < n" by simp
  qed
  have xk: "x \<notin> set (kids st x)" using child_not_anc [OF inv x, of x] by auto
  have hi: "s + sum_list bs = iv_end (ivl st x)" using bs(3) iv(2) big by simp
  have "packed s (s + sum_list bs) (tiles s bs)" by (rule packed_tiles [OF len(2) bpos])
  then have ok: "node_ok st' x"
    unfolding node_ok_def same_shapeD(2) [OF st'(2)] st'(4) [OF xk] st'(3)
    using wf room tsize_pos [OF inv x] by (simp add: hi flip: s_def)
  have kid: "iv_wf (ivl st' c) \<and> tsize st c \<le> iv_len (ivl st' c)" if "c \<in> set (kids st x)" for c
  proof -
    from that obtain i where i: "i < length (kids st x)" "c = kids st x ! i" by (auto simp: in_set_conv_nth)
    have eq: "ivl st' c = tiles s bs ! i" using arg_cong [OF st'(3), of "\<lambda>l. l ! i"] i by simp
    have "tiles s bs ! i \<in> set (tiles s bs)" using i lbs by simp
    from tiles_wf [OF len(2) _ this] hi len(3) have "iv_wf (ivl st' c)" by (simp add: eq)
    moreover have "iv_len (tiles s bs ! i) = bs ! i"
      using arg_cong [OF map_iv_len_tiles [OF len(2), of bs], of "\<lambda>l. l ! i"] i lbs by simp
    then have "tsize st c \<le> iv_len (ivl st' c)" unfolding eq using ge [of i] i lbs by simp
    ultimately show ?thesis by simp
  qed
  show ?thesis
    by (rule that [of iv bs st']) (use cap bs(1) st' ok kid in \<open>simp_all add: s_def\<close>)
qed

lemma prop_inv_step:
  assumes I: "prop_inv st0 B st (x # Q) P" and inv: "shape_inv r st0" and x: "x \<in> blocks st0"
    and st': "same_shape st st'" "\<And>y. y \<notin> set (kids st0 x) \<Longrightarrow> ivl st' y = ivl st y" "node_ok st' x"
    "\<And>c. c \<in> set (kids st0 x) \<Longrightarrow> iv_wf (ivl st' c) \<and> tsize st0 c \<le> iv_len (ivl st' c)"
    and B: "B \<in> blocks st0"
  shows "prop_inv st0 B st' (Q @ kids st0 x) (insert x P)"
proof -
  note D = prop_invD [OF I]
  have xs: "x \<in> subtree st0 B" "x \<notin> set Q" "x \<notin> P" using D(3-5) by auto
  have kid: "c \<in> subtree st0 B" "par st0 c = x" "c \<noteq> B" if "c \<in> set (kids st0 x)" for c
  proof -
    show "c \<in> subtree st0 B" using xs(1) anc_step [OF _ x that] by (simp add: subtree_def)
    show "par st0 c = x" by (rule shape_invD(7) [OF inv x that])
    show "c \<noteq> B" using child_not_anc [OF inv x that] xs(1) by (auto simp: subtree_def)
  qed
  have fresh: "c \<notin> set Q" "c \<notin> P" "c \<noteq> x" if "c \<in> set (kids st0 x)" for c
    using kid(2,3) [OF that] D(11) [of c] xs(3) child_not_anc [OF inv x that] by auto
  have blk: "y \<in> blocks st0" if "y \<in> P" for y using that D(3) subtree_blocks [OF inv B] by blast
  have shape: "same_shape st0 st'" by (rule same_shape_trans [OF D(1) st'(1)])
  have okP: "node_ok st' y" if "y \<in> P" for y
  proof (rule node_ok_cong [OF D(7) [OF that]])
    show "kids st' y = kids st y" by (rule same_shapeD(2) [OF st'(1)])
    show "ivl st' y = ivl st y" using st'(2) fresh(2) that by blast
    fix c assume "c \<in> set (kids st y)"
    then have c: "c \<in> set (kids st0 y)" by (simp add: same_shapeD(2) [OF D(1)])
    have "c \<notin> set (kids st0 x)"
      using kid(2) [of c] shape_invD(7) [OF inv blk [OF that] c] xs(3) that by auto
    then show "ivl st' c = ivl st c" by (rule st'(2))
  qed
  show ?thesis
    unfolding prop_inv_def
  proof (intro conjI)
    show "\<forall>y. y = B \<or> y \<notin> subtree st0 B \<longrightarrow> ivl st' y = ivl st0 y"
      using D(2) st'(2) kid(1,3) by metis
    show "\<forall>y \<in> insert x P. node_ok st' y \<and> set (kids st0 y) \<subseteq> set (Q @ kids st0 x) \<union> insert x P"
      using st'(3) okP D(8) by auto
    show "\<forall>q \<in> set (Q @ kids st0 x). iv_wf (ivl st' q) \<and> tsize st0 q \<le> iv_len (ivl st' q)"
    proof
      fix q assume "q \<in> set (Q @ kids st0 x)"
      then consider "q \<in> set (kids st0 x)" | "q \<in> set Q" "q \<notin> set (kids st0 x)" by auto
      then show "iv_wf (ivl st' q) \<and> tsize st0 q \<le> iv_len (ivl st' q)"
        using st'(2,4) D(9,10) [of q] by cases simp_all
    qed
    show "\<forall>y \<in> set (Q @ kids st0 x) \<union> insert x P. y = B \<or> par st0 y \<in> insert x P"
      using D(11) kid(2) by auto
    show "distinct (Q @ kids st0 x)" using D(4) shape_invD(5) [OF inv x] fresh by auto
    show "set (Q @ kids st0 x) \<inter> insert x P = {}" using D(5) fresh xs by auto
    show "set (Q @ kids st0 x) \<union> insert x P \<subseteq> subtree st0 B" using D(3) kid(1) by auto
  qed (use shape D(6) in auto)
qed

lemma prop_inv_leaf:
  assumes I: "prop_inv st0 B st (x # Q) P" and inv: "shape_inv r st0" and x: "x \<in> blocks st0"
    and kids: "kids st0 x = []" and B: "B \<in> blocks st0"
  shows "prop_inv st0 B st Q (insert x P)"
proof -
  note D = prop_invD [OF I]
  have wf: "iv_wf (ivl st x)" "tsize st0 x \<le> iv_len (ivl st x)" using D(9,10) by simp_all
  have "node_ok st x"
    unfolding node_ok_def same_shapeD(2) [OF D(1)] kids
    using wf tsize_pos [OF inv x] by (auto simp: iv_len_def)
  then show ?thesis
    using prop_inv_step [OF I inv x same_shape_refl refl _ _ B] kids by simp
qed

lemma prop_inv_done:
  assumes "prop_inv st0 B st [] P" and "anc st0 B x"
  shows "x \<in> P"
  using assms(2)
proof (induction rule: anc_induct)
  case refl
  show ?case using prop_invD(6) [OF assms(1)] by simp
next
  case (step p c)
  then show ?case using prop_invD(8) [OF assms(1) step(4)] by auto
qed

lemma propagate_bfs_ok:
  assumes inv: "shape_inv r st0" and B: "B \<in> blocks st0"
    and S: "\<And>d. anc st0 B d \<Longrightarrow> S d = Some (tsize st0 d)"
    and "prop_inv st0 B st Q P" and "card (subtree st0 B - P) \<le> n"
  shows "\<exists>st' P'. propagate_bfs n st S Q = Inr st' \<and> prop_inv st0 B st' [] P'"
  using assms(4,5)
proof (induction n arbitrary: st Q P)
  case (0 st Q P)
  note D = prop_invD [OF 0(1)]
  have "subtree st0 B \<subseteq> P" using 0(2) finite_subtree [OF inv B] by auto
  then have "Q = []" using D(3,5) by (cases Q) auto
  with 0(1) show ?case by auto
next
  case (Suc n st Q P)
  show ?case
  proof (cases Q)
    case Nil
    with Suc.prems(1) show ?thesis by auto
  next
    case (Cons x Q')
    note I = Suc.prems(1) [unfolded Cons]
    note D = prop_invD [OF I]
    have xs: "x \<in> subtree st0 B" "x \<notin> P" using D(3,5) by auto
    have xb0: "x \<in> blocks st0" using xs(1) subtree_blocks [OF inv B] by blast
    then have xb: "x \<in> blocks st" using same_shapeD(1) [OF D(1)] by simp
    have kids_eq: "kids st x = kids st0 x" by (rule same_shapeD(2) [OF D(1)])
    have "subtree st0 B - insert x P \<subset> subtree st0 B - P" using xs by auto
    then have "card (subtree st0 B - insert x P) < card (subtree st0 B - P)"
      using finite_subtree [OF inv B] by (intro psubset_card_mono) auto
    then have less: "card (subtree st0 B - insert x P) \<le> n" using Suc.prems(2) by simp
    show ?thesis
    proof (cases "kids st0 x = []")
      case True
      from Suc.IH [OF prop_inv_leaf [OF I inv xb0 True B] less] show ?thesis
        using xb True kids_eq by (simp add: Cons)
    next
      case False
      have inv': "shape_inv r st" using inv same_shape_inv [OF D(1)] by simp
      have kids': "kids st x \<noteq> []" using False kids_eq by simp
      have room: "tsize st x \<le> iv_len (ivl st x)" using D(10) same_shape_tsize [OF D(1)] by simp
      obtain iv bs st' where st': "interval_children_capacity st x = Inr iv"
        "split_exponential iv (map (tsize st) (kids st x)) = (Inr (tiles (iv_start (ivl st x)) bs) :: (reach_error, _) res)"
        "set_intervals st (kids st x) (tiles (iv_start (ivl st x)) bs) = Inr st'" "same_shape st st'"
        "\<And>y. y \<notin> set (kids st x) \<Longrightarrow> ivl st' y = ivl st y" "node_ok st' x"
        "\<And>c. c \<in> set (kids st x) \<Longrightarrow> iv_wf (ivl st' c) \<and> tsize st c \<le> iv_len (ivl st' c)"
        by (rule place_children [OF inv' xb kids' D(9) room]) simp_all
      have rm: "rmap (\<lambda>c. unwrap (S c)) (kids st x) = (Inr (map (tsize st) (kids st x)) :: (reach_error, _) res)"
      proof (rule rmap_total)
        fix c assume c: "c \<in> set (kids st x)"
        have "anc st0 B c" using xs(1) anc_step [OF _ xb0] c kids_eq by (simp add: subtree_def)
        from S [OF this] show "unwrap (S c) = Inr (tsize st c)" using same_shape_tsize [OF D(1)] by simp
      qed
      have run: "propagate_bfs (Suc n) st S Q = propagate_bfs n st' S (Q' @ kids st0 x)"
        using xb kids' st'(1-3) rm by (simp add: Cons kids_eq)
      have "prop_inv st0 B st' (Q' @ kids st0 x) (insert x P)"
        by (rule prop_inv_step [OF I inv xb0 st'(4) st'(5) st'(6) _ B, unfolded kids_eq])
          (use st'(7) kids_eq same_shape_tsize [OF D(1)] in simp_all)
      from Suc.IH [OF this less] show ?thesis unfolding run .
    qed
  qed
qed

lemma propagate_interval_ok:
  assumes inv: "shape_inv r (cx_store cx)" and B: "B \<in> blocks (cx_store cx)"
    and small: "card (blocks (cx_store cx)) < 2 ^ 64" "card (blocks (cx_store cx)) \<le> fuel"
    and cache: "cache_ok (cx_store cx) (cx_sizes cx)"
    and room: "iv_wf (ivl (cx_store cx) B)" "tsize (cx_store cx) B \<le> iv_len (ivl (cx_store cx) B)"
  shows "\<exists>S st. propagate_interval fuel cx B = Inr (cx\<lparr>cx_sizes := S, cx_store := st\<rparr>) \<and>
    cache_ok st S \<and> same_shape (cx_store cx) st \<and>
    (\<forall>x. anc (cx_store cx) B x \<longrightarrow> node_ok st x) \<and>
    (\<forall>x. x = B \<or> \<not> anc (cx_store cx) B x \<longrightarrow> ivl st x = ivl (cx_store cx) x)"
proof -
  let ?st = "cx_store cx"
  obtain S where S: "count_subtrees fuel cx B = Inr (cx\<lparr>cx_sizes := S\<rparr>)" "cache_ok ?st S"
    "S B = Some (tsize ?st B)" by (rule count_subtrees_ok [OF inv B small cache])
  have init: "prop_inv ?st B ?st [B] {}"
    unfolding prop_inv_def using room by (intro conjI) simp_all
  have sz: "S d = Some (tsize ?st d)" if "anc ?st B d" for d
    by (rule cache_ok_anc [OF S(2) _ that]) (use S(3) in simp)
  have "card (subtree ?st B - {}) \<le> fuel" using tsize_le [OF inv B] small(2) by (simp add: tsize_def)
  from propagate_bfs_ok [OF inv B sz init this] obtain st P where
    st: "propagate_bfs fuel ?st S [B] = Inr st" "prop_inv ?st B st [] P" by blast
  note D = prop_invD [OF st(2)]
  show ?thesis
  proof (intro exI conjI allI impI)
    show "propagate_interval fuel cx B = Inr (cx\<lparr>cx_sizes := S, cx_store := st\<rparr>)"
      using S(1) st(1) by (simp add: propagate_interval_def)
    show "cache_ok st S" using S(2) same_shape_cache [OF D(1)] by simp
    show "same_shape ?st st" by (rule D(1))
    show "anc ?st B x \<Longrightarrow> node_ok st x" for x by (rule D(7) [OF prop_inv_done [OF st(2)]])
    show "x = B \<or> \<not> anc ?st B x \<Longrightarrow> ivl st x = ivl ?st x" for x
      by (rule D(2)) (simp add: subtree_def)
  qed
qed

text \<open>Propagation below one block repairs the invariant if it holds elsewhere.\<close>

lemma propagate_tree_inv:
  assumes inv: "shape_inv r st0" and B: "B \<in> blocks st0" and shape: "same_shape st0 st"
    and inside: "\<And>x. anc st0 B x \<Longrightarrow> node_ok st x"
    and same: "\<And>x. x = B \<or> \<not> anc st0 B x \<Longrightarrow> ivl st x = ivl st0 x"
    and outside: "\<And>x. x \<in> blocks st0 \<Longrightarrow> \<not> anc st0 B x \<Longrightarrow> node_ok st0 x"
  shows "tree_inv r st"
  unfolding tree_inv_def
proof (intro conjI ballI)
  show "shape_inv r st" using inv same_shape_inv [OF shape] by simp
  fix x assume "x \<in> blocks st"
  then have x: "x \<in> blocks st0" using same_shapeD(1) [OF shape] by simp
  show "node_ok st x"
  proof (cases "anc st0 B x")
    case False
    show ?thesis
    proof (rule node_ok_cong [OF outside [OF x False]])
      show "kids st x = kids st0 x" by (rule same_shapeD(2) [OF shape])
      show "ivl st x = ivl st0 x" using same False by blast
      fix c assume c: "c \<in> set (kids st0 x)"
      show "ivl st c = ivl st0 c" by (rule same) (use anc_of_child [OF inv x c, of B] False in auto)
    qed
  qed (rule inside)
qed

section \<open>Adding a block below the reindex root\<close>

text \<open>
  The search loop climbs from the new leaf to the first ancestor with room; it
  stops at the reindex root at the latest if that one has room.
\<close>

lemma reindex_loop_ok:
  assumes inv: "shape_inv r st" and small: "card (blocks st) < 2 ^ 64" "card (blocks st) \<le> fuel"
    and rr: "rr \<in> blocks st" "iv_wf (ivl st rr)" "tsize st rr \<le> iv_len (ivl st rr)"
    and b: "anc st rr b" "iv_wf (ivl st b)"
    and chain: "\<And>x. anc st rr x \<Longrightarrow> anc st x b \<Longrightarrow> x \<noteq> b \<Longrightarrow> iv_wf (ivl st x) \<and> iv_contains (ivl st rr) (ivl st x)"
    and ok: "\<And>x. x \<in> blocks st \<Longrightarrow> x \<noteq> b \<Longrightarrow> x \<noteq> par st b \<Longrightarrow> node_ok st x"
    and b_small: "iv_len (ivl st b) < tsize st b"
    and "cx_store cx = st" and "cache_ok st (cx_sizes cx)"
    and "anc st rr cur" and "anc st cur b" and "card {x. anc st rr x \<and> anc st x cur} \<le> n"
  shows "\<exists>cx'. reindex_loop n fuel cx rr cur = Inr cx' \<and> same_shape st (cx_store cx') \<and> tree_inv r (cx_store cx') \<and>
    ivl (cx_store cx') r = ivl st r"
  using assms(12-)
proof (induction n arbitrary: cx cur)
  case (0 cx cur)
  have "finite {x. anc st rr x \<and> anc st x cur}"
    by (rule finite_subset [OF _ finite_subtree [OF inv rr(1)]]) (auto simp: subtree_def)
  then have "{x. anc st rr x \<and> anc st x cur} = {}" using 0(5) by simp
  moreover have "cur \<in> {x. anc st rr x \<and> anc st x cur}" using 0(3) by simp
  ultimately show ?case by simp
next
  case (Suc n cx cur)
  have cur: "cur \<in> blocks st" by (rule anc_blocks [OF inv Suc.prems(3) rr(1)])
  have b_blk: "b \<in> blocks st" by (rule anc_blocks [OF inv b(1) rr(1)])
  have wf: "iv_wf (ivl st cur)" using chain [OF Suc.prems(3,4)] b(2) by (cases "cur = b") auto
  obtain S where S: "count_subtrees fuel cx cur = Inr (cx\<lparr>cx_sizes := S\<rparr>)" "cache_ok st S"
    "S cur = Some (tsize st cur)"
    using count_subtrees_ok [of r cx cur fuel] inv cur small Suc.prems(1,2) by auto
  let ?cx = "cx\<lparr>cx_sizes := S\<rparr>"
  have head: "reindex_loop (Suc n) fuel cx rr cur =
      (if tsize st cur \<le> iv_len (ivl st cur) then propagate_interval fuel ?cx cur
       else rbind (get_parent st cur) (\<lambda>parent.
         if parent = NONE then Inl (Err DataOverflow)
         else if cur = rr then Inl (Err DataOverflow)
         else rbind (is_strict_chain_ancestor_of st parent rr) (\<lambda>strict.
           if strict then reindex_intervals_earlier_than_root fuel ?cx cur rr parent (tsize st cur)
           else reindex_loop n fuel ?cx rr parent)))"
    using cur wf S(1,3) Suc.prems(1) by simp
  show ?case
  proof (cases "tsize st cur \<le> iv_len (ivl st cur)")
    case True
    then have "cur \<noteq> b" using b_small by auto
    have cx: "cx_store ?cx = st" "cx_sizes ?cx = S" using Suc.prems(1) by simp_all
    obtain S' st' where P: "propagate_interval fuel ?cx cur = Inr (?cx\<lparr>cx_sizes := S', cx_store := st'\<rparr>)"
      "cache_ok st' S'" "same_shape st st'" "\<And>x. anc st cur x \<Longrightarrow> node_ok st' x"
      "\<And>x. x = cur \<or> \<not> anc st cur x \<Longrightarrow> ivl st' x = ivl st x"
      using propagate_interval_ok [of r ?cx cur fuel, unfolded cx, OF inv cur small S(2) wf True] by blast
    have par_b: "anc st cur (par st b)"
    proof -
      obtain q where q: "q \<in> blocks st" "b \<in> set (kids st q)" "anc st cur q"
        using anc_last [OF Suc.prems(4)] \<open>cur \<noteq> b\<close> by auto
      then show ?thesis using shape_invD(7) [OF inv q(1,2)] by simp
    qed
    have "tree_inv r st'"
      by (rule propagate_tree_inv [OF inv cur P(3-5)])
        (use ok par_b Suc.prems(4) in auto)
    moreover have "r = cur \<or> \<not> anc st cur r"
      using anc_antisym [OF inv] anc_root [OF inv cur] by blast
    then have "ivl st' r = ivl st r" by (rule P(5))
    ultimately show ?thesis unfolding head using True P(1,3) by auto
  next
    case False
    have "cur \<noteq> rr" using False rr(3) by auto
    obtain p where p: "p \<in> blocks st" "cur \<in> set (kids st p)" "anc st rr p"
      using anc_last [OF Suc.prems(3)] \<open>cur \<noteq> rr\<close> by auto
    have par: "par st cur = p" by (rule shape_invD(7) [OF inv p(1,2)])
    have "p \<noteq> NONE" using p(1) shape_invD(3) [OF inv] by auto
    have pb: "anc st p b" by (rule anc_trans [OF anc_child [OF p(1,2)] Suc.prems(4)])
    have "p \<noteq> b" using child_not_anc [OF inv p(1,2)] Suc.prems(4) by auto
    have cont: "iv_contains (ivl st rr) (ivl st p)" using chain [OF p(3) pb \<open>p \<noteq> b\<close>] by simp
    then have "is_strict_chain_ancestor_of st p rr = Inr False"
      using p(1) rr(1) by (auto simp: is_strict_chain_ancestor_of_def iv_contains_def iv_strictly_contains_def)
    then have run: "reindex_loop (Suc n) fuel cx rr cur = reindex_loop n fuel ?cx rr p"
      unfolding head using False \<open>cur \<noteq> rr\<close> \<open>p \<noteq> NONE\<close> cur par by simp
    have "card {x. anc st rr x \<and> anc st x p} < card {x. anc st rr x \<and> anc st x cur}"
    proof (rule psubset_card_mono)
      show "finite {x. anc st rr x \<and> anc st x cur}"
        by (rule finite_subset [OF _ finite_subtree [OF inv rr(1)]]) (auto simp: subtree_def)
      show "{x. anc st rr x \<and> anc st x p} \<subset> {x. anc st rr x \<and> anc st x cur}"
        using anc_of_child [OF inv p(1,2)] child_not_anc [OF inv p(1,2)] Suc.prems(3) by auto
    qed
    then have "card {x. anc st rr x \<and> anc st x p} \<le> n" using Suc.prems(5) by simp
    from Suc.IH [of ?cx p, OF _ _ p(3) pb this] S(2) Suc.prems(1) show ?thesis unfolding run by simp
  qed
qed

lemma tsize_put_leaf:
  assumes inv: "shape_inv r st" and p: "p \<in> blocks st" and b: "b \<notin> blocks st" and a: "a \<in> blocks st" "anc st a p"
  shows "tsize (put_leaf st b p iv) a = tsize st a + 1"
proof -
  have "subtree (put_leaf st b p iv) a = insert b (subtree st a)"
    using a(2) anc_put_leaf [OF inv p b] b a(1) by (auto simp: subtree_def)
  moreover have "b \<notin> subtree st a" using subtree_blocks [OF inv a(1)] b by blast
  ultimately show ?thesis using finite_subtree [OF inv a(1)] by (simp add: tsize_def)
qed

lemma add_tree_block_inside:
  assumes inv: "tree_inv r st" and p: "p \<in> blocks st" and b: "b \<notin> blocks st" "b \<noteq> NONE"
    and full: "free_start st p = iv_end (ivl st p)" and h: "hgt st p + 1 < 2 ^ 64"
    and rr: "rs_reindex_root st = Some rr" "rr \<in> blocks st" "anc st rr p"
    and cap: "tsize st rr < iv_len (ivl st rr)"
    and small: "card (blocks st) + 1 < 2 ^ 64" "card (blocks st) + 1 \<le> fuel"
  shows "\<exists>st'. add_tree_block fuel st b p depth slack = Inr st' \<and> leaf_added r st b p st'"
proof -
  note shape = tree_invD(1) [OF inv]
  define rem where "rem = interval_new (free_start st p) (iv_end (ivl st p) - 1)"
  have wf: "iv_wf rem" and ra: "interval_remaining_after st p = Inr rem"
    using remaining_after_free [OF inv p] by (simp_all add: rem_def)
  have len: "iv_len rem = 0"
    using full node_ok_free(1) [OF tree_invD(2) [OF inv p]] by (simp add: rem_def iv_len_def)
  define st2 where "st2 = put_leaf st b p rem"
  note sel = put_leaf_sel [OF p b(1), of rem, folded st2_def]
  note anc2 = anc_put_leaf [OF shape p b(1), of rem, folded st2_def]
  have inv2: "shape_inv r st2" unfolding st2_def by (rule shape_inv_put_leaf [OF shape p b])
  obtain st1 where st1: "append_child st p b = Inr st1" "get_height st1 p = Inr (hgt st p)"
    "store_insert st1 b p rem (hgt st p + 1) = Inr st2"
    using append_insert_leaf [OF p b(1)] unfolding st2_def by blast
  have "rs_reindex_root st2 = Some rr" using rr(1) sel(7) by simp
  then have run: "add_tree_block fuel st b p depth slack =
      rbind (reindex_loop fuel fuel (reindex_ctx_new st2 depth slack) rr b) (\<lambda>cx. Inr (cx_store cx))"
    using h len wf
    by (simp add: add_tree_block_def ra st1 get_reindex_root_def reindex_intervals_def del: One_nat_def)
  have rrb: "rr \<noteq> b" using rr(2) b(1) by auto
  have card2: "card (blocks st2) = card (blocks st) + 1"
    using b(1) shape_invD(1) [OF shape] by (simp add: sel(1))
  have b2: "anc st2 rr b" using rr(3) by (simp add: anc2)
  have "\<exists>cx'. reindex_loop fuel fuel (reindex_ctx_new st2 depth slack) rr b = Inr cx' \<and>
      same_shape st2 (cx_store cx') \<and> tree_inv r (cx_store cx') \<and> ivl (cx_store cx') r = ivl st2 r"
  proof (rule reindex_loop_ok [OF inv2, where b = b])
    show "card (blocks st2) < 2 ^ 64" "card (blocks st2) \<le> fuel" using small card2 by simp_all
    show "rr \<in> blocks st2" using rr(2) by (simp add: sel(1))
    show "iv_wf (ivl st2 rr)" using node_okD(1) [OF tree_invD(2) [OF inv rr(2)]] rrb by (simp add: sel(2))
    show "tsize st2 rr \<le> iv_len (ivl st2 rr)"
      using cap rrb tsize_put_leaf [OF shape p b(1) rr(2,3), of rem, folded st2_def] by (simp add: sel(2))
    show "anc st2 rr b" by (rule b2)
    show "iv_wf (ivl st2 b)" using wf by (simp add: sel(2))
    show "iv_wf (ivl st2 x) \<and> iv_contains (ivl st2 rr) (ivl st2 x)"
      if "anc st2 rr x" "anc st2 x b" "x \<noteq> b" for x
    proof -
      have "anc st rr x" using that(1,3) by (simp add: anc2)
      moreover from this have "x \<in> blocks st" by (rule anc_blocks [OF shape _ rr(2)])
      ultimately show ?thesis
        using that(3) rrb anc_contains [OF inv _ rr(2)] node_okD(1) [OF tree_invD(2) [OF inv]]
        by (simp add: sel(2))
    qed
    show "node_ok st2 x" if "x \<in> blocks st2" "x \<noteq> b" "x \<noteq> par st2 b" for x
    proof -
      have x: "x \<in> blocks st" "x \<noteq> p" using that by (simp_all add: sel)
      show ?thesis
        unfolding st2_def
        by (rule node_ok_put_leaf [OF tree_invD(2) [OF inv x(1)] x(1) p b(1)])
          (use x(2) shape_invD(6) [OF shape x(1)] in auto)
    qed
    have "b \<in> blocks st2" by (simp add: sel(1))
    from tsize_pos [OF inv2 this] show "iv_len (ivl st2 b) < tsize st2 b" using len by (simp add: sel(2))
    show "cx_store (reindex_ctx_new st2 depth slack) = st2"
      "cache_ok st2 (cx_sizes (reindex_ctx_new st2 depth slack))" by (simp_all add: reindex_ctx_new_def)
    show "anc st2 rr b" "anc st2 b b" by (simp_all add: b2)
    have "{x. anc st2 rr x \<and> anc st2 x b} \<subseteq> blocks st2"
      using anc_blocks [OF inv2] rr(2) by (auto simp: sel(1) simp del: domIff)
    from card_mono [OF shape_invD(1) [OF inv2] this] show "card {x. anc st2 rr x \<and> anc st2 x b} \<le> fuel"
      using small(2) card2 by simp
  qed
  then obtain cx' where "reindex_loop fuel fuel (reindex_ctx_new st2 depth slack) rr b = Inr cx'"
    "same_shape st2 (cx_store cx')" "tree_inv r (cx_store cx')" "ivl (cx_store cx') r = ivl st2 r" by blast
  moreover have "ivl st2 r = ivl st r" using shape_invD(2) [OF shape] b(1) by (auto simp: sel(2) simp del: domIff)
  ultimately show ?thesis unfolding run leaf_added_def st2_def by auto
qed

text \<open>
  Both ways of adding a block under the reindex root, for any free range left
  under the selected parent.
\<close>

lemma add_tree_block_leaf:
  assumes inv: "tree_inv r st" and p: "p \<in> blocks st" and b: "b \<notin> blocks st" "b \<noteq> NONE"
    and h: "hgt st p + 1 < 2 ^ 64"
    and rr: "rs_reindex_root st = Some rr" "rr \<in> blocks st" "anc st rr p"
    and cap: "tsize st rr < iv_len (ivl st rr)"
    and small: "card (blocks st) + 1 < 2 ^ 64" "card (blocks st) + 1 \<le> fuel"
  shows "\<exists>st'. add_tree_block fuel st b p depth slack = Inr st' \<and> leaf_added r st b p st'"
proof (cases "free_start st p = iv_end (ivl st p)")
  case True
  show ?thesis by (rule add_tree_block_inside [OF inv p b True h rr cap small])
next
  case False
  then have "free_start st p < iv_end (ivl st p)"
    using node_ok_free(2) [OF tree_invD(2) [OF inv p]] by simp
  from add_tree_block_room [OF inv p b this h] show ?thesis
    unfolding leaf_added_def using put_leaf_sel(2) [OF p b(1)] shape_invD(2) [OF tree_invD(1) [OF inv]] b(1)
    by (metis same_shape_refl)
qed

end
