(* ===== verification/GhostdagInv.thy ===== *)
theory GhostdagInv
  imports Ghostdag ReindexInv
begin

text \<open>
  Correctness of GHOSTDAG on top of the reachability component: the mergeset
  search, the selected parent, the coloring loop and that the whole protocol
  returns.
\<close>

section \<open>The reachability store provides the interface\<close>

text \<open>A view: the block DAG, the root of the reachability tree and the store.\<close>

type_synonym reach_view = "(hash \<Rightarrow> hash set) \<times> hash \<times> reach_store"

definition view_query :: "reach_view \<Rightarrow> ancestor_query" where
  "view_query v this queried = (case is_dag_ancestor_of (snd (snd v)) this queried of
     Inl _ \<Rightarrow> Inl Panic | Inr b \<Rightarrow> Inr b)"

definition view_invar :: "reach_view \<Rightarrow> bool" where
  "view_invar v \<longleftrightarrow> tree_inv (fst (snd v)) (snd (snd v)) \<and> covering_inv (fst v) (snd (snd v))"

definition view_blocks :: "reach_view \<Rightarrow> hash set" where
  "view_blocks v = blocks (snd (snd v))"

interpretation store_reach: dag_reachability view_query view_invar view_blocks fst
proof
  fix v :: reach_view and a b :: hash
  assume v: "view_invar v"
  show "view_query v a b = Inr (dag_reach (fst v) a b)" if "a \<in> view_blocks v" "b \<in> view_blocks v"
    using that v dag_query_reach [of "fst (snd v)" "snd (snd v)" "fst v" a b]
    unfolding view_invar_def view_blocks_def by (simp add: view_query_def)
  show "fst v b \<subseteq> view_blocks v" if "b \<in> view_blocks v"
    using that v covering_invD(1) unfolding view_invar_def view_blocks_def by blast
  show "finite (view_blocks v)"
    using v shape_invD(1) [OF tree_invD(1)] unfolding view_invar_def view_blocks_def by blast
qed

lemma dag_ancestor_view: "dag_ancestor m = view_query (G, r, gm_reach m)"
  by (simp add: fun_eq_iff dag_ancestor_def view_query_def)

section \<open>The selected parent\<close>

lemma iter_max_Some:
  "xs \<noteq> [] \<Longrightarrow> \<exists>y. iter_max xs = Some y \<and> y \<in> set xs \<and> (\<forall>x \<in> set xs. x \<le> y)"
proof -
  have *: "fold (\<lambda>x acc. if acc \<le> x then x else acc) ys y \<in> insert y (set ys) \<and>
      y \<le> fold (\<lambda>x acc. if acc \<le> x then x else acc) ys y \<and>
      (\<forall>x \<in> set ys. x \<le> fold (\<lambda>x acc. if acc \<le> x then x else acc) ys y)" for ys and y :: "'a::linorder"
  proof (induction ys arbitrary: y)
    case (Cons a ys)
    show ?case
    proof (cases "y \<le> a")
      case True
      with Cons.IH [of a] show ?thesis by (auto intro: order_trans)
    next
      case False
      then have "a \<le> y" by simp
      with False Cons.IH [of y] show ?thesis by (auto intro: order_trans)
    qed
  qed simp
  show "xs \<noteq> [] \<Longrightarrow> \<exists>y. iter_max xs = Some y \<and> y \<in> set xs \<and> (\<forall>x \<in> set xs. x \<le> y)"
    using * by (cases xs) (auto simp: iter_max_def)
qed

definition key_of :: "gd_manager \<Rightarrow> hash \<Rightarrow> sortable_block" where
  "key_of m h = SortableBlock h (gd_blue_work (the (gm_store m h)))"

lemma sortable_stored: "gm_store m h \<noteq> None \<Longrightarrow> sortable m h = Inr (key_of m h)"
  by (auto simp: sortable_def gd_get_data_def key_of_def)

lemma sb_hash_key_of [simp]: "sb_hash (key_of m h) = h"
  by (simp add: key_of_def)

lemma rmap_sortable: "\<forall>h \<in> set hs. gm_store m h \<noteq> None \<Longrightarrow> rmap (sortable m) hs = Inr (map (key_of m) hs)"
  by (rule rmap_total) (simp add: sortable_stored)

lemma find_selected_parent_max:
  assumes "\<forall>p \<in> set ps. gm_store m p \<noteq> None" and "ps \<noteq> []"
  obtains sp where "find_selected_parent m ps = Inr sp" "sp \<in> set ps" "\<forall>p \<in> set ps. key_of m p \<le> key_of m sp"
proof -
  obtain y where y: "iter_max (map (key_of m) ps) = Some y" "y \<in> key_of m ` set ps"
    "\<forall>x \<in> key_of m ` set ps. x \<le> y"
    using iter_max_Some [of "map (key_of m) ps"] assms(2) by auto
  from y(2) obtain sp where "sp \<in> set ps" "y = key_of m sp" by auto
  with y assms(1) show ?thesis
    by (intro that [of sp]) (auto simp: find_selected_parent_def rmap_sortable)
qed

section \<open>The ordered mergeset\<close>

lemma key_of_inj: "key_of m a = key_of m b \<longleftrightarrow> a = b"
  by (auto simp: key_of_def)

lemma sort_blocks_sorted:
  assumes "\<forall>h \<in> set hs. gm_store m h \<noteq> None" and "distinct hs"
  obtains L where "sort_blocks m hs = Inr L" "set L = set hs" "distinct L"
    "sorted_wrt (\<lambda>a b. key_of m a < key_of m b) L"
proof -
  define L where "L = map sb_hash (sort (map (key_of m) hs))"
  have keys: "map (key_of m) L = sort (map (key_of m) hs)"
  proof -
    have "key_of m (sb_hash x) = x" if "x \<in> set (map (key_of m) hs)" for x using that by auto
    then show ?thesis unfolding L_def map_map by (intro map_idI) simp
  qed
  have d: "distinct (map (key_of m) L)"
    unfolding keys using assms(2) by (simp add: distinct_map inj_on_def key_of_inj)
  show ?thesis
  proof (rule that)
    show "sort_blocks m hs = Inr L" using assms(1) by (simp add: sort_blocks_def rmap_sortable L_def)
    show "set L = set hs" by (auto simp: L_def image_image)
    show "distinct L" using d by (simp add: distinct_map)
    have "sorted_wrt (<) (map (key_of m) L)"
      using d sorted_sort [of "map (key_of m) hs"] keys by (simp add: strict_sorted_iff)
    then show "sorted_wrt (\<lambda>a b. key_of m a < key_of m b) L" by (simp add: sorted_wrt_map)
  qed
qed

text \<open>The stores of the manager describe one DAG \<open>G\<close>.\<close>

definition gd_inv :: "(hash \<Rightarrow> hash set) \<Rightarrow> hash \<Rightarrow> gd_manager \<Rightarrow> bool" where
  "gd_inv G r m \<longleftrightarrow> tree_inv r (gm_reach m) \<and> covering_inv G (gm_reach m) \<and>
     (\<forall>x \<in> blocks (gm_reach m). gm_store m x \<noteq> None \<and> (\<exists>l. gm_relations m x = Some l \<and> set l = G x))"

lemma gd_invD:
  assumes "gd_inv G r m"
  shows "tree_inv r (gm_reach m)" "covering_inv G (gm_reach m)" "x \<in> blocks (gm_reach m) \<Longrightarrow> gm_store m x \<noteq> None"
    "x \<in> blocks (gm_reach m) \<Longrightarrow> \<exists>l. gm_relations m x = Some l \<and> set l = G x" "view_invar (G, r, gm_reach m)"
proof -
  note * = assms [unfolded gd_inv_def]
  show "tree_inv r (gm_reach m)" "covering_inv G (gm_reach m)" "view_invar (G, r, gm_reach m)"
    using * by (simp_all add: view_invar_def)
  show "x \<in> blocks (gm_reach m) \<Longrightarrow> gm_store m x \<noteq> None"
    "x \<in> blocks (gm_reach m) \<Longrightarrow> \<exists>l. gm_relations m x = Some l \<and> set l = G x"
    using * by blast+
qed

lemma gd_query:
  assumes "gd_inv G r m" and "a \<in> blocks (gm_reach m)" and "b \<in> blocks (gm_reach m)"
  shows "dag_ancestor m a b = Inr (dag_reach G a b)"
  using store_reach.query_reach [OF gd_invD(5) [OF assms(1)], of a b] assms(2,3)
  by (simp add: dag_ancestor_view [of m G r] view_blocks_def)

lemma ordered_mergeset_ok:
  assumes inv: "gd_inv G r m" and ps: "set ps \<subseteq> blocks (gm_reach m)" and sp: "sp \<in> set ps"
    and antichain: "\<And>p. p \<in> set ps \<Longrightarrow> p \<noteq> sp \<Longrightarrow> \<not> dag_reach G p sp"
    and fuel: "length ps + card (blocks (gm_reach m)) \<le> fuel"
  obtains L where "ordered_mergeset_without_selected_parent fuel m sp ps = Inr L"
    "set L = dag_mergeset G sp (set ps)" "distinct L" "sorted_wrt (\<lambda>a b. key_of m a < key_of m b) L"
    "set L \<subseteq> blocks (gm_reach m)"
proof -
  let ?v = "(G, r, gm_reach m)"
  have "\<exists>M. unordered_mergeset_without_selected_parent fuel (gm_relations m) (view_query ?v) sp ps = Inr M \<and>
      set M = dag_mergeset (fst ?v) sp (set ps) \<and> distinct M"
    by (rule store_reach.mergeset_search [OF gd_invD(5) [OF inv]])
      (use ps sp gd_invD(4) [OF inv] antichain fuel in \<open>auto simp: view_blocks_def simp del: domIff\<close>)
  then obtain M where M: "unordered_mergeset_without_selected_parent fuel (gm_relations m) (dag_ancestor m) sp ps = Inr M"
    "set M = dag_mergeset G sp (set ps)" "distinct M"
    by (auto simp: dag_ancestor_view [of m G r])
  have sub: "set M \<subseteq> blocks (gm_reach m)"
    using store_reach.mergeset_of_stored [OF gd_invD(5) [OF inv]] ps M(2)
    by (simp add: view_blocks_def) blast
  then have "\<forall>h \<in> set M. gm_store m h \<noteq> None" using gd_invD(3) [OF inv] by blast
  from sort_blocks_sorted [OF this M(3)] obtain L where L: "sort_blocks m M = Inr L" "set L = set M" "distinct L"
    "sorted_wrt (\<lambda>a b. key_of m a < key_of m b) L" by blast
  show ?thesis
    by (rule that [of L]) (use L M sub in \<open>simp_all add: ordered_mergeset_without_selected_parent_def\<close>)
qed

section \<open>Coloring a candidate\<close>

lemma add16_Inr [simp]: "a + b < 2 ^ 16 \<Longrightarrow> add16 a b = Inr (a + b)"
  by (simp add: add16_def)

lemma in_set_update: "x \<in> set (AList.update k v al) \<Longrightarrow> x = (k, v) \<or> x \<in> set al"
  by (induction al) (auto split: if_splits)

lemma check_peers_bounds:
  assumes "check_peers fuel m nd c k peers sizes n = Inr (state, sizes', n')" and "state \<noteq> StateRed"
    and "n \<le> k" and "\<forall>(b, s) \<in> set sizes. s < k"
  shows "n' \<le> k \<and> (\<forall>(b, s) \<in> set sizes'. s < k)"
  using assms
proof (induction peers arbitrary: sizes n)
  case Nil
  then show ?case by simp
next
  case (Cons p peers)
  obtain b where b: "dag_ancestor m p c = Inr b" using Cons.prems(1) by (auto elim!: rbind_InrE)
  show ?case
  proof (cases b)
    case True
    with b Cons show ?thesis by simp
  next
    case False
    obtain s where s: "blue_anticone_size fuel m p nd = Inr s" using b False Cons.prems(1) by (auto elim!: rbind_InrE)
    have add: "add16 n 1 = Inr (n + 1)"
      using b False s Cons.prems(1) by (cases "n + 1 < 2 ^ 16") (auto simp: add16_def)
    have ok: "\<not> k < n + 1" "s \<noteq> k" "s \<le> k" and
      rec: "check_peers fuel m nd c k peers (AList.update p s sizes) (n + 1) = Inr (state, sizes', n')"
      using b False s add Cons.prems(1,2) by (auto split: if_splits simp: rassert_def)
    have "\<forall>(b, s') \<in> set (AList.update p s sizes). s' < k"
      using Cons.prems(4) ok(2,3) by (auto dest: in_set_update)
    with Cons.IH [OF rec Cons.prems(2)] ok(1) show ?thesis by simp
  qed
qed

lemma candidate_loop_bounds:
  assumes "candidate_loop n fuel m nd ch cd c k sizes cnt0 = Inr (OutBlue n' sizes')"
    and "cnt0 \<le> k" and "\<forall>(b, s) \<in> set sizes. s < k"
  shows "n' \<le> k \<and> (\<forall>(b, s) \<in> set sizes'. s < k)"
  using assms
proof (induction n arbitrary: ch cd sizes cnt0)
  case 0
  then show ?case by simp
next
  case (Suc n)
  from Suc.prems(1) obtain state sz1 n1 where
    1: "check_blue_candidate_with_chain_block fuel m nd ch cd c sizes cnt0 k = Inr (state, sz1, n1)"
    by (auto elim!: rbind_InrE)
  have nr: "state \<noteq> StateRed" using 1 Suc.prems(1) by auto
  have b1: "n1 \<le> k \<and> (\<forall>(b, s) \<in> set sz1. s < k)"
    using 1 nr Suc.prems(2,3) check_peers_bounds
    unfolding check_blue_candidate_with_chain_block_def
    by (elim rbind_InrE) (auto split: if_splits)
  show ?case
  proof (cases state)
    case StateBlue
    with 1 Suc.prems(1) b1 show ?thesis by simp
  next
    case StateRed
    with nr show ?thesis by simp
  next
    case StatePending
    with 1 Suc.prems(1) obtain d where
      "candidate_loop n fuel m nd (Some (gd_selected_parent cd)) d c k sz1 n1 = Inr (OutBlue n' sizes')"
      by (auto elim!: rbind_InrE)
    from Suc.IH [OF this] b1 show ?thesis by simp
  qed
qed

text \<open>
  The data of a block under construction: the selected parent comes first, at
  most \<open>k + 1\<close> blues, all of them with a recorded anticone size of at most \<open>k\<close>.
\<close>

definition data_ok :: "nat \<Rightarrow> hash \<Rightarrow> ghostdag_data \<Rightarrow> bool" where
  "data_ok k sp d \<longleftrightarrow> gd_selected_parent d = sp \<and> (\<exists>bs. gd_mergeset_blues d = sp # bs) \<and>
     length (gd_mergeset_blues d) \<le> k + 1 \<and> set (gd_mergeset_blues d) \<subseteq> dom (gd_anticone_sizes d) \<and>
     (\<forall>b s. gd_anticone_sizes d b = Some s \<longrightarrow> s \<le> k)"

lemma add_blue_ok:
  assumes "k + 1 < 2 ^ 16" and "\<forall>(b, s) \<in> set al. s < k" and "n \<le> k"
    and "\<forall>b s. gd_anticone_sizes d b = Some s \<longrightarrow> s \<le> k"
  shows "\<exists>M. add_blue d c n al = Inr (d\<lparr>gd_mergeset_blues := gd_mergeset_blues d @ [c], gd_anticone_sizes := M\<rparr>) \<and>
    (\<forall>b s. M b = Some s \<longrightarrow> s \<le> k) \<and> insert c (dom (gd_anticone_sizes d)) \<subseteq> dom M"
proof -
  have "\<exists>M. rfold (\<lambda>m (blue, n). rbind (add16 n 1) (\<lambda>n'. Inr (m(blue \<mapsto> n')))) M0 al = (Inr M :: (unit, _) res) \<and>
      (\<forall>b s. M b = Some s \<longrightarrow> s \<le> k) \<and> dom M0 \<subseteq> dom M" if "\<forall>b s. M0 b = Some s \<longrightarrow> s \<le> k" for M0
    using assms(2) that
  proof (induction al arbitrary: M0)
    case Nil
    then show ?case by auto
  next
    case (Cons x al)
    obtain b s where x: "x = (b, s)" by (cases x)
    have s: "s < k" using Cons.prems(1) x by auto
    have "\<exists>M. rfold (\<lambda>m (blue, n). rbind (add16 n 1) (\<lambda>n'. Inr (m(blue \<mapsto> n')))) (M0(b \<mapsto> s + 1)) al =
        (Inr M :: (unit, _) res) \<and> (\<forall>b s. M b = Some s \<longrightarrow> s \<le> k) \<and> dom (M0(b \<mapsto> s + 1)) \<subseteq> dom M"
      by (rule Cons.IH) (use Cons.prems s in auto)
    then obtain M where M: "rfold (\<lambda>m (blue, n). rbind (add16 n 1) (\<lambda>n'. Inr (m(blue \<mapsto> n')))) (M0(b \<mapsto> s + 1)) al =
        (Inr M :: (unit, _) res)" "\<forall>b s. M b = Some s \<longrightarrow> s \<le> k" "dom (M0(b \<mapsto> s + 1)) \<subseteq> dom M" by blast
    have "add16 s 1 = Inr (s + 1)" using s assms(1) by (intro add16_Inr) simp
    with M(1) have "rfold (\<lambda>m (blue, n). rbind (add16 n 1) (\<lambda>n'. Inr (m(blue \<mapsto> n')))) M0 (x # al) = (Inr M :: (unit, _) res)"
      unfolding x by (simp del: One_nat_def)
    moreover have "dom M0 \<subseteq> dom M" using M(3) by auto
    ultimately show ?case using M(2) by blast
  qed
  note fold = this
  have "\<forall>b s. ((gd_anticone_sizes d)(c \<mapsto> n)) b = Some s \<longrightarrow> s \<le> k"
    using assms(3,4) by (auto split: if_splits)
  from fold [OF this] obtain M where
    "rfold (\<lambda>m (blue, n). rbind (add16 n 1) (\<lambda>n'. Inr (m(blue \<mapsto> n')))) ((gd_anticone_sizes d)(c \<mapsto> n)) al =
      (Inr M :: (unit, _) res)" "\<forall>b s. M b = Some s \<longrightarrow> s \<le> k" "dom ((gd_anticone_sizes d)(c \<mapsto> n)) \<subseteq> dom M"
    by blast
  then show ?thesis by (intro exI [of _ M]) (simp add: add_blue_def)
qed

lemma color_candidate_cases:
  assumes "color_candidate fuel m k d c = Inr d'" and ok: "data_ok k sp d"
  shows "data_ok k sp d' \<and>
    (gd_mergeset_blues d' = gd_mergeset_blues d @ [c] \<and> gd_mergeset_reds d' = gd_mergeset_reds d \<or>
     gd_mergeset_blues d' = gd_mergeset_blues d \<and> gd_mergeset_reds d' = gd_mergeset_reds d @ [c])"
proof -
  from assms(1) obtain out where out: "check_blue_candidate fuel m d c k = Inr out"
    "(case out of OutBlue n sizes \<Rightarrow> add_blue d c n sizes | OutRed \<Rightarrow> Inr (add_red d c)) = Inr d'"
    unfolding color_candidate_def by (elim rbind_InrE)
  from out(1) have k1: "k + 1 < 2 ^ 16"
    unfolding check_blue_candidate_def by (elim rbind_InrE) (simp add: add16_def split: if_splits)
  show ?thesis
  proof (cases out)
    case OutRed
    with out(2) ok show ?thesis by (auto simp: add_red_def data_ok_def)
  next
    case (OutBlue n al)
    have ck: "length (gd_mergeset_blues d) mod 2 ^ 16 \<noteq> k + 1"
      "candidate_loop fuel fuel m d None d c k [] 0 = Inr (OutBlue n al)"
      using out(1) OutBlue k1 by (auto simp: check_blue_candidate_def split: if_splits)
    have len: "length (gd_mergeset_blues d) \<le> k + 1" and asz: "\<forall>b s. gd_anticone_sizes d b = Some s \<longrightarrow> s \<le> k"
      and sub: "set (gd_mergeset_blues d) \<subseteq> dom (gd_anticone_sizes d)" and sp: "gd_selected_parent d = sp"
      using ok unfolding data_ok_def by blast+
    obtain bs where bs: "gd_mergeset_blues d = sp # bs" using ok unfolding data_ok_def by blast
    have lk: "length (gd_mergeset_blues d) \<le> k"
    proof (rule ccontr)
      assume "\<not> ?thesis"
      with len have "length (gd_mergeset_blues d) = k + 1" by linarith
      with ck(1) k1 show False by (simp only: mod_less)
    qed
    have b: "n \<le> k \<and> (\<forall>(b, s) \<in> set al. s < k)" by (rule candidate_loop_bounds [OF ck(2)]) simp_all
    obtain M where M: "add_blue d c n al = Inr (d\<lparr>gd_mergeset_blues := gd_mergeset_blues d @ [c], gd_anticone_sizes := M\<rparr>)"
      "\<forall>b s. M b = Some s \<longrightarrow> s \<le> k" "insert c (dom (gd_anticone_sizes d)) \<subseteq> dom M"
      using add_blue_ok [OF k1 conjunct2 [OF b] conjunct1 [OF b] asz, of c] by blast
    have d': "d' = d\<lparr>gd_mergeset_blues := gd_mergeset_blues d @ [c], gd_anticone_sizes := M\<rparr>"
      using out(2) OutBlue M(1) by simp
    have "set (gd_mergeset_blues d) \<subseteq> dom M" "c \<in> dom M" using sub M(3) by blast+
    then have "set (gd_mergeset_blues d @ [c]) \<subseteq> dom M" by (simp del: domIff)
    moreover have "length (gd_mergeset_blues d @ [c]) \<le> k + 1" using lk by simp
    ultimately have "data_ok k sp d'"
      unfolding data_ok_def d' using sp M(2) bs by (simp del: domIff)
    then show ?thesis unfolding d' by simp
  qed
qed

text \<open>The coloring loop splits the ordered mergeset into blues and reds.\<close>

lemma color_all_partition:
  assumes "rfold (color_candidate fuel m k) d L = Inr d'" and "data_ok k sp d"
  shows "data_ok k sp d' \<and> (\<exists>bs rs. gd_mergeset_blues d' = gd_mergeset_blues d @ bs \<and>
    gd_mergeset_reds d' = gd_mergeset_reds d @ rs \<and> L \<in> shuffles bs rs)"
  using assms
proof (induction L arbitrary: d)
  case Nil
  then show ?case by auto
next
  case (Cons c L)
  from Cons.prems(1) obtain d1 where d1: "color_candidate fuel m k d c = Inr d1"
    "rfold (color_candidate fuel m k) d1 L = Inr d'" by (auto elim: rbind_InrE)
  note C = color_candidate_cases [OF d1(1) Cons.prems(2)]
  from Cons.IH [OF d1(2)] C obtain bs rs where IH: "data_ok k sp d'" "gd_mergeset_blues d' = gd_mergeset_blues d1 @ bs"
    "gd_mergeset_reds d' = gd_mergeset_reds d1 @ rs" "L \<in> shuffles bs rs" by auto
  from C show ?case
  proof (elim conjE disjE)
    assume "gd_mergeset_blues d1 = gd_mergeset_blues d @ [c]" "gd_mergeset_reds d1 = gd_mergeset_reds d"
    with IH show ?thesis
      by (intro conjI exI [of _ "c # bs"] exI [of _ rs]) (auto simp: Cons_in_shuffles_iff)
  next
    assume "gd_mergeset_blues d1 = gd_mergeset_blues d" "gd_mergeset_reds d1 = gd_mergeset_reds d @ [c]"
    with IH show ?thesis
      by (intro conjI exI [of _ bs] exI [of _ "c # rs"]) (auto simp: Cons_in_shuffles_iff)
  qed
qed

lemma merge_join_shuffles:
  "L \<in> shuffles bs rs \<Longrightarrow> sorted_wrt (<) L \<Longrightarrow> merge_join bs rs = Inr L"
proof (induction bs rs arbitrary: L rule: merge_join.induct)
  case (3 a as b bs)
  from 3(3) consider L' where "L = a # L'" "L' \<in> shuffles as (b # bs)"
    | L' where "L = b # L'" "L' \<in> shuffles (a # as) bs" by auto
  then show ?case
  proof cases
    case 1
    have "b \<in> set L'" using set_shuffles [OF 1(2)] by auto
    then have "a < b" using 3(4) 1(1) by auto
    moreover have "merge_join as (b # bs) = Inr L'" using 3(1) [OF \<open>a < b\<close> 1(2)] 3(4) 1(1) by simp
    ultimately show ?thesis using 1(1) by simp
  next
    case 2
    have "a \<in> set L'" using set_shuffles [OF 2(2)] by auto
    then have "b < a" using 3(4) 2(1) by auto
    then have "\<not> a < b" by (rule less_not_sym)
    with \<open>b < a\<close> have "merge_join (a # as) bs = Inr L'" using 3(2) [OF _ _ 2(2)] 3(4) 2(1) by simp
    with \<open>b < a\<close> \<open>\<not> a < b\<close> show ?thesis using 2(1) by simp
  qed
qed auto

section \<open>The protocol returns\<close>

text \<open>The selected-parent chain of a block, down to genesis.\<close>

fun sp_chain :: "gd_manager \<Rightarrow> hash \<Rightarrow> hash list \<Rightarrow> bool" where
  "sp_chain m x [] = False"
| "sp_chain m x (y # ys) \<longleftrightarrow> x = y \<and>
     (if x = gm_genesis m then ys = []
      else x \<noteq> ORIGIN \<and> (case gm_store m x of None \<Rightarrow> False | Some d \<Rightarrow> sp_chain m (gd_selected_parent d) ys))"

lemma sp_chain_suffix: "sp_chain m z (pre @ x # ys) \<Longrightarrow> sp_chain m x (x # ys)"
proof (induction pre arbitrary: z)
  case Nil
  then show ?case by (auto split: if_splits)
next
  case (Cons y pre)
  from Cons.prems obtain d :: ghostdag_data where "sp_chain m (gd_selected_parent d) (pre @ x # ys)"
    by (auto split: if_splits option.splits)
  then show ?case by (rule Cons.IH)
qed

text \<open>What coloring relies on in the stored data of every block.\<close>

definition color_inv :: "(hash \<Rightarrow> hash set) \<Rightarrow> hash \<Rightarrow> gd_manager \<Rightarrow> bool" where
  "color_inv G r m \<longleftrightarrow> gd_inv G r m \<and> gm_k m + 1 < 2 ^ 16 \<and> gm_genesis m \<in> blocks (gm_reach m) \<and>
     (\<forall>x d. gm_store m x = Some d \<longrightarrow> set (gd_mergeset_blues d) \<subseteq> blocks (gm_reach m) \<inter> dom (gd_anticone_sizes d) \<and>
        (\<forall>b s. gd_anticone_sizes d b = Some s \<longrightarrow> s \<le> gm_k m))"

lemma color_invD:
  assumes "color_inv G r m"
  shows "gd_inv G r m" "gm_k m + 1 < 2 ^ 16" "gm_genesis m \<in> blocks (gm_reach m)"
    "gm_store m x = Some d \<Longrightarrow> b \<in> set (gd_mergeset_blues d) \<Longrightarrow> b \<in> blocks (gm_reach m)"
    "gm_store m x = Some d \<Longrightarrow> b \<in> set (gd_mergeset_blues d) \<Longrightarrow> gd_anticone_sizes d b \<noteq> None"
    "gm_store m x = Some d \<Longrightarrow> gd_anticone_sizes d b = Some s \<Longrightarrow> s \<le> gm_k m"
  using assms unfolding color_inv_def by blast+

text \<open>A blue block of the chain is found before the walk ends.\<close>

lemma blue_anticone_loop_found:
  assumes inv: "color_inv G r m" and "sp_chain m sp (pre @ x # ys)" and "x \<noteq> gm_genesis m"
    and "gm_store m x = Some d" and "b \<in> set (gd_mergeset_blues d)" and "\<forall>b s. S b = Some s \<longrightarrow> s \<le> gm_k m"
    and "length pre + 2 \<le> n"
  shows "\<exists>s. blue_anticone_loop n m b S sp = Inr s \<and> s \<le> gm_k m"
  using assms(2,6,7)
proof (induction pre arbitrary: n sp S)
  case Nil
  obtain n' where n: "n = Suc (Suc n')" using Nil(3) by (metis One_nat_def Suc_1 add_0 le_Suc_ex list.size(3) plus_nat.simps(2))
  from Nil(1) have sp: "sp = x" "x \<noteq> ORIGIN" using assms(3) by (auto split: if_splits)
  obtain s where s: "gd_anticone_sizes d b = Some s" using color_invD(5) [OF inv assms(4,5)] by auto
  show ?case
    using Nil(2) sp s assms(3,4) color_invD(6) [OF inv assms(4) s]
    by (cases "S b") (auto simp: n gd_get_data_def)
next
  case (Cons y pre)
  obtain n' where n: "n = Suc n'" using Cons.prems(3) by (cases n) auto
  from Cons.prems(1) obtain dy where y: "sp = y" "y \<noteq> gm_genesis m" "y \<noteq> ORIGIN" "gm_store m y = Some dy"
    "sp_chain m (gd_selected_parent dy) (pre @ x # ys)" by (auto split: if_splits option.splits)
  show ?case
  proof (cases "S b")
    case None
    have "\<exists>s. blue_anticone_loop n' m b (gd_anticone_sizes dy) (gd_selected_parent dy) = Inr s \<and> s \<le> gm_k m"
      by (rule Cons.IH [OF y(5)]) (use color_invD(6) [OF inv y(4)] Cons.prems(3) n in auto)
    with None y n show ?thesis by (auto simp: gd_get_data_def)
  next
    case (Some s)
    with Cons.prems(2) n show ?thesis by auto
  qed
qed

lemma check_peers_total:
  assumes inv: "color_inv G r m" and c: "c \<in> blocks (gm_reach m)" and k: "k = gm_k m"
    and "\<forall>p \<in> set peers. p \<in> blocks (gm_reach m) \<and> (\<exists>s. blue_anticone_size fuel m p nd = Inr s \<and> s \<le> k)" and "n \<le> k"
  shows "\<exists>state sizes' n'. check_peers fuel m nd c k peers sizes n = Inr (state, sizes', n') \<and>
    state \<noteq> StateBlue \<and> (state \<noteq> StateRed \<longrightarrow> n' \<le> k)"
  using assms(4,5)
proof (induction peers arbitrary: sizes n)
  case Nil
  then show ?case by simp
next
  case (Cons p peers)
  have p: "p \<in> blocks (gm_reach m)" using Cons.prems(1) by simp
  obtain s where s: "blue_anticone_size fuel m p nd = Inr s" "s \<le> k" using Cons.prems(1) by auto
  have q: "dag_ancestor m p c = Inr (dag_reach G p c)" by (rule gd_query [OF color_invD(1) [OF inv] p c])
  have add: "add16 n 1 = Inr (n + 1)" using Cons.prems(2) color_invD(2) [OF inv] k by simp
  show ?case
  proof (cases "dag_reach G p c")
    case True
    with q Cons.IH [of n sizes] Cons.prems show ?thesis by simp
  next
    case False
    show ?thesis
    proof (cases "k < n + 1 \<or> s = k")
      case True
      with False q s add show ?thesis by (auto simp del: One_nat_def)
    next
      case go: False
      have "check_peers fuel m nd c k (p # peers) sizes n = check_peers fuel m nd c k peers (AList.update p s sizes) (n + 1)"
        using go False q s add by (simp del: One_nat_def)
      with Cons.IH [of "n + 1" "AList.update p s sizes"] Cons.prems go show ?thesis by simp
    qed
  qed
qed

lemma candidate_loop_total:
  assumes inv: "color_inv G r m" and c: "c \<in> blocks (gm_reach m)" and gen: "dag_reach G (gm_genesis m) c"
    and nd: "\<forall>b s. gd_anticone_sizes nd b = Some s \<longrightarrow> s \<le> gm_k m"
    and chain: "sp_chain m (gd_selected_parent nd) (pre @ x # ys)" and "gm_store m x = Some d"
    and "x \<in> blocks (gm_reach m)" and "set ys \<subseteq> blocks (gm_reach m)"
    and "length (x # ys) \<le> n" and fuel: "length (pre @ x # ys) + 2 \<le> fuel" and "a \<le> gm_k m"
  shows "\<exists>out. candidate_loop n fuel m nd (Some x) d c (gm_k m) sizes a = Inr out"
  using assms(5-)
proof (induction n arbitrary: pre x ys d sizes a)
  case 0
  then show ?case by simp
next
  case (Suc n)
  note inv' = color_invD(1) [OF inv]
  have q: "dag_ancestor m x c = Inr (dag_reach G x c)" by (rule gd_query [OF inv' Suc.prems(3) c])
  show ?case
  proof (cases "dag_reach G x c")
    case True
    with q show ?thesis by (simp add: check_blue_candidate_with_chain_block_def)
  next
    case False
    then have xg: "x \<noteq> gm_genesis m" using gen by auto
    have "\<forall>p \<in> set (gd_mergeset_blues d). p \<in> blocks (gm_reach m) \<and>
        (\<exists>s. blue_anticone_size fuel m p nd = Inr s \<and> s \<le> gm_k m)"
      using blue_anticone_loop_found [OF inv Suc.prems(1) xg Suc.prems(2) _ nd] color_invD(4) [OF inv Suc.prems(2)]
        Suc.prems(6) unfolding blue_anticone_size_def by auto
    from check_peers_total [OF inv c refl this Suc.prems(7), of sizes] obtain state sz a' where
      cp: "check_peers fuel m nd c (gm_k m) (gd_mergeset_blues d) sizes a = Inr (state, sz, a')"
      "state \<noteq> StateBlue" "state \<noteq> StateRed \<longrightarrow> a' \<le> gm_k m" by blast
    have "\<exists>x' ys' d'. ys = x' # ys' \<and> gd_selected_parent d = x' \<and> gm_store m x' = Some d'"
    proof -
      have tail: "sp_chain m x (x # ys)"
        by (rule sp_chain_suffix [OF Suc.prems(1)])
      then have "sp_chain m (gd_selected_parent d) ys" using xg Suc.prems(2) by simp
      then obtain x' ys' where ys: "ys = x' # ys'" "gd_selected_parent d = x'" by (cases ys) auto
      have "x' \<in> blocks (gm_reach m)" using Suc.prems(4) ys by simp
      from gd_invD(3) [OF inv' this] obtain d' where "gm_store m x' = Some d'" by auto
      with ys show ?thesis by auto
    qed
    then obtain x' ys' d' where nx: "ys = x' # ys'" "gd_selected_parent d = x'" "gm_store m x' = Some d'" by blast
    show ?thesis
    proof (cases state)
      case StatePending
      have "\<exists>out. candidate_loop n fuel m nd (Some x') d' c (gm_k m) sz a' = Inr out"
        by (rule Suc.IH [of "pre @ [x]" x' ys']) (use Suc.prems nx cp StatePending in auto)
      with StatePending q False cp nx show ?thesis
        by (simp add: check_blue_candidate_with_chain_block_def gd_get_data_def)
    qed (use q False cp in \<open>simp_all add: check_blue_candidate_with_chain_block_def\<close>)
  qed
qed

lemma color_candidate_total:
  assumes inv: "color_inv G r m" and ok: "data_ok (gm_k m) sp d" and blues: "set (gd_mergeset_blues d) \<subseteq> blocks (gm_reach m)"
    and c: "c \<in> blocks (gm_reach m)" "dag_reach G (gm_genesis m) c"
    and chain: "sp_chain m sp ch" "set ch \<subseteq> blocks (gm_reach m)" and fuel: "length ch + 2 \<le> fuel"
  shows "\<exists>d'. color_candidate fuel m (gm_k m) d c = Inr d'"
proof -
  let ?k = "gm_k m"
  note k1 = color_invD(2) [OF inv]
  have D: "gd_selected_parent d = sp" "set (gd_mergeset_blues d) \<subseteq> dom (gd_anticone_sizes d)"
    "\<forall>b s. gd_anticone_sizes d b = Some s \<longrightarrow> s \<le> ?k"
    using ok by (auto simp: data_ok_def)
  obtain n where n: "fuel = Suc n" using fuel by (cases fuel) auto
  obtain ys where ch: "ch = sp # ys" using chain(1) by (cases ch) auto
  obtain spd where spd: "gm_store m sp = Some spd"
    using gd_invD(3) [OF color_invD(1) [OF inv], of sp] chain(2) unfolding ch by (cases "gm_store m sp") simp_all
  have "\<exists>out. candidate_loop fuel fuel m d None d c ?k [] 0 = Inr out"
  proof -
    have "\<forall>p \<in> set (gd_mergeset_blues d). p \<in> blocks (gm_reach m) \<and>
        (\<exists>s. blue_anticone_size fuel m p d = Inr s \<and> s \<le> ?k)"
    proof
      fix p assume p: "p \<in> set (gd_mergeset_blues d)"
      then obtain s where "gd_anticone_sizes d p = Some s" using D(2) by blast
      then have "blue_anticone_size fuel m p d = Inr s" "s \<le> ?k"
        using D(3) by (simp_all add: blue_anticone_size_def n)
      with p blues show "p \<in> blocks (gm_reach m) \<and> (\<exists>s. blue_anticone_size fuel m p d = Inr s \<and> s \<le> ?k)"
        by blast
    qed
    from check_peers_total [OF inv c(1) refl this le0, of "[]"] obtain state sz a where
      cp: "check_peers fuel m d c ?k (gd_mergeset_blues d) [] 0 = Inr (state, sz, a)"
      "state \<noteq> StateBlue" "state \<noteq> StateRed \<longrightarrow> a \<le> ?k" by blast
    show ?thesis
    proof (cases state)
      case StatePending
      have "\<exists>out. candidate_loop n fuel m d (Some sp) spd c ?k sz a = Inr out"
        by (rule candidate_loop_total [OF inv c D(3), where pre = "[]" and ys = ys])
          (use chain ch spd D(1) fuel n cp StatePending in simp_all)
      with StatePending cp spd D(1) show ?thesis
        by (simp add: n check_blue_candidate_with_chain_block_def gd_get_data_def)
    next
      case StateBlue
      with cp(2) show ?thesis by simp
    next
      case StateRed
      with cp(1) have "candidate_loop (Suc n) fuel m d None d c ?k [] 0 = Inr OutRed"
        by (simp add: check_blue_candidate_with_chain_block_def)
      then show ?thesis unfolding n [symmetric] by (rule exI)
    qed
  qed
  then obtain out0 where out0: "candidate_loop fuel fuel m d None d c ?k [] 0 = Inr out0" by (elim exE)
  have ck: "check_blue_candidate fuel m d c ?k =
      (if length (gd_mergeset_blues d) mod 2 ^ 16 = ?k + 1 then Inr OutRed else Inr out0)"
    unfolding check_blue_candidate_def out0 using k1 by simp
  then obtain out where out: "check_blue_candidate fuel m d c ?k = Inr out" by (simp split: if_splits)
  show ?thesis
  proof (cases out)
    case OutRed
    with out show ?thesis by (simp add: color_candidate_def)
  next
    case (OutBlue a al)
    have "candidate_loop fuel fuel m d None d c ?k [] 0 = Inr (OutBlue a al)"
      using out ck out0 OutBlue by (simp split: if_splits)
    from candidate_loop_bounds [OF this] have "a \<le> ?k" "\<forall>(b, s) \<in> set al. s < ?k" by simp_all
    from add_blue_ok [OF k1 this(2,1) D(3), of c] out OutBlue show ?thesis
      by (elim exE conjE) (simp add: color_candidate_def)
  qed
qed

lemma color_all_total:
  assumes inv: "color_inv G r m" and "data_ok (gm_k m) sp d" and "set (gd_mergeset_blues d) \<subseteq> blocks (gm_reach m)"
    and "\<forall>c \<in> set L. c \<in> blocks (gm_reach m) \<and> dag_reach G (gm_genesis m) c"
    and chain: "sp_chain m sp ch" "set ch \<subseteq> blocks (gm_reach m)" and fuel: "length ch + 2 \<le> fuel"
  shows "\<exists>d'. rfold (color_candidate fuel m (gm_k m)) d L = Inr d'"
  using assms(2-4)
proof (induction L arbitrary: d)
  case Nil
  then show ?case by simp
next
  case (Cons c L)
  obtain d1 where d1: "color_candidate fuel m (gm_k m) d c = Inr d1"
    using color_candidate_total [OF inv Cons.prems(1,2) _ _ chain fuel, of c] Cons.prems(3) by auto
  note C = color_candidate_cases [OF d1 Cons.prems(1)]
  have "\<exists>d'. rfold (color_candidate fuel m (gm_k m)) d1 L = Inr d'"
    by (rule Cons.IH) (use C Cons.prems in auto)
  with d1 show ?case by simp
qed

section \<open>What the protocol computes\<close>

text \<open>
  The specification of the result: the selected parent is the greatest parent,
  the ordered mergeset is interleaved from blues and reds, and the sizes are
  bounded by \<open>k\<close>.
\<close>

definition ghostdag_spec :: "(hash \<Rightarrow> hash set) \<Rightarrow> gd_manager \<Rightarrow> hash list \<Rightarrow> ghostdag_data \<Rightarrow> hash list \<Rightarrow> bool" where
  "ghostdag_spec G m ps d L \<longleftrightarrow>
     gd_selected_parent d \<in> set ps \<and> (\<forall>p \<in> set ps. key_of m p \<le> key_of m (gd_selected_parent d)) \<and>
     set L = dag_mergeset G (gd_selected_parent d) (set ps) \<and> sorted_wrt (\<lambda>a b. key_of m a < key_of m b) L \<and>
     data_ok (gm_k m) (gd_selected_parent d) d \<and>
     L \<in> shuffles (drop 1 (gd_mergeset_blues d)) (gd_mergeset_reds d) \<and>
     gd_blue_score d = gd_blue_score (the (gm_store m (gd_selected_parent d))) + length (gd_mergeset_blues d)"

lemma new_data_ok:
  assumes "gd_new_with_selected_parent sp k = Inr d"
  shows "data_ok k sp d" "gd_mergeset_blues d = [sp]" "gd_mergeset_reds d = []"
  using assms unfolding gd_new_with_selected_parent_def
  by (auto elim!: rbind_InrE simp: data_ok_def split: if_splits)

lemma data_ok_finalize: "data_ok k sp (finalize_score_and_work d s w) = data_ok k sp d"
  by (simp add: data_ok_def finalize_score_and_work_def)

lemma ghostdag_correct:
  assumes inv: "color_inv G r m" and ps: "ps \<noteq> []" "set ps \<subseteq> blocks (gm_reach m)" "ORIGIN \<notin> set ps"
    and antichain: "\<And>p q. p \<in> set ps \<Longrightarrow> q \<in> set ps \<Longrightarrow> p \<noteq> q \<Longrightarrow> \<not> dag_reach G p q"
    and gen: "\<And>p x. p \<in> set ps \<Longrightarrow> dag_reach G x p \<Longrightarrow> dag_reach G (gm_genesis m) x \<or> dag_reach G x (gm_genesis m)"
    and gen_sp: "\<And>p. p \<in> set ps \<Longrightarrow> dag_reach G (gm_genesis m) p"
    and chain: "\<And>p. p \<in> set ps \<Longrightarrow> \<exists>ch. sp_chain m p ch \<and> set ch \<subseteq> blocks (gm_reach m) \<and> length ch + 2 \<le> fuel"
    and fuel: "length ps + card (blocks (gm_reach m)) \<le> fuel"
    and score: "\<And>p d. gm_store m p = Some d \<Longrightarrow> gd_blue_score d + gm_k m + 1 < 2 ^ 64"
    and work: "\<And>x. dag_reach G (gm_genesis m) x \<Longrightarrow> x \<in> blocks (gm_reach m) \<Longrightarrow> \<exists>w. blue_work_of m x = Inr w"
  shows "\<exists>d L. ghostdag fuel m ps = Inr d \<and> ghostdag_spec G m ps d L"
proof -
  note inv' = color_invD(1) [OF inv]
  have stored: "\<forall>p \<in> set ps. gm_store m p \<noteq> None" using ps(2) gd_invD(3) [OF inv'] by blast
  obtain sp where sp: "find_selected_parent m ps = Inr sp" "sp \<in> set ps" "\<forall>p \<in> set ps. key_of m p \<le> key_of m sp"
    by (rule find_selected_parent_max [OF stored ps(1)])
  have spo: "sp \<noteq> ORIGIN" "sp \<in> blocks (gm_reach m)" using sp(2) ps(2,3) by auto
  obtain L where L: "ordered_mergeset_without_selected_parent fuel m sp ps = Inr L"
    "set L = dag_mergeset G sp (set ps)" "distinct L" "sorted_wrt (\<lambda>a b. key_of m a < key_of m b) L"
    "set L \<subseteq> blocks (gm_reach m)"
    by (rule ordered_mergeset_ok [OF inv' ps(2) sp(2) antichain [OF _ sp(2)] fuel])
  have Lgen: "dag_reach G (gm_genesis m) x" if xL: "x \<in> set L" for x
  proof -
    obtain p where p: "p \<in> set ps" "dag_reach G x p" "\<not> dag_reach G x sp"
      using xL unfolding L(2) dag_mergeset_def by blast
    from gen [OF p(1,2)] store_reach.reach_trans [OF _ gen_sp [OF sp(2)], of x] p(3)
    show ?thesis by (elim disjE) simp_all
  qed
  obtain d0 where d0: "gd_new_with_selected_parent sp (gm_k m) = Inr d0"
    using color_invD(2) [OF inv] by (simp add: gd_new_with_selected_parent_def)
  note D0 = new_data_ok [OF d0]
  obtain ch where ch: "sp_chain m sp ch" "set ch \<subseteq> blocks (gm_reach m)" "length ch + 2 \<le> fuel"
    using chain [OF sp(2)] by blast
  have "\<forall>c \<in> set L. c \<in> blocks (gm_reach m) \<and> dag_reach G (gm_genesis m) c" using L(5) Lgen by blast
  moreover have "set (gd_mergeset_blues d0) \<subseteq> blocks (gm_reach m)" using D0(2) spo(2) by simp
  ultimately obtain d where d: "rfold (color_candidate fuel m (gm_k m)) d0 L = Inr d"
    using color_all_total [OF inv D0(1) _ _ ch, of L] by blast
  from color_all_partition [OF d D0(1)] obtain bs rs where
    P: "data_ok (gm_k m) sp d" "gd_mergeset_blues d = sp # bs" "gd_mergeset_reds d = rs" "L \<in> shuffles bs rs"
    using D0(2,3) by auto
  obtain spd where spd: "gm_store m sp = Some spd" using stored sp(2) by blast
  have "gd_blue_score spd + length (gd_mergeset_blues d) < 2 ^ 64"
    using score [OF spd] P(1) by (simp add: data_ok_def)
  then have sc: "add64 (gd_blue_score spd) (length (gd_mergeset_blues d)) =
      (Inr (gd_blue_score spd + length (gd_mergeset_blues d)) :: (unit, _) res)" by (rule add64_Inr)
  have "\<exists>w. blue_work_of m b = Inr w" if "b \<in> set (gd_mergeset_blues d)" for b
  proof (rule work)
    have b: "b = sp \<or> b \<in> set L" using that P(2) set_shuffles [OF P(4)] by auto
    then show "dag_reach G (gm_genesis m) b" using gen_sp [OF sp(2)] Lgen by blast
    show "b \<in> blocks (gm_reach m)" using b spo(2) L(5) by blast
  qed
  then have "\<forall>b \<in> set (gd_mergeset_blues d). \<exists>w. blue_work_of m b = Inr w" by blast
  then obtain g where "\<forall>b \<in> set (gd_mergeset_blues d). blue_work_of m b = Inr (g b)" by (rule bchoice [elim_format]) blast
  then have ws: "rmap (blue_work_of m) (gd_mergeset_blues d) = Inr (map g (gd_mergeset_blues d))"
    by (intro rmap_total) simp
  define d' where "d' = finalize_score_and_work d (gd_blue_score spd + length (gd_mergeset_blues d))
    (gd_blue_work spd + sum_list (map g (gd_mergeset_blues d)))"
  have "ghostdag fuel m ps = Inr d'"
    using ps(1) sp(1) spo(1) d0 L(1) d sc ws spd by (simp add: ghostdag_def Let_def d'_def gd_get_data_def)
  moreover have "ghostdag_spec G m ps d' L"
    unfolding ghostdag_spec_def using sp(2,3) L(2,4) P spd
    by (intro conjI) (simp_all add: d'_def data_ok_def finalize_score_and_work_def)
  ultimately show ?thesis by blast
qed

end
