(* ===== verification/ReachSession.thy ===== *)
theory ReachSession
  imports ReindexInv
begin

text \<open>
  The reachability service over a sequence of calls: \<^verbatim>\<open>init\<close> followed by any number
  of \<^verbatim>\<open>add_block\<close>s, as \<^verbatim>\<open>HeaderProcessor::commit_header\<close> issues them.  Rule
  induction over the calls shows that no call fails and that the queries stay
  exact.  The second half holds an example store for concrete instances.
\<close>

section \<open>The initial store\<close>

definition init_store :: reach_store where
  "init_store = \<lparr>rs_map = [ORIGIN \<mapsto> reach_data_new NONE interval_maximal 0], rs_reindex_root = Some ORIGIN\<rparr>"

lemma ORIGIN_not_NONE [simp]: "ORIGIN \<noteq> NONE" "NONE \<noteq> ORIGIN"
  by (simp_all add: ORIGIN_def NONE_def)

lemma reach_init_new: "reach_init reach_store_new = Inr init_store"
  by (simp add: reach_init_def init_with_params_def store_has_def reach_store_new_def store_init_def
      store_insert_def set_reindex_root_def init_store_def)

lemma init_store_sel [simp]:
  "blocks init_store = {ORIGIN}" "ivl init_store ORIGIN = interval_maximal" "kids init_store ORIGIN = []"
  "par init_store ORIGIN = NONE" "hgt init_store ORIGIN = 0" "fcs init_store ORIGIN = []"
  "rs_reindex_root init_store = Some ORIGIN"
  by (auto simp: init_store_def the_data_def reach_data_new_def split: if_splits)

lemma init_store_tree: "tree_inv ORIGIN init_store"
  using iv_wf_maximal
  by (simp add: tree_inv_def shape_inv_def node_ok_def del: domIff) (simp add: iv_len_def interval_maximal_def u64_max_def)

lemma dag_reach_unfold: "dag_reach G a b \<longleftrightarrow> a = b \<or> (\<exists>p \<in> G b. dag_reach G a p)"
proof
  assume "dag_reach G a b"
  then show "a = b \<or> (\<exists>p \<in> G b. dag_reach G a p)"
    unfolding dag_reach_def by (cases rule: rtranclE) (auto simp: dag_rel_def)
next
  assume "a = b \<or> (\<exists>p \<in> G b. dag_reach G a p)"
  then show "dag_reach G a b"
    unfolding dag_reach_def by (auto simp: dag_rel_def intro: rtrancl.rtrancl_into_rtrancl)
qed

lemma init_store_covering: "covering_inv (\<lambda>_. {}) init_store"
  using dag_reach_unfold [of "\<lambda>_. {}" ORIGIN ORIGIN]
  by (simp add: covering_inv_def ordered_def del: domIff)

section \<open>Sequences of calls\<close>

text \<open>
  The mergeset that the caller passes: the past of the parents \<open>ps\<close> that the
  selected parent does not reach, in any order.
\<close>

definition merges :: "(hash \<Rightarrow> hash set) \<Rightarrow> hash set \<Rightarrow> hash \<Rightarrow> hash list \<Rightarrow> bool" where
  "merges G ps sp ms \<longleftrightarrow> distinct ms \<and> set ms = {x. (\<exists>p \<in> ps. dag_reach G x p) \<and> \<not> dag_reach G x sp}"

inductive session :: "nat \<Rightarrow> (hash \<Rightarrow> hash set) \<Rightarrow> reach_store \<Rightarrow> bool" for fuel where
  init: "reach_init reach_store_new = Inr st \<Longrightarrow> session fuel (\<lambda>_. {}) st"
| add: "session fuel G st \<Longrightarrow> b \<notin> blocks st \<Longrightarrow> b \<noteq> NONE \<Longrightarrow> ps \<subseteq> blocks st \<Longrightarrow> sp \<in> ps \<Longrightarrow> merges G ps sp ms \<Longrightarrow>
    card (blocks st) < 2 ^ 63 \<Longrightarrow> card (blocks st) < fuel \<Longrightarrow>
    add_block fuel st b sp ms = Inr st' \<Longrightarrow> session fuel (G(b := ps)) st'"

definition service_inv :: "(hash \<Rightarrow> hash set) \<Rightarrow> reach_store \<Rightarrow> bool" where
  "service_inv G st \<longleftrightarrow> tree_inv ORIGIN st \<and> covering_inv G st \<and> rs_reindex_root st = Some ORIGIN \<and>
     ivl st ORIGIN = interval_maximal \<and> (\<forall>x \<in> blocks st. hgt st x < card (blocks st))"

lemma service_invD:
  assumes "service_inv G st"
  shows "tree_inv ORIGIN st" "covering_inv G st" "rs_reindex_root st = Some ORIGIN"
    "ivl st ORIGIN = interval_maximal" "x \<in> blocks st \<Longrightarrow> hgt st x < card (blocks st)"
  using assms unfolding service_inv_def by blast+

lemma service_inv_init: "service_inv (\<lambda>_. {}) init_store"
  by (simp add: service_inv_def init_store_tree init_store_covering del: domIff)

lemma merges_blocks:
  assumes "covering_inv G st" and "ps \<subseteq> blocks st" and "merges G ps sp ms"
  shows "set ms = {x \<in> blocks st. (\<exists>p \<in> ps. dag_reach G x p) \<and> \<not> dag_reach G x sp}"
  using assms dag_reach_closed [of "blocks st" G] covering_invD(1) [OF assms(1)]
  unfolding merges_def by blast

text \<open>The tree part of an \<^verbatim>\<open>add_block\<close> call, as the next lemmas use it.\<close>

lemma leaf_added_frame:
  assumes "leaf_added r st b p st'" and "p \<in> blocks st" and "b \<notin> blocks st"
  shows "rs_reindex_root st' = rs_reindex_root st" "ivl st' r = ivl st r"
    "hgt st' x = (if x = b then hgt st p + 1 else hgt st x)"
  using assms by (auto simp: leaf_added_def same_shape_def)

lemma add_block_service:
  assumes inv: "service_inv G st" and b: "b \<notin> blocks st" "b \<noteq> NONE" and ps: "ps \<subseteq> blocks st" "sp \<in> ps"
    and ms: "merges G ps sp ms" and small: "card (blocks st) < 2 ^ 63" "card (blocks st) < fuel"
  shows "\<exists>st'. add_block fuel st b sp ms = Inr st' \<and> service_inv (G(b := ps)) st' \<and> blocks st' = insert b (blocks st)"
proof -
  note S = service_invD [OF inv]
  note shape = tree_invD(1) [OF S(1)]
  have sp: "sp \<in> blocks st" using ps by blast
  have cap: "tsize st ORIGIN < iv_len (ivl st ORIGIN)"
    using tsize_le [OF shape shape_invD(2) [OF shape]] small(1) S(4)
    by (simp add: iv_len_def interval_maximal_def u64_max_def)
  have h: "hgt st sp + 1 < 2 ^ 64" using S(5) [OF sp] small(1) by simp
  obtain st1 where st1: "add_tree_block fuel st b sp DEFAULT_REINDEX_DEPTH DEFAULT_REINDEX_SLACK = Inr st1"
    "leaf_added ORIGIN st b sp st1"
    using add_tree_block_leaf [OF S(1) sp b h S(3) shape_invD(2) [OF shape] anc_root [OF shape sp] cap,
        of fuel DEFAULT_REINDEX_DEPTH DEFAULT_REINDEX_SLACK] small by auto
  obtain st' where st': "add_dag_block st1 b ms = Inr st'" "tree_inv ORIGIN st'" "covering_inv (G(b := ps)) st'"
    "blocks st' = insert b (blocks st)" "same_tree st1 st'"
    using add_dag_block_covering [OF S(1,2) b(1) ps _ merges_blocks [OF S(2) ps(1) ms] st1(2)] ms
    unfolding merges_def by blast
  have run: "add_block fuel st b sp ms = Inr st'"
    by (simp add: add_block_def add_block_with_params_def st1(1) st'(1))
  note F = leaf_added_frame [OF st1(2) sp b(1)]
  have "card (blocks st') = Suc (card (blocks st))"
    using st'(4) b(1) shape_invD(1) [OF shape] by simp
  moreover have "rs_reindex_root st' = Some ORIGIN" "ivl st' ORIGIN = interval_maximal"
    "hgt st' x = (if x = b then hgt st sp + 1 else hgt st x)" for x
    using st'(5) F S(3,4) by (auto simp: same_tree_def)
  ultimately have "service_inv (G(b := ps)) st'"
    unfolding service_inv_def using st'(2-4) S(5) [OF sp] S(5) by (auto simp: less_Suc_eq simp del: domIff)
  with run st'(4) show ?thesis by blast
qed

lemma session_service: "session fuel G st \<Longrightarrow> service_inv G st"
proof (induction rule: session.induct)
  case (init st)
  then show ?case using reach_init_new service_inv_init by simp
next
  case (add G st b ps sp ms st')
  from add_block_service [OF add.IH add.hyps(2-8)] add.hyps(9) show ?case by (auto simp: fun_upd_def)
qed

section \<open>An example store\<close>

text \<open>
  Five blocks: the origin, block 1 below it, blocks 2 and 3 below block 1, and
  block 4 with parents 2 and 3 and selected parent 2, so block 3 has block 4 in
  its covering set.
\<close>

definition ex_store :: reach_store where
  "ex_store = \<lparr>rs_map = [
     ORIGIN \<mapsto> \<lparr>rd_children = [1], rd_parent = NONE, rd_interval = interval_new 1 100, rd_height = 0, rd_fcs = []\<rparr>,
     1 \<mapsto> \<lparr>rd_children = [2, 3], rd_parent = ORIGIN, rd_interval = interval_new 1 50, rd_height = 1, rd_fcs = []\<rparr>,
     2 \<mapsto> \<lparr>rd_children = [4], rd_parent = 1, rd_interval = interval_new 1 25, rd_height = 2, rd_fcs = []\<rparr>,
     3 \<mapsto> \<lparr>rd_children = [], rd_parent = 1, rd_interval = interval_new 26 37, rd_height = 2, rd_fcs = [4]\<rparr>,
     4 \<mapsto> \<lparr>rd_children = [], rd_parent = 2, rd_interval = interval_new 1 12, rd_height = 3, rd_fcs = []\<rparr>],
   rs_reindex_root = Some ORIGIN\<rparr>"

definition ex_dag :: "hash \<Rightarrow> hash set" where
  "ex_dag = (\<lambda>_. {})(1 := {ORIGIN}, 2 := {1}, 3 := {1}, 4 := {2, 3})"

lemma ex_hashes [simp]:
  "ORIGIN \<noteq> 1" "ORIGIN \<noteq> 2" "ORIGIN \<noteq> 3" "ORIGIN \<noteq> 4" "1 \<noteq> ORIGIN" "2 \<noteq> ORIGIN" "3 \<noteq> ORIGIN" "4 \<noteq> ORIGIN"
  "NONE \<noteq> 1" "NONE \<noteq> 2" "NONE \<noteq> 3" "NONE \<noteq> 4"
  by (simp_all add: ORIGIN_def NONE_def)

lemma ex_blocks [simp]: "blocks ex_store = {ORIGIN, 1, 2, 3, 4}"
  by (auto simp: ex_store_def split: if_splits)

lemma ex_data [simp]:
  "the_data ex_store ORIGIN = \<lparr>rd_children = [1], rd_parent = NONE, rd_interval = interval_new 1 100, rd_height = 0, rd_fcs = []\<rparr>"
  "the_data ex_store 1 = \<lparr>rd_children = [2, 3], rd_parent = ORIGIN, rd_interval = interval_new 1 50, rd_height = 1, rd_fcs = []\<rparr>"
  "the_data ex_store 2 = \<lparr>rd_children = [4], rd_parent = 1, rd_interval = interval_new 1 25, rd_height = 2, rd_fcs = []\<rparr>"
  "the_data ex_store 3 = \<lparr>rd_children = [], rd_parent = 1, rd_interval = interval_new 26 37, rd_height = 2, rd_fcs = [4]\<rparr>"
  "the_data ex_store 4 = \<lparr>rd_children = [], rd_parent = 2, rd_interval = interval_new 1 12, rd_height = 3, rd_fcs = []\<rparr>"
  by (simp_all add: ex_store_def the_data_def)

lemma ex_in_blocks [simp]:
  "ORIGIN \<in> blocks ex_store" "1 \<in> blocks ex_store" "2 \<in> blocks ex_store" "3 \<in> blocks ex_store" "4 \<in> blocks ex_store"
  unfolding ex_blocks by simp_all

lemma ex_shape: "shape_inv ORIGIN ex_store"
  unfolding shape_inv_def ex_blocks by simp

lemma ex_tree: "tree_inv ORIGIN ex_store"
  unfolding tree_inv_def ex_blocks
  by (simp add: ex_shape node_ok_def iv_wf_def iv_len_def u64_max_def)

lemma ex_anc [simp]:
  "anc ex_store a ORIGIN \<longleftrightarrow> a = ORIGIN" "anc ex_store a 1 \<longleftrightarrow> a = 1 \<or> a = ORIGIN"
  "anc ex_store a 2 \<longleftrightarrow> a = 2 \<or> a = 1 \<or> a = ORIGIN" "anc ex_store a 3 \<longleftrightarrow> a = 3 \<or> a = 1 \<or> a = ORIGIN"
  "anc ex_store a 4 \<longleftrightarrow> a = 4 \<or> a = 2 \<or> a = 1 \<or> a = ORIGIN"
proof -
  note step = anc_of_child [OF ex_shape]
  show o: "anc ex_store a ORIGIN \<longleftrightarrow> a = ORIGIN" for a
    using anc_last [of ex_store a ORIGIN] unfolding ex_blocks by auto
  show one: "anc ex_store a 1 \<longleftrightarrow> a = 1 \<or> a = ORIGIN" for a using step [of ORIGIN 1 a] o by simp
  show two: "anc ex_store a 2 \<longleftrightarrow> a = 2 \<or> a = 1 \<or> a = ORIGIN" for a using step [of 1 2 a] one by simp
  show "anc ex_store a 3 \<longleftrightarrow> a = 3 \<or> a = 1 \<or> a = ORIGIN" using step [of 1 3 a] one by simp
  show "anc ex_store a 4 \<longleftrightarrow> a = 4 \<or> a = 2 \<or> a = 1 \<or> a = ORIGIN" using step [of 2 4 a] two by simp
qed

lemma ex_reach [simp]:
  "dag_reach ex_dag a ORIGIN \<longleftrightarrow> a = ORIGIN" "dag_reach ex_dag a 1 \<longleftrightarrow> a = 1 \<or> a = ORIGIN"
  "dag_reach ex_dag a 2 \<longleftrightarrow> a = 2 \<or> a = 1 \<or> a = ORIGIN" "dag_reach ex_dag a 3 \<longleftrightarrow> a = 3 \<or> a = 1 \<or> a = ORIGIN"
  "dag_reach ex_dag a 4 \<longleftrightarrow> a = 4 \<or> a = 3 \<or> a = 2 \<or> a = 1 \<or> a = ORIGIN"
proof -
  have G: "ex_dag ORIGIN = {}" "ex_dag 1 = {ORIGIN}" "ex_dag 2 = {1}" "ex_dag 3 = {1}" "ex_dag 4 = {2, 3}"
    by (simp_all add: ex_dag_def)
  show o: "dag_reach ex_dag a ORIGIN \<longleftrightarrow> a = ORIGIN" for a using dag_reach_unfold [of ex_dag a ORIGIN] G by simp
  show one: "dag_reach ex_dag a 1 \<longleftrightarrow> a = 1 \<or> a = ORIGIN" for a using dag_reach_unfold [of ex_dag a 1] G o by simp
  show two: "dag_reach ex_dag a 2 \<longleftrightarrow> a = 2 \<or> a = 1 \<or> a = ORIGIN" for a using dag_reach_unfold [of ex_dag a 2] G one by simp
  show three: "dag_reach ex_dag a 3 \<longleftrightarrow> a = 3 \<or> a = 1 \<or> a = ORIGIN" for a using dag_reach_unfold [of ex_dag a 3] G one by simp
  show "dag_reach ex_dag a 4 \<longleftrightarrow> a = 4 \<or> a = 3 \<or> a = 2 \<or> a = 1 \<or> a = ORIGIN"
    using dag_reach_unfold [of ex_dag a 4] G two three by auto
qed

lemma ex_covering: "covering_inv ex_dag ex_store"
proof -
  have "ex_dag ORIGIN = {}" "ex_dag 1 = {ORIGIN}" "ex_dag 2 = {1}" "ex_dag 3 = {1}" "ex_dag 4 = {2, 3}"
    by (simp_all add: ex_dag_def)
  then show ?thesis unfolding covering_inv_def ex_blocks ordered_def by simp
qed

section \<open>Properties\<close>

text \<open>
  C1: in every store that \<^verbatim>\<open>init\<close> and a sequence of \<^verbatim>\<open>add_block\<close> calls produce, the
  query \<^verbatim>\<open>is_dag_ancestor_of\<close> returns on all stored blocks and answers exactly
  reachability in the DAG of the added blocks.
\<close>

theorem session_query_exact:
  assumes "session fuel G st" and "a \<in> blocks st" and "b \<in> blocks st"
  shows "is_dag_ancestor_of st a b = Inr (dag_reach G a b)"
  using session_service [OF assms(1)] dag_query_reach assms(2,3) unfolding service_inv_def by blast

theorem session_query_exact_witness:
  "is_dag_ancestor_of init_store ORIGIN ORIGIN = Inr (dag_reach (\<lambda>_. {}) ORIGIN ORIGIN)"
  by (rule session_query_exact [OF session.init [OF reach_init_new, of 1]]) simp_all

text \<open>
  C2: \<^verbatim>\<open>add_block\<close> never fails during such a sequence: with the selected parent among the
  stored parents, the mergeset of the parents, a bound above the number of
  blocks and fewer than \<open>2 ^ 63\<close> blocks, it returns a store that extends the
  sequence, whether or not intervals had to be reassigned.
\<close>

theorem session_add_block_total:
  assumes "session fuel G st" and "b \<notin> blocks st" "b \<noteq> NONE" and "ps \<subseteq> blocks st" "sp \<in> ps" and "merges G ps sp ms"
    and "card (blocks st) < 2 ^ 63" "card (blocks st) < fuel"
  shows "\<exists>st'. add_block fuel st b sp ms = Inr st' \<and> session fuel (G(b := ps)) st' \<and> tree_inv ORIGIN st' \<and>
    covering_inv (G(b := ps)) st' \<and> blocks st' = insert b (blocks st)"
proof -
  from add_block_service [OF session_service [OF assms(1)] assms(2-8)] obtain st' where st':
    "add_block fuel st b sp ms = Inr st'" "service_inv (G(b := ps)) st'" "blocks st' = insert b (blocks st)" by blast
  with session.add [OF assms st'(1)] service_invD(1,2) [OF st'(2)] show ?thesis by blast
qed

theorem session_add_block_total_witness:
  "\<exists>st'. add_block 9 init_store 7 ORIGIN [] = Inr st' \<and> session 9 ((\<lambda>_. {})(7 := {ORIGIN})) st' \<and> tree_inv ORIGIN st' \<and>
    covering_inv ((\<lambda>_. {})(7 := {ORIGIN})) st' \<and> blocks st' = insert 7 (blocks init_store)"
  by (rule session_add_block_total [OF session.init [OF reach_init_new]])
    (auto simp: merges_def ORIGIN_def NONE_def simp del: domIff)

text \<open>
  C33: on stored blocks of a store whose intervals nest like its tree,
  \<^verbatim>\<open>is_chain_ancestor_of\<close> decides tree ancestry, and \<^verbatim>\<open>get_next_chain_ancestor\<close> of
  a proper ancestor returns its child on the way to the descendant.
\<close>

theorem chain_queries_exact:
  assumes "tree_inv r st" and "a \<in> blocks st" and "b \<in> blocks st"
  shows "is_chain_ancestor_of st a b = Inr (anc st a b) \<and>
    (if anc st a b \<and> a \<noteq> b
     then \<exists>c. get_next_chain_ancestor st b a = Inr c \<and> c \<in> set (kids st a) \<and> anc st c b
     else get_next_chain_ancestor st b a = Inl (Err BadQuery))"
proof -
  note strict = strict_chain_query_anc [OF assms]
  have "\<exists>c. get_next_chain_ancestor st b a = Inr c \<and> c \<in> set (kids st a) \<and> anc st c b" if "anc st a b" "a \<noteq> b"
    using next_chain_ancestor_unchecked_anc [OF assms(1,2) that] that strict
    by (auto simp: get_next_chain_ancestor_def)
  moreover have "get_next_chain_ancestor st b a = Inl (Err BadQuery)" if "\<not> (anc st a b \<and> a \<noteq> b)"
    using that strict by (auto simp: get_next_chain_ancestor_def)
  ultimately show ?thesis using chain_query_anc [OF assms] by auto
qed

theorem chain_queries_exact_witness:
  "is_chain_ancestor_of ex_store 3 4 = Inr False \<and> is_chain_ancestor_of ex_store 1 4 = Inr True \<and>
   (\<exists>c. get_next_chain_ancestor ex_store 4 1 = Inr c \<and> c \<in> set (kids ex_store 1) \<and> anc ex_store c 4) \<and>
   get_next_chain_ancestor ex_store 4 3 = Inl (Err BadQuery)"
  using chain_queries_exact [OF ex_tree, of 3 4] chain_queries_exact [OF ex_tree, of 1 4] by (simp del: ex_blocks)



text \<open>
  C30: \<^verbatim>\<open>propagate_interval\<close> on a block whose interval holds its subtree returns and
  re-establishes the interval invariant in the whole subtree; the interval of
  the block itself and of every block outside the subtree stay as they were.
\<close>

theorem propagate_interval_restores:
  assumes "shape_inv r (cx_store cx)" and "B \<in> blocks (cx_store cx)"
    and "card (blocks (cx_store cx)) < 2 ^ 64" "card (blocks (cx_store cx)) \<le> fuel"
    and "cx_sizes cx = Map.empty"
    and "iv_wf (ivl (cx_store cx) B)" "card {x. anc (cx_store cx) B x} \<le> iv_len (ivl (cx_store cx) B)"
  shows "\<exists>cx'. propagate_interval fuel cx B = Inr cx' \<and> same_shape (cx_store cx) (cx_store cx') \<and>
    (\<forall>x. anc (cx_store cx) B x \<longrightarrow> node_ok (cx_store cx') x) \<and>
    (\<forall>x. x = B \<or> \<not> anc (cx_store cx) B x \<longrightarrow> ivl (cx_store cx') x = ivl (cx_store cx) x)"
proof -
  have "tsize (cx_store cx) B \<le> iv_len (ivl (cx_store cx) B)" using assms(7) by (simp add: tsize_def subtree_def)
  from propagate_interval_ok [OF assms(1-4) _ assms(6) this] assms(5) show ?thesis by fastforce
qed

theorem propagate_interval_restores_witness:
  "\<exists>cx'. propagate_interval 5 (reindex_ctx_new ex_store 100 4) 1 = Inr cx' \<and> node_ok (cx_store cx') 4 \<and>
    ivl (cx_store cx') 1 = interval_new 1 50"
proof -
  have "{x. anc ex_store 1 x} \<subseteq> blocks ex_store" using subtree_blocks [OF ex_shape, of 1] by (simp add: subtree_def)
  then have "card {x. anc ex_store 1 x} \<le> 5" using card_mono [of "blocks ex_store" "{x. anc ex_store 1 x}"] by simp
  then show ?thesis
    using propagate_interval_restores [of ORIGIN "reindex_ctx_new ex_store 100 4" 1 5] ex_shape
    unfolding reindex_ctx_new_def by (force simp: iv_wf_def iv_len_def u64_max_def)
qed

end
