(* ===== verification/GhostdagProps.thy ===== *)
theory GhostdagProps
  imports GhostdagInv ReachSession
begin

text \<open>
  The properties of the GHOSTDAG component, stated over the operations of the
  manager, with an example manager over the example reachability store.
\<close>

section \<open>An example manager\<close>

definition ex_block_data :: "nat \<Rightarrow> blue_work \<Rightarrow> hash \<Rightarrow> hash list \<Rightarrow> ghostdag_data" where
  "ex_block_data score work sp blues = \<lparr>gd_blue_score = score, gd_blue_work = work, gd_selected_parent = sp,
     gd_mergeset_blues = blues, gd_mergeset_reds = [], gd_anticone_sizes = (\<lambda>b. if b \<in> set blues then Some 0 else None)\<rparr>"

definition ex_manager :: gd_manager where
  "ex_manager = \<lparr>gm_genesis = 1, gm_k = 3,
     gm_store = [ORIGIN \<mapsto> origin_ghostdag_data, 1 \<mapsto> genesis_ghostdag_data, 2 \<mapsto> ex_block_data 1 3 1 [1],
       3 \<mapsto> ex_block_data 1 2 1 [1], 4 \<mapsto> ex_block_data 3 7 2 [2, 3]],
     gm_relations = [ORIGIN \<mapsto> [], 1 \<mapsto> [ORIGIN], 2 \<mapsto> [1], 3 \<mapsto> [1], 4 \<mapsto> [2, 3]],
     gm_bits = (\<lambda>_. Some 0x207fffff), gm_reach = ex_store, gm_level_work = 0\<rparr>"

lemma ex_manager_sel [simp]:
  "gm_genesis ex_manager = 1" "gm_k ex_manager = 3" "gm_reach ex_manager = ex_store" "gm_level_work ex_manager = 0"
  "gm_bits ex_manager h = Some 0x207fffff"
  by (simp_all add: ex_manager_def)

lemma ex_manager_store:
  "gm_store ex_manager x = (if x = 4 then Some (ex_block_data 3 7 2 [2, 3]) else if x = 3 then Some (ex_block_data 1 2 1 [1])
     else if x = 2 then Some (ex_block_data 1 3 1 [1]) else if x = 1 then Some genesis_ghostdag_data
     else if x = ORIGIN then Some origin_ghostdag_data else None)"
  by (simp add: ex_manager_def)

lemma ex_manager_inv: "gd_inv ex_dag ORIGIN ex_manager"
proof -
  have "ex_dag ORIGIN = {}" "ex_dag 1 = {ORIGIN}" "ex_dag 2 = {1}" "ex_dag 3 = {1}" "ex_dag 4 = {2, 3}"
    by (simp_all add: ex_dag_def)
  then show ?thesis
    unfolding gd_inv_def by (simp add: ex_tree ex_covering ex_manager_store del: domIff) (simp add: ex_manager_def)
qed

lemma ex_manager_color: "color_inv ex_dag ORIGIN ex_manager"
  unfolding color_inv_def ex_manager_store
  by (auto simp: ex_manager_inv ex_block_data_def genesis_ghostdag_data_def origin_ghostdag_data_def
      split: if_splits simp del: domIff)

lemma ex_manager_work: "\<exists>w. blue_work_of ex_manager x = Inr w"
  by (simp add: blue_work_of_def calc_work_def from_compact_target_bits_def shl256_def)

lemma map_in_shuffles: "zs \<in> shuffles xs ys \<Longrightarrow> map f zs \<in> shuffles (map f xs) (map f ys)"
  by (induction xs ys arbitrary: zs rule: shuffles.induct) auto

section \<open>Properties\<close>

text \<open>
  C3: on stores that describe one block DAG, GHOSTDAG returns for any nonempty
  antichain of stored parents above genesis.  The selected parent is the
  greatest parent by blue work and hash; the mergeset is the past of the parents
  that it does not reach, ordered by blue work and split into blues and reds; at
  most \<open>k + 1\<close> blocks are blue, the recorded blue anticone sizes are at most
  \<open>k\<close>, and the blue score grows by the number of blues.
\<close>

theorem ghostdag_returns:
  assumes "color_inv G r m" and "ps \<noteq> []" "set ps \<subseteq> blocks (gm_reach m)" "ORIGIN \<notin> set ps"
    and "\<forall>p \<in> set ps. \<forall>q \<in> set ps. p \<noteq> q \<longrightarrow> \<not> dag_reach G p q"
    and "\<forall>p \<in> set ps. dag_reach G (gm_genesis m) p \<and>
      (\<forall>x. dag_reach G x p \<longrightarrow> dag_reach G (gm_genesis m) x \<or> dag_reach G x (gm_genesis m))"
    and "\<forall>p \<in> set ps. \<exists>ch. sp_chain m p ch \<and> set ch \<subseteq> blocks (gm_reach m) \<and> length ch + 2 \<le> fuel"
    and "length ps + card (blocks (gm_reach m)) \<le> fuel"
    and "\<forall>p d. gm_store m p = Some d \<longrightarrow> gd_blue_score d + gm_k m + 1 < 2 ^ 64"
    and "\<forall>x \<in> blocks (gm_reach m). dag_reach G (gm_genesis m) x \<longrightarrow> (\<exists>w. blue_work_of m x = Inr w)"
  shows "\<exists>d L. ghostdag fuel m ps = Inr d \<and> ghostdag_spec G m ps d L"
  by (rule ghostdag_correct [OF assms(1-4)]) (use assms(5-) in blast)+

theorem ghostdag_returns_witness:
  "\<exists>d L. ghostdag 9 ex_manager [2, 3] = Inr d \<and> ghostdag_spec ex_dag ex_manager [2, 3] d L"
proof (rule ghostdag_returns [where r = ORIGIN])
  have "\<exists>ch. sp_chain ex_manager p ch \<and> set ch \<subseteq> blocks (gm_reach ex_manager) \<and> length ch + 2 \<le> 9" if "p = 2 \<or> p = 3" for p
    by (rule exI [of _ "[p, 1]"]) (use that in \<open>auto simp: ex_manager_store ex_block_data_def simp del: domIff\<close>)
  then show "\<forall>p \<in> set [2, 3]. \<exists>ch. sp_chain ex_manager p ch \<and> set ch \<subseteq> blocks (gm_reach ex_manager) \<and> length ch + 2 \<le> 9"
    by (simp del: ex_manager_sel)
  show "\<forall>p d. gm_store ex_manager p = Some d \<longrightarrow> gd_blue_score d + gm_k ex_manager + 1 < 2 ^ 64"
    by (auto simp: ex_manager_store ex_block_data_def genesis_ghostdag_data_def origin_ghostdag_data_def split: if_splits)
qed (use ex_manager_color ex_manager_work in auto)

text \<open>
  C4: the breadth-first search of \<^verbatim>\<open>unordered_mergeset_without_selected_parent\<close> over
  the real reachability queries returns, without repetition, exactly the blocks
  in the past of the parents that the selected parent does not reach.
\<close>

theorem mergeset_search_exact:
  assumes "gd_inv G r m" and "set ps \<subseteq> blocks (gm_reach m)" "sp \<in> set ps"
    and "\<forall>p \<in> set ps. p \<noteq> sp \<longrightarrow> \<not> dag_reach G p sp" and "length ps + card (blocks (gm_reach m)) \<le> fuel"
  shows "\<exists>M. unordered_mergeset_without_selected_parent fuel (gm_relations m) (dag_ancestor m) sp ps = Inr M \<and>
    distinct M \<and> set M = {x. (\<exists>p \<in> set ps. dag_reach G x p) \<and> \<not> dag_reach G x sp}"
proof -
  have "\<exists>M. unordered_mergeset_without_selected_parent fuel (gm_relations m) (view_query (G, r, gm_reach m)) sp ps = Inr M \<and>
      set M = dag_mergeset (fst (G, r, gm_reach m)) sp (set ps) \<and> distinct M"
    by (rule store_reach.mergeset_search [OF gd_invD(5) [OF assms(1)]])
      (use assms gd_invD(4) [OF assms(1)] in \<open>auto simp: view_blocks_def simp del: domIff\<close>)
  then show ?thesis unfolding dag_ancestor_view [of m G r] dag_mergeset_def by auto
qed

theorem mergeset_search_exact_witness:
  "\<exists>M. unordered_mergeset_without_selected_parent 9 (gm_relations ex_manager) (dag_ancestor ex_manager) 2 [2, 3] = Inr M \<and>
    distinct M \<and> set M = {x. (\<exists>p \<in> set [2, 3]. dag_reach ex_dag x p) \<and> \<not> dag_reach ex_dag x 2}"
  by (rule mergeset_search_exact [OF ex_manager_inv]) auto

text \<open>
  C32: \<^verbatim>\<open>consensus_ordered_mergeset\<close> of a block that GHOSTDAG produced restores the full
  order: the selected parent followed by the whole mergeset by increasing blue
  work, and the merge of blues and reds never meets equal keys.
\<close>

theorem consensus_order_restored:
  assumes "ghostdag_spec G m ps d L" and "\<forall>x \<in> set L. gm_store m x \<noteq> None"
  shows "consensus_ordered_mergeset m d = Inr (gd_selected_parent d # L) \<and>
    set (unordered_mergeset_of_data d) = dag_mergeset G (gd_selected_parent d) (set ps)"
proof -
  have sh: "L \<in> shuffles (drop 1 (gd_mergeset_blues d)) (gd_mergeset_reds d)"
    and srt: "sorted_wrt (\<lambda>a b. key_of m a < key_of m b) L"
    and L: "set L = dag_mergeset G (gd_selected_parent d) (set ps)"
    using assms(1) unfolding ghostdag_spec_def by blast+
  note sets = set_shuffles [OF sh]
  have k: "map (key_of m) L \<in> shuffles (map (key_of m) (drop 1 (gd_mergeset_blues d))) (map (key_of m) (gd_mergeset_reds d))"
    by (rule map_in_shuffles [OF sh])
  have "sorted_wrt (<) (map (key_of m) L)" using srt by (simp add: sorted_wrt_map)
  from merge_join_shuffles [OF k this]
  have "ascending_mergeset_without_selected_parent m d = Inr (map (key_of m) L)"
    using assms(2) sets by (simp add: ascending_mergeset_without_selected_parent_def rmap_sortable)
  then have "consensus_ordered_mergeset m d = Inr (gd_selected_parent d # L)"
    by (simp add: consensus_ordered_mergeset_def comp_def)
  then show ?thesis using sets L by (simp add: unordered_mergeset_of_data_def)
qed

lemma ex_spec: "ghostdag_spec ex_dag ex_manager [2, 3] (ex_block_data 3 7 2 [2, 3]) [3]"
proof -
  have "dag_mergeset ex_dag 2 (set [2, 3]) = {3}" by (auto simp: dag_mergeset_def)
  then show ?thesis
    by (simp add: ghostdag_spec_def key_of_def ex_manager_store ex_block_data_def less_eq_sortable_block_def data_ok_def domIff)
qed

theorem consensus_order_restored_witness:
  "consensus_ordered_mergeset ex_manager (ex_block_data 3 7 2 [2, 3]) = Inr [2, 3]"
  using consensus_order_restored [OF ex_spec] by (simp add: ex_manager_store ex_block_data_def)

end
