(* ===== verification/Bytes.thy ===== *)
theory Bytes
  imports Prelude
begin

unbundle bit_operations_syntax

text \<open>
  Byte strings: little-endian words (\<^verbatim>\<open>to_le_bytes\<close>, \<^verbatim>\<open>from_le_bytes\<close>), hashes as 32
  bytes, slices, and the contract of a codec.
\<close>

type_synonym byte = "8 word"
type_synonym bytes = "byte list"

section \<open>Little-endian words\<close>

primrec to_le :: "nat \<Rightarrow> 'a::len word \<Rightarrow> bytes" where
  "to_le 0 w = []"
| "to_le (Suc n) w = ucast w # to_le n (drop_bit 8 w)"

primrec from_le :: "bytes \<Rightarrow> 'a::len word" where
  "from_le [] = 0"
| "from_le (b # bs) = ucast b OR push_bit 8 (from_le bs)"

lemma length_to_le [simp]: "length (to_le n w) = n"
  by (induction n arbitrary: w) simp_all

lemma from_to_le_take: "from_le (to_le n w) = take_bit (8 * n) w"
proof (induction n arbitrary: w)
  case 0
  then show ?case by simp
next
  case (Suc n)
  show ?case
  proof (rule bit_word_eqI)
    fix i assume i: "i < LENGTH('a)"
    show "bit (from_le (to_le (Suc n) w) :: 'a word) i = bit (take_bit (8 * Suc n) w) i"
      using i by (auto simp: Suc.IH bit_simps)
  qed
qed

lemma from_to_le:
  fixes w :: "'a::len word"
  assumes "LENGTH('a) \<le> 8 * n"
  shows "from_le (to_le n w) = w"
proof -
  have "take_bit (8 * n) w = w" using assms by (rule take_bit_word_eq_self)
  then show ?thesis by (simp add: from_to_le_take)
qed

lemma to_from_le:
  assumes "8 * length bs \<le> LENGTH('a)"
  shows "to_le (length bs) (from_le bs :: 'a::len word) = bs"
  using assms
proof (induction bs)
  case Nil
  then show ?case by simp
next
  case (Cons b bs)
  have head: "(ucast (ucast b OR push_bit 8 (from_le bs :: 'a word)) :: byte) = b"
  proof (rule bit_word_eqI)
    fix i assume i: "i < LENGTH(8)"
    show "bit (ucast (ucast b OR push_bit 8 (from_le bs :: 'a word)) :: byte) i = bit b i"
      using i Cons.prems by (auto simp: bit_simps)
  qed
  have small: "\<not> bit (from_le bs :: 'a word) i" if "8 * length bs \<le> i" for i
    using that
  proof (induction bs arbitrary: i)
    case (Cons b bs)
    then show ?case by (auto simp: bit_simps dest: bit_imp_le_length)
  qed simp
  have tail: "drop_bit 8 (ucast b OR push_bit 8 (from_le bs :: 'a word)) = from_le bs"
  proof (rule bit_word_eqI)
    fix i assume i: "i < LENGTH('a)"
    show "bit (drop_bit 8 (ucast b OR push_bit 8 (from_le bs :: 'a word))) i = bit (from_le bs :: 'a word) i"
      using i small [of i] Cons.prems by (auto simp: bit_simps dest: bit_imp_le_length)
  qed
  show ?case unfolding list.size(4) add_Suc_right add_0_right from_le.simps to_le.simps head tail
    using Cons.IH Cons.prems by simp
qed

text \<open>The fixed widths of the code.\<close>

abbreviation le16 :: "16 word \<Rightarrow> bytes" where "le16 \<equiv> to_le 2"
abbreviation le32 :: "32 word \<Rightarrow> bytes" where "le32 \<equiv> to_le 4"
abbreviation le64 :: "64 word \<Rightarrow> bytes" where "le64 \<equiv> to_le 8"

lemma from_le_widths [simp]:
  "from_le (le16 a) = a" "from_le (le32 b) = b" "from_le (le64 c) = c"
  by (simp_all add: from_to_le del: to_le.simps)

lemma le_from_widths:
  "length bs = 2 \<Longrightarrow> le16 (from_le bs) = bs" "length bs = 4 \<Longrightarrow> le32 (from_le bs) = bs"
  "length bs = 8 \<Longrightarrow> le64 (from_le bs) = bs"
  using to_from_le [of bs, where 'a = 16] to_from_le [of bs, where 'a = 32] to_from_le [of bs, where 'a = 64]
  by (simp_all del: to_le.simps)

declare to_le.simps(2) [simp del]

text \<open>A hash is a 256-bit word in big-endian byte order.\<close>

definition hash_bytes :: "256 word \<Rightarrow> bytes" where
  "hash_bytes h = rev (to_le 32 h)"

definition hash_of_bytes :: "bytes \<Rightarrow> 256 word" where
  "hash_of_bytes bs = from_le (rev bs)"

lemma length_hash_bytes [simp]: "length (hash_bytes h) = 32"
  by (simp add: hash_bytes_def)

lemma hash_of_hash_bytes [simp]: "hash_of_bytes (hash_bytes h) = h"
  by (simp add: hash_bytes_def hash_of_bytes_def from_to_le)

lemma hash_bytes_of_hash: "length bs = 32 \<Longrightarrow> hash_bytes (hash_of_bytes bs) = bs"
  using to_from_le [of "rev bs", where 'a = 256] by (simp add: hash_bytes_def hash_of_bytes_def rev_swap)

lemma hash_bytes_inject [simp]: "hash_bytes a = hash_bytes b \<longleftrightarrow> a = b"
  by (metis hash_of_hash_bytes)

lemma le32_inject [simp]: "le32 a = le32 b \<longleftrightarrow> a = b"
  by (metis from_le_widths(2))

lemma le64_inject [simp]: "le64 a = le64 b \<longleftrightarrow> a = b"
  by (metis from_le_widths(3))

section \<open>Slices\<close>

text \<open>\<^verbatim>\<open>&bs[a..b]\<close> panics when the range is not ordered or leaves the slice.\<close>

definition slice :: "'a list \<Rightarrow> nat \<Rightarrow> nat \<Rightarrow> ('e, 'a list) res" where
  "slice bs a b = (if a \<le> b \<and> b \<le> length bs then Inr (take (b - a) (drop a bs)) else Inl Panic)"

lemma slice_Inr [simp]: "a \<le> b \<Longrightarrow> b \<le> length bs \<Longrightarrow> slice bs a b = Inr (take (b - a) (drop a bs))"
  by (simp add: slice_def)

lemma append_eq_iff_length: "length a = length c \<Longrightarrow> a @ b = c @ d \<longleftrightarrow> a = c \<and> b = d"
  by simp

lemma chunks_exact_Nil [simp]: "chunks_exact n [] = []"
  by (auto simp: chunks_exact.simps [of n "[]"])

lemma chunks_exact_props:
  assumes "0 < n" and "length xs = n * k"
  shows "length (chunks_exact n xs) = k \<and> (\<forall>c \<in> set (chunks_exact n xs). length c = n) \<and> concat (chunks_exact n xs) = xs"
  using assms(2)
proof (induction k arbitrary: xs)
  case 0
  then show ?case by simp
next
  case (Suc k)
  have "length (drop n xs) = n * k" using Suc.prems by simp
  note IH = Suc.IH [OF this]
  have n: "n \<le> length xs" using Suc.prems by simp
  have eq: "chunks_exact n xs = take n xs # chunks_exact n (drop n xs)"
    using assms(1) n by (subst chunks_exact.simps) simp
  have "concat (chunks_exact n xs) = take n xs @ drop n xs" unfolding eq concat.simps using IH by simp
  moreover have "length (chunks_exact n xs) = Suc k" unfolding eq using IH by simp
  moreover have "\<forall>c \<in> set (chunks_exact n xs). length c = n"
    unfolding eq using conjunct1 [OF conjunct2 [OF IH]] n by (metis length_take min.absorb2 set_ConsD)
  ultimately show ?case by (simp only: append_take_drop_id simp_thms)
qed

section \<open>Codecs\<close>

text \<open>
  A codec: encoding a valid value decodes to it, and whatever decodes is the
  encoding of a valid value, so both directions are injective.
\<close>

locale codec =
  fixes enc :: "'a \<Rightarrow> bytes" and dec :: "bytes \<Rightarrow> ('e, 'a) res" and valid :: "'a \<Rightarrow> bool"
  assumes dec_enc: "valid x \<Longrightarrow> dec (enc x) = Inr x"
    and enc_dec: "dec bs = Inr x \<Longrightarrow> enc x = bs"
begin

lemma enc_injective: "valid x \<Longrightarrow> enc x = enc y \<Longrightarrow> valid y \<Longrightarrow> x = y"
  using dec_enc by (metis sum.inject(2))

lemma dec_injective: "dec bs = Inr x \<Longrightarrow> dec bs' = Inr x \<Longrightarrow> bs = bs'"
  using enc_dec by blast

end

end
