(* ===== verification/CellTypes.thy ===== *)
theory CellTypes
  imports Bytes Floats
begin

text \<open>
  The Cell transaction types of \<^verbatim>\<open>exec/src/celltx/types.rs\<close>: out points, scripts,
  outputs, inputs, dependencies, transactions and resolved cells, with capacity,
  size, mass and fee accounting and the dependency-group encoding.

  A \<^verbatim>\<open>[u8; 32]\<close> is a 256-bit word in big-endian order.  Lengths of vectors in
  memory are natural numbers; where the code narrows a length to \<^verbatim>\<open>u32\<close> the
  truncation is kept (\<open>word_of_nat\<close>).  Sums of capacities are checked.
\<close>

type_synonym byte32 = "256 word"

definition CELL_TX_VERSION :: "32 word" where "CELL_TX_VERSION = 0xC001"

text \<open>\<^verbatim>\<open>(n as u32).to_le_bytes()\<close>.\<close>

definition len32 :: "nat \<Rightarrow> bytes" where
  "len32 n = le32 (word_of_nat n)"

lemma length_len32 [simp]: "length (len32 n) = 4"
  by (simp add: len32_def)

lemma len32_inject: "a < 2 ^ 32 \<Longrightarrow> b < 2 ^ 32 \<Longrightarrow> len32 a = len32 b \<longleftrightarrow> a = b"
  by (auto simp: len32_def word_of_nat_eq_iff take_bit_nat_eq_self)

lemma unat_from_len32 [simp]: "n < 2 ^ 32 \<Longrightarrow> unat (from_le (len32 n) :: 32 word) = n"
  by (simp add: len32_def unat_of_nat take_bit_nat_eq_self)

section \<open>Out points\<close>

record out_point =
  op_tx_hash :: byte32
  op_index :: "32 word"

definition out_point_new :: "byte32 \<Rightarrow> 32 word \<Rightarrow> out_point" where
  "out_point_new h i = \<lparr>op_tx_hash = h, op_index = i\<rparr>"

definition to_key :: "out_point \<Rightarrow> bytes" where
  "to_key op = hash_bytes (op_tx_hash op) @ le32 (op_index op)"

text \<open>\<^verbatim>\<open>from_key\<close> takes an array of 36 bytes.\<close>

definition from_key :: "bytes \<Rightarrow> out_point" where
  "from_key key = \<lparr>op_tx_hash = hash_of_bytes (take 32 key), op_index = from_le (drop 32 key)\<rparr>"

lemma length_to_key [simp]: "length (to_key op) = 36"
  by (simp add: to_key_def)

lemma from_to_key [simp]: "from_key (to_key op) = op"
  by (simp add: to_key_def from_key_def)

lemma to_from_key: "length key = 36 \<Longrightarrow> to_key (from_key key) = key"
  by (simp add: to_key_def from_key_def hash_bytes_of_hash le_from_widths)

lemma to_key_inject [simp]: "to_key a = to_key b \<longleftrightarrow> a = b"
  by (metis from_to_key)

section \<open>Scripts, outputs and inputs\<close>

record script =
  sc_code_hash :: byte32
  sc_hash_type :: byte
  sc_args :: bytes

definition script_new :: "byte32 \<Rightarrow> byte \<Rightarrow> bytes \<Rightarrow> script" where
  "script_new c t a = \<lparr>sc_code_hash = c, sc_hash_type = t, sc_args = a\<rparr>"

definition ascii :: "string \<Rightarrow> bytes" where
  "ascii s = map (\<lambda>c. word_of_nat (of_char c)) s"

definition SCRIPT_HASH_V1_DOMAIN :: bytes where
  "SCRIPT_HASH_V1_DOMAIN = ascii ''spora-cell/script-hash''"

text \<open>The bytes that \<^verbatim>\<open>hash_v1\<close> feeds to the hasher, and the hash for a hash function \<open>blake3\<close>.\<close>

definition script_preimage :: "script \<Rightarrow> bytes" where
  "script_preimage s = SCRIPT_HASH_V1_DOMAIN @ [1] @ hash_bytes (sc_code_hash s) @ [sc_hash_type s] @
     len32 (length (sc_args s)) @ sc_args s"

definition hash_v1 :: "(bytes \<Rightarrow> byte32) \<Rightarrow> script \<Rightarrow> byte32" where
  "hash_v1 blake3 s = blake3 (script_preimage s)"

definition script_hash :: "(bytes \<Rightarrow> byte32) \<Rightarrow> script \<Rightarrow> byte32" where
  "script_hash blake3 s = hash_v1 blake3 s"

datatype script_hash_version = V1

definition hash_with_version :: "(bytes \<Rightarrow> byte32) \<Rightarrow> script \<Rightarrow> script_hash_version \<Rightarrow> byte32" where
  "hash_with_version blake3 s v = (case v of V1 \<Rightarrow> hash_v1 blake3 s)"

definition script_to_bytes :: "script \<Rightarrow> bytes" where
  "script_to_bytes s = hash_bytes (sc_code_hash s) @ [sc_hash_type s] @ sc_args s"

record cell_output =
  co_lock :: script
  co_type :: "script option"
  co_capacity :: "64 word"

datatype capacity_error = InsufficientCapacity nat nat

definition occupied_capacity :: "cell_output \<Rightarrow> nat \<Rightarrow> nat" where
  "occupied_capacity out data_len = 8 + (32 + 1 + length (sc_args (co_lock out))) +
     (case co_type out of None \<Rightarrow> 0 | Some t \<Rightarrow> 32 + 1 + length (sc_args t)) + data_len"

definition verify_capacity :: "cell_output \<Rightarrow> nat \<Rightarrow> (capacity_error, unit) res" where
  "verify_capacity out data_len = (let occupied = occupied_capacity out data_len in
     if unat (co_capacity out) < occupied then Inl (Err (InsufficientCapacity occupied (unat (co_capacity out)))) else Inr ())"

record cell_input =
  ci_previous_output :: out_point
  ci_since :: "64 word"

definition cell_input_new :: "out_point \<Rightarrow> 64 word \<Rightarrow> cell_input" where
  "cell_input_new op s = \<lparr>ci_previous_output = op, ci_since = s\<rparr>"

unbundle bit_operations_syntax

definition is_relative_lock :: "cell_input \<Rightarrow> bool" where
  "is_relative_lock i \<longleftrightarrow> ci_since i AND 0x8000000000000000 \<noteq> 0"

definition is_daa_lock :: "cell_input \<Rightarrow> bool" where
  "is_daa_lock i \<longleftrightarrow> ci_since i AND 0x4000000000000000 \<noteq> 0"

definition lock_value :: "cell_input \<Rightarrow> 64 word" where
  "lock_value i = ci_since i AND 0x3FFFFFFFFFFFFFFF"

datatype dep_type = Code | DepGroup

definition dep_type_byte :: "dep_type \<Rightarrow> byte" where
  "dep_type_byte t = (case t of Code \<Rightarrow> 0 | DepGroup \<Rightarrow> 1)"

record cell_dep =
  cd_out_point :: out_point
  cd_dep_type :: dep_type

section \<open>Dependency groups\<close>

datatype dep_group_error = GroupTooShort | GroupLengthMismatch nat nat nat

definition parse_dep_group_data :: "bytes \<Rightarrow> (dep_group_error, out_point list) res" where
  "parse_dep_group_data data =
     (if length data < 4 then Inl (Err GroupTooShort)
      else let count = unat (from_le (take 4 data) :: 32 word); expected = 4 + count * 36 in
        if length data \<noteq> expected then Inl (Err (GroupLengthMismatch expected count (length data)))
        else rmap (\<lambda>i. rbind (slice data (4 + i * 36) (4 + i * 36 + 36)) (\<lambda>key. Inr (from_key key))) [0..<count])"

definition encode_dep_group_data :: "out_point list \<Rightarrow> bytes" where
  "encode_dep_group_data ops = len32 (length ops) @ concat (map to_key ops)"

section \<open>Transactions\<close>

record cell_tx =
  tx_version :: "32 word"
  tx_inputs :: "cell_input list"
  tx_cell_deps :: "cell_dep list"
  tx_header_deps :: "byte32 list"
  tx_outputs :: "cell_output list"
  tx_outputs_data :: "bytes list"
  tx_witnesses :: "bytes list"

datatype tx_build_error = OutputsDataLengthMismatch | InvalidSchedulerHeader | DuplicateScheduler

definition new_with_header_deps ::
  "cell_input list \<Rightarrow> cell_dep list \<Rightarrow> byte32 list \<Rightarrow> cell_output list \<Rightarrow> bytes list \<Rightarrow> bytes list \<Rightarrow> (tx_build_error, cell_tx) res" where
  "new_with_header_deps inputs cell_deps header_deps outputs outputs_data witnesses =
     (if length outputs \<noteq> length outputs_data then Inl (Err OutputsDataLengthMismatch)
      else Inr \<lparr>tx_version = CELL_TX_VERSION, tx_inputs = inputs, tx_cell_deps = cell_deps, tx_header_deps = header_deps,
        tx_outputs = outputs, tx_outputs_data = outputs_data, tx_witnesses = witnesses\<rparr>)"

definition cell_tx_new ::
  "cell_input list \<Rightarrow> cell_dep list \<Rightarrow> cell_output list \<Rightarrow> bytes list \<Rightarrow> bytes list \<Rightarrow> (tx_build_error, cell_tx) res" where
  "cell_tx_new inputs cell_deps outputs outputs_data witnesses =
     new_with_header_deps inputs cell_deps [] outputs outputs_data witnesses"

definition is_coinbase :: "cell_tx \<Rightarrow> bool" where
  "is_coinbase tx \<longleftrightarrow> tx_inputs tx = []"

definition payload :: "cell_tx \<Rightarrow> bytes option" where
  "payload tx = (if \<not> is_coinbase tx then None
     else case tx_outputs_data tx of d # _ \<Rightarrow> Some d
     | [] \<Rightarrow> (case tx_witnesses tx of w # _ \<Rightarrow> Some w | [] \<Rightarrow> None))"

definition output_size :: "cell_output \<Rightarrow> nat" where
  "output_size out = 32 + 1 + 8 + length (sc_args (co_lock out)) +
     (case co_type out of Some t \<Rightarrow> 1 + 32 + 1 + 8 + length (sc_args t) | None \<Rightarrow> 1) + 8"

definition cell_tx_estimated_serialized_size :: "cell_tx \<Rightarrow> nat" where
  "cell_tx_estimated_serialized_size tx =
     2 + (8 + length (tx_inputs tx) * 44) + (8 + length (tx_cell_deps tx) * 37) + (8 + length (tx_header_deps tx) * 32) +
     (8 + sum_list (map output_size (tx_outputs tx))) +
     (8 + sum_list (map (\<lambda>d. 8 + length d) (tx_outputs_data tx))) +
     (8 + sum_list (map (\<lambda>w. 8 + length w) (tx_witnesses tx)))"

definition serialized_size :: "cell_tx \<Rightarrow> nat" where
  "serialized_size tx = cell_tx_estimated_serialized_size tx"

definition MASS_PER_TX_BYTE :: nat where "MASS_PER_TX_BYTE = 1"
definition MASS_PER_SCRIPT_PUB_KEY_BYTE :: nat where "MASS_PER_SCRIPT_PUB_KEY_BYTE = 10"
definition MASS_PER_SIG_OP :: nat where "MASS_PER_SIG_OP = 1000"
definition TRANSIENT_BYTE_TO_MASS_FACTOR :: nat where "TRANSIENT_BYTE_TO_MASS_FACTOR = 2"
definition CELL_ENTRY_OVERHEAD_EXCLUDING_OUTPUT_BODY :: nat where
  "CELL_ENTRY_OVERHEAD_EXCLUDING_OUTPUT_BODY = 32 + 4 + 8 + 1"

definition total_output_script_bytes :: "cell_tx \<Rightarrow> nat" where
  "total_output_script_bytes tx = sum_list (map (\<lambda>out.
     let script_size = 32 + 1 + length (sc_args (co_lock out)) in
     case co_type out of None \<Rightarrow> script_size
     | Some t \<Rightarrow> sat_add64 script_size (32 + 1 + length (sc_args t))) (tx_outputs tx))"

definition estimated_compute_mass :: "cell_tx \<Rightarrow> nat" where
  "estimated_compute_mass tx =
     (let size_mass = sat_mul64 (serialized_size tx) MASS_PER_TX_BYTE;
          script_mass = sat_mul64 (total_output_script_bytes tx) MASS_PER_SCRIPT_PUB_KEY_BYTE;
          sigops_mass = sat_mul64 (length (tx_inputs tx)) MASS_PER_SIG_OP
      in sat_add64 (sat_add64 size_mass script_mass) sigops_mass)"

definition estimated_transient_mass :: "cell_tx \<Rightarrow> nat" where
  "estimated_transient_mass tx = sat_mul64 (serialized_size tx) TRANSIENT_BYTE_TO_MASS_FACTOR"

definition estimated_storage_mass :: "cell_tx \<Rightarrow> nat" where
  "estimated_storage_mass tx = sum_list (map (\<lambda>(out, data).
     CELL_ENTRY_OVERHEAD_EXCLUDING_OUTPUT_BODY + occupied_capacity out (length data)) (zip (tx_outputs tx) (tx_outputs_data tx)))"

section \<open>Resolved cells and fees\<close>

record transaction_info =
  ti_tx_hash :: byte32
  ti_daa_score :: nat
  ti_block_hash :: byte32
  ti_is_cellbase :: bool

record resolved_cell_meta =
  rc_cell_output :: cell_output
  rc_out_point :: out_point
  rc_transaction_info :: "transaction_info option"
  rc_data_bytes :: nat
  rc_mem_cell_data :: "bytes option"
  rc_mem_cell_data_hash :: "byte32 option"

definition is_cellbase :: "resolved_cell_meta \<Rightarrow> bool" where
  "is_cellbase m = (case rc_transaction_info m of None \<Rightarrow> False | Some i \<Rightarrow> ti_is_cellbase i)"

definition meta_capacity :: "resolved_cell_meta \<Rightarrow> nat" where
  "meta_capacity m = unat (co_capacity (rc_cell_output m))"

datatype cell_status = Live resolved_cell_meta | Dead nat | Unknown

definition input_capacity :: "resolved_cell_meta list \<Rightarrow> (unit, nat) res" where
  "input_capacity resolved = sum64 (map meta_capacity resolved)"

definition output_capacity :: "cell_tx \<Rightarrow> (unit, nat) res" where
  "output_capacity tx = sum64 (map (\<lambda>out. unat (co_capacity out)) (tx_outputs tx))"

definition fee :: "cell_tx \<Rightarrow> resolved_cell_meta list \<Rightarrow> (unit, nat) res" where
  "fee tx resolved = rbind (input_capacity resolved) (\<lambda>i. rbind (output_capacity tx) (\<lambda>out. Inr (sat_sub64 i out)))"

record resolved_cell_tx =
  rt_transaction :: cell_tx
  rt_resolved_inputs :: "resolved_cell_meta list"
  rt_resolved_deps :: "resolved_cell_meta list"

definition resolved_fee :: "resolved_cell_tx \<Rightarrow> (unit, nat) res" where
  "resolved_fee rt = fee (rt_transaction rt) (rt_resolved_inputs rt)"

definition effective_fee_rate :: "resolved_cell_tx \<Rightarrow> nat \<Rightarrow> (unit, rat) res" where
  "effective_fee_rate rt cycles =
     (let size = f64 (of_nat (serialized_size (rt_transaction rt)));
          cycles_size = f64 (f64 (of_nat cycles) / 100);
          effective_size = max size cycles_size
      in rbind (resolved_fee rt) (\<lambda>f. Inr (f64 (f64 (of_nat f) / effective_size))))"

section \<open>Encodings are faithful\<close>

lemma take_drop_concat:
  "\<forall>c \<in> set cs. length c = n \<Longrightarrow> i < length cs \<Longrightarrow> take n (drop (i * n) (concat cs)) = cs ! i"
proof (induction cs arbitrary: i)
  case Nil
  then show ?case by simp
next
  case (Cons c cs)
  show ?case
  proof (cases i)
    case 0
    with Cons.prems show ?thesis by simp
  next
    case (Suc j)
    with Cons show ?thesis by simp
  qed
qed

lemma length_concat_map_to_key: "length (concat (map to_key ops)) = 36 * length ops"
  by (induction ops) simp_all

lemma parse_encode_dep_group:
  assumes "length ops < 2 ^ 32"
  shows "parse_dep_group_data (encode_dep_group_data ops) = Inr ops"
proof -
  let ?d = "encode_dep_group_data ops"
  have len: "length ?d = 4 + length ops * 36"
    by (simp add: encode_dep_group_data_def length_concat_map_to_key)
  have count: "unat (from_le (take 4 ?d) :: 32 word) = length ops"
    using assms by (simp add: encode_dep_group_data_def)
  have key: "slice ?d (4 + i * 36) (4 + i * 36 + 36) = (Inr (to_key (ops ! i)) :: (dep_group_error, _) res)" if "i < length ops" for i
  proof -
    have "4 + i * 36 + 36 \<le> length ?d" using that len by simp
    moreover have "drop (4 + i * 36) ?d = drop (i * 36) (concat (map to_key ops))"
      by (simp add: encode_dep_group_data_def)
    ultimately show ?thesis using take_drop_concat [of "map to_key ops" 36 i] that by simp
  qed
  have "rmap (\<lambda>i. rbind (slice ?d (4 + i * 36) (4 + i * 36 + 36)) (\<lambda>key. Inr (from_key key))) [0..<length ops] =
      (Inr (map (\<lambda>i. ops ! i) [0..<length ops]) :: (dep_group_error, _) res)"
    by (rule rmap_total) (subst key, simp_all)
  then show ?thesis
    by (simp add: parse_dep_group_data_def Let_def len count map_nth)
qed

lemma parse_dep_group_sound:
  assumes "parse_dep_group_data data = Inr ops"
  shows "length ops < 2 ^ 32 \<and> encode_dep_group_data ops = data"
proof -
  define n where "n = unat (from_le (take 4 data) :: 32 word)"
  have n: "n < 2 ^ 32" unfolding n_def using unsigned_less [of "from_le (take 4 data) :: 32 word"] by simp
  have len: "\<not> length data < 4" "length data = 4 + n * 36"
    and run: "rmap (\<lambda>i. rbind (slice data (4 + i * 36) (4 + i * 36 + 36)) (\<lambda>key. Inr (from_key key))) [0..<n] =
        (Inr ops :: (dep_group_error, _) res)"
    using assms by (auto simp: parse_dep_group_data_def Let_def simp flip: n_def split: if_splits)
  define cs where "cs = chunks_exact 36 (drop 4 data)"
  have cs: "length cs = n" "\<forall>c \<in> set cs. length c = 36" "concat cs = drop 4 data"
    using chunks_exact_props [of 36 "drop 4 data" n] len unfolding cs_def by auto
  have el: "length ops = n \<and> (\<forall>i < n. ops ! i = from_key (cs ! i))"
  proof -
    have "length ops = n" using run unfolding rmap_Inr_iff by simp
    moreover have "ops ! i = from_key (cs ! i)" if "i < n" for i
    proof -
      have "rbind (slice data (4 + i * 36) (4 + i * 36 + 36)) (\<lambda>key. Inr (from_key key)) = (Inr (ops ! i) :: (dep_group_error, _) res)"
        using run that unfolding rmap_Inr_iff by simp
      moreover have "slice data (4 + i * 36) (4 + i * 36 + 36) = (Inr (cs ! i) :: (dep_group_error, _) res)"
        using take_drop_concat [OF cs(2), of i] cs(1,3) that len by (simp add: add.commute)
      ultimately show ?thesis by simp
    qed
    ultimately show ?thesis by blast
  qed
  then have "map to_key ops = cs"
    using cs(1,2) by (intro nth_equalityI) (simp_all add: to_from_key)
  then have "concat (map to_key ops) = drop 4 data" using cs(3) by simp
  moreover have "len32 n = take 4 data"
    using len by (simp add: len32_def n_def le_from_widths)
  ultimately show ?thesis using el n by (simp add: encode_dep_group_data_def)
qed

interpretation dep_group: codec encode_dep_group_data parse_dep_group_data "\<lambda>ops. length ops < 2 ^ 32"
  using parse_encode_dep_group parse_dep_group_sound by unfold_locales auto

lemma script_preimage_inject:
  assumes "script_preimage s = script_preimage t" and "length (sc_args s) < 2 ^ 32" "length (sc_args t) < 2 ^ 32"
  shows "s = t"
  using assms by (auto simp: script_preimage_def)

section \<open>Properties\<close>

text \<open>
  Dependency-group data has exactly one encoding: the parser accepts a byte string
  precisely when it is the encoding of fewer than \<open>2 ^ 32\<close> out points, returns these
  out points, and no byte string makes it panic.
\<close>

theorem dep_group_canonical:
  "(parse_dep_group_data data = Inr ops \<longleftrightarrow> length ops < 2 ^ 32 \<and> data = encode_dep_group_data ops) \<and>
   parse_dep_group_data data \<noteq> Inl Panic"
proof
  show "parse_dep_group_data data = Inr ops \<longleftrightarrow> length ops < 2 ^ 32 \<and> data = encode_dep_group_data ops"
    using dep_group.dec_enc dep_group.enc_dec parse_dep_group_sound by blast
  show "parse_dep_group_data data \<noteq> Inl Panic"
  proof
    assume P: "parse_dep_group_data data = Inl Panic"
    define n where "n = unat (from_le (take 4 data) :: 32 word)"
    have len: "length data = 4 + n * 36"
      and run: "rmap (\<lambda>i. rbind (slice data (4 + i * 36) (4 + i * 36 + 36)) (\<lambda>key. Inr (from_key key))) [0..<n] =
          (Inl Panic :: (dep_group_error, out_point list) res)"
      using P by (auto simp: parse_dep_group_data_def Let_def simp flip: n_def split: if_splits)
    have "rmap (\<lambda>i. rbind (slice data (4 + i * 36) (4 + i * 36 + 36)) (\<lambda>key. Inr (from_key key))) [0..<n] =
        (Inr (map (\<lambda>i. from_key (take 36 (drop (4 + i * 36) data))) [0..<n]) :: (dep_group_error, _) res)"
      by (rule rmap_total) (simp add: len)
    with run show False by simp
  qed
qed

text \<open>
  The bytes hashed by \<^verbatim>\<open>Script::hash_v1\<close> determine the script, so for any hash function
  two scripts with arguments below 4 GiB and equal hashes are equal or exhibit a
  collision of the hash function.
\<close>

theorem script_hash_binding:
  assumes "hash_v1 blake3 s = hash_v1 blake3 t" and "length (sc_args s) < 2 ^ 32" "length (sc_args t) < 2 ^ 32"
  shows "s = t \<or> script_preimage s \<noteq> script_preimage t \<and> blake3 (script_preimage s) = blake3 (script_preimage t)"
  using assms script_preimage_inject by (auto simp: hash_v1_def)

theorem script_hash_binding_witness:
  "script_new 1 2 [3] = script_new 1 2 [4] \<or> script_preimage (script_new 1 2 [3]) \<noteq> script_preimage (script_new 1 2 [4]) \<and>
     (0 :: byte32) = 0"
  using script_hash_binding [of "\<lambda>_. 0" "script_new 1 2 [3]" "script_new 1 2 [4]"] by (simp add: script_new_def hash_v1_def)

text \<open>
  The \<^verbatim>\<open>since\<close> field splits without loss: the relative flag is bit 63, the DAA flag bit
  62, the value is below \<open>2 ^ 62\<close>, and the three parts determine the field.
\<close>

theorem since_fields:
  "is_relative_lock i = bit (ci_since i) 63 \<and> is_daa_lock i = bit (ci_since i) 62 \<and> unat (lock_value i) < 2 ^ 62 \<and>
   ci_since i = (if is_relative_lock i then push_bit 63 1 else 0) OR (if is_daa_lock i then push_bit 62 1 else 0) OR lock_value i"
proof -
  have m: "(0x8000000000000000 :: 64 word) = push_bit 63 1" "(0x4000000000000000 :: 64 word) = push_bit 62 1"
    "(0x3FFFFFFFFFFFFFFF :: 64 word) = mask 62" by (simp_all add: mask_eq_exp_minus_1)
  have b: "(w AND push_bit n 1 \<noteq> 0) = bit w n" if "n < 64" for w :: "64 word" and n
    using that by (simp add: and_exp_eq_0_iff_not_bit push_bit_eq_mult)
  have r: "is_relative_lock i = bit (ci_since i) 63" "is_daa_lock i = bit (ci_since i) 62"
    unfolding is_relative_lock_def is_daa_lock_def m by (rule b; simp)+
  have v: "lock_value i = take_bit 62 (ci_since i)" unfolding lock_value_def m by (simp add: take_bit_eq_mask)
  have "unat (lock_value i) < 2 ^ 62" unfolding v unsigned_take_bit_eq by (rule take_bit_nat_less_exp)
  moreover have "w = (if bit w a then push_bit a 1 else 0) OR (if bit w b then push_bit b 1 else 0) OR take_bit b w"
    if ab: "a = 63" "b = 62" for a b and w :: "64 word"
  proof (rule bit_word_eqI)
    fix n assume n: "n < LENGTH(64)"
    consider "n = a" | "n = b" | "n < b" using n ab by force
    moreover have "b < a" "a < 64" using ab by simp_all
    ultimately show "bit w n = bit ((if bit w a then push_bit a 1 else 0) OR (if bit w b then push_bit b 1 else 0) OR take_bit b w) n"
      by cases (auto simp: bit_simps)
  qed
  ultimately show ?thesis unfolding r v by blast
qed

text \<open>
  \<^verbatim>\<open>fee\<close> is the difference of the capacities of inputs and outputs, zero when the outputs
  exceed the inputs, and panics exactly when one of the two sums exceeds 64 bits.
\<close>

theorem fee_value:
  "fee tx resolved = (let i = sum_list (map meta_capacity resolved);
      out = sum_list (map (\<lambda>x. unat (co_capacity x)) (tx_outputs tx))
    in if i < 2 ^ 64 \<and> out < 2 ^ 64 then Inr (i - out) else Inl Panic)"
  by (simp add: fee_def input_capacity_def output_capacity_def sum64_eq sat_sub64_def Let_def)

end
