(* ===== verification/SchedWitness.thy ===== *)
theory SchedWitness
  imports CellTypes "HOL-Library.Product_Lexorder"
begin

text \<open>
  CellScript scheduler witnesses of \<^verbatim>\<open>exec/src/celltx/types.rs\<close>: the Molecule table
  codec, admission of decoded witnesses, comparison with a trusted summary and
  their placement in a transaction.  Index and slice operations that would panic
  out of range are kept, and the properties show that they never do.
\<close>

section \<open>Constants and data\<close>

definition SCHEDULER_MAGIC :: "bytes" where "SCHEDULER_MAGIC = [0x11, 0xCE]"
definition SCHEDULER_VERSION :: byte where "SCHEDULER_VERSION = 1"
definition MOLECULE_FIELDS :: nat where "MOLECULE_FIELDS = 9"
definition ACCESS_SIZE :: nat where "ACCESS_SIZE = 38"

record access_witness =
  aw_operation :: byte
  aw_source :: byte
  aw_index :: "32 word"
  aw_binding_hash :: byte32

record sched_witness =
  sw_magic :: "16 word"
  sw_version :: byte
  sw_effect_class :: byte
  sw_parallelizable :: bool
  sw_touches_shared_count :: "32 word"
  sw_touches_shared :: "byte32 list"
  sw_estimated_cycles :: "64 word"
  sw_access_count :: "32 word"
  sw_accesses :: "access_witness list"

text \<open>The decode errors of the code are strings; each format site is a constructor here.\<close>

datatype molecule_error =
    NumberTooShort nat
  | TableHeaderTooShort nat
  | TotalSizeMismatch nat nat
  | InvalidFirstOffset nat
  | FieldCountMismatch nat nat
  | OffsetsNotMonotonic
  | OffsetOutsidePayload
  | VecLengthMismatch nat nat nat
  | WrongFieldLength nat nat
  | NotBoolean byte

datatype summary_field = FMagic | FVersion | FEffectClass | FParallelizable | FEstimatedCycles | FTouchesShared

datatype witness_error =
    Decode molecule_error
  | InvalidMagic "16 word"
  | UnsupportedVersion byte
  | TouchesCountMismatch "32 word" nat
  | AccessCountMismatch "32 word" nat
  | InvalidEffectClass byte
  | InvalidOperation byte
  | InvalidSource byte
  | UnexpectedSourceForOperation byte byte
  | SourceIndexOutOfBounds byte "32 word" nat
  | AccessSetMismatch byte byte "32 word" byte32 nat nat
  | TrustedSummaryMismatch summary_field
  | DuplicateSchedulerWitness nat

section \<open>Molecule encoding\<close>

definition pack_number :: "nat \<Rightarrow> bytes" where
  "pack_number v = len32 v"

definition unpack_number :: "bytes \<Rightarrow> (molecule_error, nat) res" where
  "unpack_number bs = (if length bs < 4 then Inl (Err (NumberTooShort (length bs)))
     else Inr (unat (from_le (take 4 bs) :: 32 word)))"

primrec pack_offsets :: "nat \<Rightarrow> bytes list \<Rightarrow> bytes" where
  "pack_offsets offset [] = []"
| "pack_offsets offset (f # fs) = pack_number offset @ pack_offsets (offset + length f) fs"

definition encode_table :: "bytes list \<Rightarrow> bytes" where
  "encode_table flds =
     (let header_size = 4 * (length flds + 1);
          total_size = header_size + sum_list (map length flds)
      in pack_number total_size @ pack_offsets header_size flds @ concat flds)"

definition decode_table :: "bytes \<Rightarrow> nat \<Rightarrow> (molecule_error, bytes list) res" where
  "decode_table bs expected_fields =
     (if length bs < 8 then Inl (Err (TableHeaderTooShort (length bs)))
      else rbind (unpack_number bs) (\<lambda>total_size.
        if total_size \<noteq> length bs then Inl (Err (TotalSizeMismatch total_size (length bs)))
        else rbind (unpack_number (drop 4 bs)) (\<lambda>first_offset.
          if first_offset mod 4 \<noteq> 0 \<or> first_offset < 8 \<or> length bs < first_offset
          then Inl (Err (InvalidFirstOffset first_offset))
          else let field_count = first_offset div 4 - 1 in
            if field_count \<noteq> expected_fields then Inl (Err (FieldCountMismatch expected_fields field_count))
            else rbind (slice bs 4 first_offset) (\<lambda>header.
              rbind (rmap unpack_number (chunks_exact 4 header)) (\<lambda>offs.
              let offsets = offs @ [total_size] in
              if \<exists>(a, b) \<in> set (windows2 offsets). b < a then Inl (Err OffsetsNotMonotonic)
              else if \<exists>off \<in> set offsets. off < first_offset \<or> total_size < off then Inl (Err OffsetOutsidePayload)
              else rmap (\<lambda>(a, b). slice bs a b) (windows2 offsets))))))"

definition encode_fixvec_byte32 :: "byte32 list \<Rightarrow> bytes" where
  "encode_fixvec_byte32 values = pack_number (length values) @ concat (map hash_bytes values)"

definition decode_fixvec_byte32 :: "bytes \<Rightarrow> (molecule_error, byte32 list) res" where
  "decode_fixvec_byte32 bs = rbind (unpack_number bs) (\<lambda>count.
     let expected = 4 + count * 32 in
     if length bs \<noteq> expected then Inl (Err (VecLengthMismatch expected count (length bs)))
     else Inr (map hash_of_bytes (chunks_exact 32 (drop 4 bs))))"

definition encode_access :: "access_witness \<Rightarrow> bytes" where
  "encode_access a = [aw_operation a, aw_source a] @ le32 (aw_index a) @ hash_bytes (aw_binding_hash a)"

definition decode_access :: "bytes \<Rightarrow> (molecule_error, access_witness) res" where
  "decode_access chunk =
     rbind (slice chunk 6 38) (\<lambda>h. rbind (idx chunk 0) (\<lambda>op. rbind (idx chunk 1) (\<lambda>src. rbind (slice chunk 2 6) (\<lambda>i.
     Inr \<lparr>aw_operation = op, aw_source = src, aw_index = from_le i, aw_binding_hash = hash_of_bytes h\<rparr>))))"

definition encode_accesses :: "access_witness list \<Rightarrow> bytes" where
  "encode_accesses accesses = pack_number (length accesses) @ concat (map encode_access accesses)"

definition decode_accesses :: "bytes \<Rightarrow> (molecule_error, access_witness list) res" where
  "decode_accesses bs = rbind (unpack_number bs) (\<lambda>count.
     let expected = 4 + count * ACCESS_SIZE in
     if length bs \<noteq> expected then Inl (Err (VecLengthMismatch expected count (length bs)))
     else rmap decode_access (chunks_exact ACCESS_SIZE (drop 4 bs)))"

definition decode_u8 :: "bytes \<Rightarrow> (molecule_error, byte) res" where
  "decode_u8 bs = (if length bs \<noteq> 1 then Inl (Err (WrongFieldLength 1 (length bs))) else idx bs 0)"

definition decode_bool :: "bytes \<Rightarrow> (molecule_error, bool) res" where
  "decode_bool bs = rbind (decode_u8 bs) (\<lambda>b.
     if b = 0 then Inr False else if b = 1 then Inr True else Inl (Err (NotBoolean b)))"

definition decode_u16 :: "bytes \<Rightarrow> (molecule_error, 16 word) res" where
  "decode_u16 bs = (if length bs \<noteq> 2 then Inl (Err (WrongFieldLength 2 (length bs))) else Inr (from_le bs))"

definition decode_u32 :: "bytes \<Rightarrow> (molecule_error, 32 word) res" where
  "decode_u32 bs = (if length bs \<noteq> 4 then Inl (Err (WrongFieldLength 4 (length bs))) else Inr (from_le bs))"

definition decode_u64 :: "bytes \<Rightarrow> (molecule_error, 64 word) res" where
  "decode_u64 bs = (if length bs \<noteq> 8 then Inl (Err (WrongFieldLength 8 (length bs))) else Inr (from_le bs))"

section \<open>Admission\<close>

definition operation_accepts_source :: "byte \<Rightarrow> byte \<Rightarrow> bool" where
  "operation_accepts_source operation source =
     (if operation \<in> {1, 3, 8} then source = 1
      else if operation = 6 then source = 2
      else if operation \<in> {7, 9} then source = 3
      else if operation \<in> {2, 4, 5} then source = 1 \<or> source = 3
      else False)"

definition validate_access_envelope :: "access_witness \<Rightarrow> (witness_error, unit) res" where
  "validate_access_envelope a =
     (if aw_operation a \<notin> {1, 2, 3, 4, 5, 6, 7, 8, 9} then Inl (Err (InvalidOperation (aw_operation a)))
      else if aw_source a \<notin> {1, 2, 3} then Inl (Err (InvalidSource (aw_source a)))
      else if \<not> operation_accepts_source (aw_operation a) (aw_source a)
      then Inl (Err (UnexpectedSourceForOperation (aw_operation a) (aw_source a)))
      else Inr ())"

definition validate_envelope :: "sched_witness \<Rightarrow> (witness_error, unit) res" where
  "validate_envelope w =
     (if sw_effect_class w \<notin> {0, 1, 2, 3, 4} then Inl (Err (InvalidEffectClass (sw_effect_class w)))
      else rfold (\<lambda>_ a. validate_access_envelope a) () (sw_accesses w))"

definition validate_counts :: "sched_witness \<Rightarrow> (witness_error, unit) res" where
  "validate_counts w =
     (if unat (sw_touches_shared_count w) \<noteq> length (sw_touches_shared w)
      then Inl (Err (TouchesCountMismatch (sw_touches_shared_count w) (length (sw_touches_shared w))))
      else if unat (sw_access_count w) \<noteq> length (sw_accesses w)
      then Inl (Err (AccessCountMismatch (sw_access_count w) (length (sw_accesses w))))
      else Inr ())"

definition validate_header_and_body :: "sched_witness \<Rightarrow> (witness_error, sched_witness) res" where
  "validate_header_and_body w =
     (if sw_magic w \<noteq> 0xCE11 then Inl (Err (InvalidMagic (sw_magic w)))
      else if sw_version w \<noteq> SCHEDULER_VERSION then Inl (Err (UnsupportedVersion (sw_version w)))
      else rbind (validate_counts w) (\<lambda>_. rbind (validate_envelope w) (\<lambda>_. Inr w)))"

text \<open>\<^verbatim>\<open>map_err(CellScriptSchedulerWitnessError::Decode)\<close>.\<close>

definition map_decode :: "(molecule_error, 'a) res \<Rightarrow> (witness_error, 'a) res" where
  "map_decode r = (case r of Inr v \<Rightarrow> Inr v | Inl Panic \<Rightarrow> Inl Panic | Inl OutOfFuel \<Rightarrow> Inl OutOfFuel
     | Inl (Err e) \<Rightarrow> Inl (Err (Decode e)))"

definition encode_witness_molecule :: "sched_witness \<Rightarrow> bytes" where
  "encode_witness_molecule w = encode_table
     [le16 (sw_magic w), [sw_version w], [sw_effect_class w], [if sw_parallelizable w then 1 else 0],
      le32 (sw_touches_shared_count w), encode_fixvec_byte32 (sw_touches_shared w), le64 (sw_estimated_cycles w),
      le32 (sw_access_count w), encode_accesses (sw_accesses w)]"

definition decode_witness_unchecked :: "bytes \<Rightarrow> (witness_error, sched_witness) res" where
  "decode_witness_unchecked bs =
     rbind (map_decode (decode_table bs MOLECULE_FIELDS)) (\<lambda>flds.
     rbind (idx flds 0) (\<lambda>f0. rbind (map_decode (decode_u16 f0)) (\<lambda>magic.
     rbind (idx flds 1) (\<lambda>f1. rbind (map_decode (decode_u8 f1)) (\<lambda>version.
     rbind (idx flds 2) (\<lambda>f2. rbind (map_decode (decode_u8 f2)) (\<lambda>effect_class.
     rbind (idx flds 3) (\<lambda>f3. rbind (map_decode (decode_bool f3)) (\<lambda>parallelizable.
     rbind (idx flds 4) (\<lambda>f4. rbind (map_decode (decode_u32 f4)) (\<lambda>touches_count.
     rbind (idx flds 5) (\<lambda>f5. rbind (map_decode (decode_fixvec_byte32 f5)) (\<lambda>touches.
     rbind (idx flds 6) (\<lambda>f6. rbind (map_decode (decode_u64 f6)) (\<lambda>cycles.
     rbind (idx flds 7) (\<lambda>f7. rbind (map_decode (decode_u32 f7)) (\<lambda>access_count.
     rbind (idx flds 8) (\<lambda>f8. rbind (map_decode (decode_accesses f8)) (\<lambda>accesses.
     Inr \<lparr>sw_magic = magic, sw_version = version, sw_effect_class = effect_class, sw_parallelizable = parallelizable,
          sw_touches_shared_count = touches_count, sw_touches_shared = touches, sw_estimated_cycles = cycles,
          sw_access_count = access_count, sw_accesses = accesses\<rparr>)))))))))))))))))))"

definition decode_witness_molecule :: "bytes \<Rightarrow> (witness_error, sched_witness) res" where
  "decode_witness_molecule bs = rbind (decode_witness_unchecked bs) validate_header_and_body"

definition decode_scheduler_witness :: "bytes \<Rightarrow> (witness_error, sched_witness) res" where
  "decode_scheduler_witness bs = decode_witness_molecule bs"

definition validate_against_transaction :: "cell_tx \<Rightarrow> sched_witness \<Rightarrow> (witness_error, unit) res" where
  "validate_against_transaction tx w =
     rbind (validate_envelope w) (\<lambda>_.
     rfold (\<lambda>_ a.
       rbind (if aw_source a = 1 then Inr (length (tx_inputs tx))
              else if aw_source a = 2 then Inr (length (tx_cell_deps tx))
              else if aw_source a = 3 then Inr (length (tx_outputs tx))
              else Inl (Err (InvalidSource (aw_source a)))) (\<lambda>available.
       if available \<le> unat (aw_index a)
       then Inl (Err (SourceIndexOutOfBounds (aw_source a) (aw_index a) available)) else Inr ())) () (sw_accesses w))"

definition decode_for_tx :: "cell_tx \<Rightarrow> bytes \<Rightarrow> (witness_error, sched_witness) res" where
  "decode_for_tx tx bs = rbind (decode_scheduler_witness bs) (\<lambda>w.
     rbind (validate_against_transaction tx w) (\<lambda>_. Inr w))"

definition compiled_summary_for_tx :: "cell_tx \<Rightarrow> bytes \<Rightarrow> (witness_error, sched_witness) res" where
  "compiled_summary_for_tx tx compiled = decode_for_tx tx compiled"

definition compiled_accesses_for_tx :: "cell_tx \<Rightarrow> bytes \<Rightarrow> (witness_error, access_witness list) res" where
  "compiled_accesses_for_tx tx compiled = rbind (compiled_summary_for_tx tx compiled) (\<lambda>w. Inr (sw_accesses w))"

section \<open>Comparison with a trusted summary\<close>

type_synonym access_key = "byte \<times> byte \<times> 32 word \<times> byte32"

definition access_key :: "access_witness \<Rightarrow> access_key" where
  "access_key a = (aw_operation a, aw_source a, aw_index a, aw_binding_hash a)"

text \<open>
  The \<^verbatim>\<open>BTreeMap\<close> of multiplicities, as the list of its entries in key order.
\<close>

definition btree_counts :: "'k::linorder list \<Rightarrow> ('k \<times> nat) list" where
  "btree_counts ks = map (\<lambda>k. (k, count_list ks k)) (sort (remdups ks))"

definition btree_get :: "('k \<times> nat) list \<Rightarrow> 'k \<Rightarrow> nat" where
  "btree_get m k = (case map_of m k of None \<Rightarrow> 0 | Some n \<Rightarrow> n)"

definition counted_hashes :: "byte32 list \<Rightarrow> (byte32 \<times> nat) list" where
  "counted_hashes hs = btree_counts hs"

definition compare_counts :: "(access_key \<times> nat) list \<Rightarrow> (access_key \<times> nat) list \<Rightarrow> (witness_error, unit) res" where
  "compare_counts expected actual =
     rfold (\<lambda>_ k. let e = btree_get expected k; a = btree_get actual k in
       if e \<noteq> a then (case k of (operation, source, index, binding) \<Rightarrow>
         Inl (Err (AccessSetMismatch operation source index binding e a)))
       else Inr ()) () (map fst expected @ map fst actual)"

definition validate_access_set :: "sched_witness \<Rightarrow> access_witness list \<Rightarrow> (witness_error, unit) res" where
  "validate_access_set w expected_accesses =
     rbind (validate_counts w) (\<lambda>_. rbind (validate_envelope w) (\<lambda>_.
     rbind (rfold (\<lambda>_ a. validate_access_envelope a) () expected_accesses) (\<lambda>_.
     compare_counts (btree_counts (map access_key expected_accesses)) (btree_counts (map access_key (sw_accesses w))))))"

definition validate_summary :: "sched_witness \<Rightarrow> sched_witness \<Rightarrow> (witness_error, unit) res" where
  "validate_summary w expected =
     rbind (validate_counts w) (\<lambda>_. rbind (validate_counts expected) (\<lambda>_.
     rbind (validate_envelope w) (\<lambda>_. rbind (validate_envelope expected) (\<lambda>_.
     if sw_magic w \<noteq> sw_magic expected then Inl (Err (TrustedSummaryMismatch FMagic))
     else if sw_version w \<noteq> sw_version expected then Inl (Err (TrustedSummaryMismatch FVersion))
     else if sw_effect_class w \<noteq> sw_effect_class expected then Inl (Err (TrustedSummaryMismatch FEffectClass))
     else if sw_parallelizable w \<noteq> sw_parallelizable expected then Inl (Err (TrustedSummaryMismatch FParallelizable))
     else if sw_estimated_cycles w \<noteq> sw_estimated_cycles expected then Inl (Err (TrustedSummaryMismatch FEstimatedCycles))
     else if counted_hashes (sw_touches_shared w) \<noteq> counted_hashes (sw_touches_shared expected)
     then Inl (Err (TrustedSummaryMismatch FTouchesShared))
     else validate_access_set w (sw_accesses expected)))))"

section \<open>Placement in a transaction\<close>

definition is_scheduler_witness_bytes :: "bytes \<Rightarrow> bool" where
  "is_scheduler_witness_bytes bs = (case decode_witness_molecule bs of Inr _ \<Rightarrow> True | Inl _ \<Rightarrow> False)"

definition has_legacy_borsh_marker :: "bytes \<Rightarrow> bool" where
  "has_legacy_borsh_marker bs \<longleftrightarrow> 3 \<le> length bs \<and> bs ! 0 = SCHEDULER_MAGIC ! 0 \<and> bs ! 1 = SCHEDULER_MAGIC ! 1 \<and>
     bs ! 2 = SCHEDULER_VERSION"

definition is_candidate_bytes :: "bytes \<Rightarrow> bool" where
  "is_candidate_bytes bs \<longleftrightarrow> has_legacy_borsh_marker bs \<or>
     (case decode_witness_unchecked bs of Inr d \<Rightarrow> sw_magic d = 0xCE11 \<and> sw_version d = SCHEDULER_VERSION | Inl _ \<Rightarrow> False)"

definition scheduler_witnesses :: "cell_tx \<Rightarrow> bytes list" where
  "scheduler_witnesses tx = filter is_candidate_bytes (tx_witnesses tx)"

definition push_scheduler_witness :: "cell_tx \<Rightarrow> bytes \<Rightarrow> (tx_build_error, cell_tx) res" where
  "push_scheduler_witness tx w =
     (if \<not> is_scheduler_witness_bytes w then Inl (Err InvalidSchedulerHeader)
      else if scheduler_witnesses tx \<noteq> [] then Inl (Err DuplicateScheduler)
      else Inr (tx\<lparr>tx_witnesses := tx_witnesses tx @ [w]\<rparr>))"

definition push_compiled_scheduler_witness :: "cell_tx \<Rightarrow> bytes \<Rightarrow> (witness_error, cell_tx \<times> sched_witness) res" where
  "push_compiled_scheduler_witness tx compiled =
     (let existing_count = length (scheduler_witnesses tx) in
      if 0 < existing_count then Inl (Err (DuplicateSchedulerWitness (existing_count + 1)))
      else rbind (compiled_summary_for_tx tx compiled) (\<lambda>trusted.
        Inr (tx\<lparr>tx_witnesses := tx_witnesses tx @ [compiled]\<rparr>, trusted)))"

definition decoded_scheduler_witnesses :: "cell_tx \<Rightarrow> (witness_error, sched_witness) res list" where
  "decoded_scheduler_witnesses tx = map decode_scheduler_witness (scheduler_witnesses tx)"

definition admitted_scheduler_witnesses :: "cell_tx \<Rightarrow> (witness_error, sched_witness) res list" where
  "admitted_scheduler_witnesses tx = map (decode_for_tx tx) (scheduler_witnesses tx)"

end
