(* ===== verification/SchedWitnessProps.thy ===== *)
theory SchedWitnessProps
  imports SchedWitness
begin

text \<open>
  The Molecule codec of scheduler witnesses is canonical and never panics, and
  the comparison with a trusted summary is exactly equality up to the order of
  accesses and of shared touches.
\<close>

section \<open>Numbers and tables\<close>

lemma length_pack_number [simp]: "length (pack_number n) = 4"
  by (simp add: pack_number_def)

lemma unpack_pack_number [simp]: "n < 2 ^ 32 \<Longrightarrow> unpack_number (pack_number n @ bs) = Inr n"
  by (simp add: unpack_number_def pack_number_def)

lemma unpack_number_pack: "unpack_number bs = Inr n \<Longrightarrow> n < 2 ^ 32 \<and> pack_number n = take 4 bs"
  using unsigned_less [of "from_le (take 4 bs) :: 32 word"]
  by (auto simp: unpack_number_def pack_number_def len32_def le_from_widths split: if_splits)

lemma unpack_number_long: "4 \<le> length bs \<Longrightarrow> \<exists>n. unpack_number bs = Inr n"
  by (simp add: unpack_number_def)

text \<open>The offsets of a table: one per field and the end.\<close>

primrec offsets_of :: "nat \<Rightarrow> bytes list \<Rightarrow> nat list" where
  "offsets_of s [] = [s]"
| "offsets_of s (f # fs) = s # offsets_of (s + length f) fs"

lemma offsets_of_props [simp]:
  "offsets_of s fs \<noteq> []" "hd (offsets_of s fs) = s" "length (offsets_of s fs) = Suc (length fs)"
  "last (offsets_of s fs) = s + sum_list (map length fs)"
  by (induction fs arbitrary: s) auto

lemma offsets_of_bounds: "x \<in> set (offsets_of s fs) \<Longrightarrow> s \<le> x \<and> x \<le> s + sum_list (map length fs)"
  by (induction fs arbitrary: s) (auto, fastforce+)

lemma offsets_of_Cons: "\<exists>xs. offsets_of s fs = s # xs"
  by (cases fs) auto

lemma pack_offsets_eq: "pack_offsets s fs = concat (map pack_number (butlast (offsets_of s fs)))"
  by (induction fs arbitrary: s) auto

lemma length_pack_offsets [simp]: "length (pack_offsets s fs) = 4 * length fs"
  by (induction fs arbitrary: s) auto

lemma windows2_sorted_offsets: "(a, b) \<in> set (windows2 (offsets_of s fs)) \<Longrightarrow> a \<le> b"
proof (induction fs arbitrary: s)
  case (Cons f fs)
  obtain xs where xs: "offsets_of (s + length f) fs = (s + length f) # xs" using offsets_of_Cons by blast
  with Cons.IH [of "s + length f"] Cons.prems show ?case by auto
qed simp

lemma slices_of_offsets:
  assumes "drop s bs = concat fs" and "s \<le> length bs"
  shows "rmap (\<lambda>(a, b). slice bs a b) (windows2 (offsets_of s fs)) = (Inr fs :: (molecule_error, _) res)"
  using assms
proof (induction fs arbitrary: s)
  case Nil
  then show ?case by simp
next
  case (Cons f fs)
  obtain xs where xs: "offsets_of (s + length f) fs = (s + length f) # xs" using offsets_of_Cons by blast
  have "length bs - s = length f + length (concat fs)"
    using arg_cong [OF Cons.prems(1), of length] by simp
  then have le: "s + length f \<le> length bs" using Cons.prems(2) by linarith
  have d: "drop (s + length f) bs = concat fs"
    using Cons.prems(1) by (metis append_eq_conv_conj concat.simps(2) drop_drop add.commute)
  have "slice bs s (s + length f) = (Inr f :: (molecule_error, _) res)"
    using le Cons.prems(1) by simp
  with Cons.IH [OF d le] show ?case by (simp add: xs)
qed

lemma length_encode_table: "length (encode_table fs) = 4 * (length fs + 1) + sum_list (map length fs)"
  by (simp add: encode_table_def Let_def length_concat)

lemma decode_encode_table:
  assumes "fs \<noteq> []" and size: "length (encode_table fs) < 2 ^ 32"
  shows "decode_table (encode_table fs) (length fs) = Inr fs"
proof -
  define h where "h = 4 * (length fs + 1)"
  define t where "t = h + sum_list (map length fs)"
  let ?bs = "encode_table fs"
  have bs: "?bs = pack_number t @ pack_offsets h fs @ concat fs"
    by (simp add: encode_table_def Let_def h_def t_def)
  have len: "length ?bs = t" by (simp add: length_encode_table h_def t_def)
  have t32: "t < 2 ^ 32" using size len by simp
  have h8: "8 \<le> h" using assms(1) by (cases fs) (simp_all add: h_def)
  have ht: "h \<le> t" by (simp add: t_def)
  have small: "x < 2 ^ 32" if "x \<in> set (offsets_of h fs)" for x
    using offsets_of_bounds [OF that] t32 by (simp add: t_def)
  have u1: "unpack_number ?bs = Inr t" unfolding bs using t32 by (rule unpack_pack_number)
  have u2: "unpack_number (drop 4 ?bs) = Inr h"
  proof -
    obtain f fs' where "fs = f # fs'" using assms(1) by (cases fs) auto
    then have "drop 4 ?bs = pack_number h @ pack_offsets (h + length f) fs' @ concat fs" unfolding bs by simp
    then show ?thesis using ht t32 by simp
  qed
  have hdr: "slice ?bs 4 h = (Inr (pack_offsets h fs) :: (molecule_error, _) res)"
    using h8 ht len unfolding bs by (simp add: h_def)
  have chunks: "chunks_exact 4 (pack_offsets h fs) = map pack_number (butlast (offsets_of h fs))"
    unfolding pack_offsets_eq by (rule chunks_exact_concat) auto
  have "unpack_number (pack_number x) = Inr x" if "x \<in> set (butlast (offsets_of h fs))" for x
    using unpack_pack_number [OF small [OF in_set_butlastD [OF that]], of "[]"] by simp
  then have "rmap unpack_number (map pack_number (butlast (offsets_of h fs))) = Inr (butlast (offsets_of h fs))"
    by (simp add: rmap_Inr_iff)
  moreover have "butlast (offsets_of h fs) @ [t] = offsets_of h fs"
    using append_butlast_last_id [of "offsets_of h fs"] by (simp add: t_def)
  moreover have "\<not> (\<exists>(a, b) \<in> set (windows2 (offsets_of h fs)). b < a)"
    using windows2_sorted_offsets by fastforce
  moreover have "\<not> (\<exists>off \<in> set (offsets_of h fs). off < h \<or> t < off)"
    using offsets_of_bounds by (fastforce simp: t_def)
  moreover have "rmap (\<lambda>(a, b). slice ?bs a b) (windows2 (offsets_of h fs)) = (Inr fs :: (molecule_error, _) res)"
    by (rule slices_of_offsets) (use ht len bs h_def in simp_all)
  moreover have "h mod 4 = 0" "h div 4 - 1 = length fs" by (simp_all add: h_def)
  ultimately show ?thesis
    using h8 ht len by (simp add: decode_table_def u1 u2 hdr chunks Let_def)
qed

lemma slices_cover:
  assumes "rmap (\<lambda>(a, b). slice bs a b) (windows2 os) = (Inr fs :: (molecule_error, _) res)" and "os \<noteq> []"
    and "last os = length bs" and "hd os \<le> length bs"
  shows "offsets_of (hd os) fs = os \<and> concat fs = drop (hd os) bs"
  using assms
proof (induction os arbitrary: fs rule: windows2.induct)
  case (1 x y zs)
  from "1.prems"(1) obtain f fs' where f: "slice bs x y = (Inr f :: (molecule_error, _) res)"
    "rmap (\<lambda>(a, b). slice bs a b) (windows2 (y # zs)) = (Inr fs' :: (molecule_error, _) res)" "fs = f # fs'"
    by (auto elim!: rbind_InrE)
  from f(1) have xy: "x \<le> y" "y \<le> length bs" "f = take (y - x) (drop x bs)" by (auto simp: slice_def split: if_splits)
  have IH: "offsets_of y fs' = y # zs" "concat fs' = drop y bs"
    using "1.IH" [OF f(2)] "1.prems"(3) xy(2) by auto
  have "length f = y - x" using xy by simp
  moreover have "take (y - x) (drop x bs) @ drop y bs = drop x bs"
    using xy(1) by (metis append_take_drop_id drop_drop le_add_diff_inverse2)
  ultimately show ?case using IH xy by (simp add: f(3))
qed simp_all

lemma decode_table_sound:
  assumes "decode_table bs n = Inr fs"
  shows "length fs = n \<and> encode_table fs = bs \<and> length bs < 2 ^ 32"
proof -
  from assms obtain t h where A: "8 \<le> length bs" "unpack_number bs = Inr t" "t = length bs" "unpack_number (drop 4 bs) = Inr h"
    "h mod 4 = 0" "8 \<le> h" "h \<le> length bs" "h div 4 - 1 = n"
    and rest: "rbind (slice bs 4 h) (\<lambda>header. rbind (rmap unpack_number (chunks_exact 4 header)) (\<lambda>offs.
        if \<exists>(a, b) \<in> set (windows2 (offs @ [t])). b < a then Inl (Err OffsetsNotMonotonic)
        else if \<exists>off \<in> set (offs @ [t]). off < h \<or> t < off then Inl (Err OffsetOutsidePayload)
        else rmap (\<lambda>(a, b). slice bs a b) (windows2 (offs @ [t])))) = Inr fs"
    unfolding decode_table_def Let_def by (auto elim!: rbind_InrE split: if_splits)
  have h: "h = 4 * (n + 1)" using A(5,6,8) by presburger
  define header where "header = take (h - 4) (drop 4 bs)"
  have hdr: "slice bs 4 h = (Inr header :: (molecule_error, _) res)" using A(6,7) by (simp add: header_def)
  have hl: "length header = 4 * n" using A(7) by (simp add: header_def h)
  define cs where "cs = chunks_exact 4 header"
  have cs: "length cs = n" "\<forall>c \<in> set cs. length c = 4" "concat cs = header"
    using chunks_exact_props [OF _ hl] unfolding cs_def by auto
  obtain offs where offs: "rmap unpack_number cs = Inr offs"
    "rmap (\<lambda>(a, b). slice bs a b) (windows2 (offs @ [t])) = (Inr fs :: (molecule_error, _) res)"
    using rest hdr unfolding cs_def by (auto elim!: rbind_InrE split: if_splits)
  have el: "length offs = n" "\<And>i. i < n \<Longrightarrow> unpack_number (cs ! i) = Inr (offs ! i)"
    using offs(1) cs(1) unfolding rmap_Inr_iff by auto
  have packed: "map pack_number offs = cs"
  proof (rule nth_equalityI)
    fix i assume "i < length (map pack_number offs)"
    then have i: "i < n" using el(1) by simp
    show "map pack_number offs ! i = cs ! i"
      using unpack_number_pack [OF el(2) [OF i]] cs(1,2) i el(1) by simp
  qed (simp add: el(1) cs(1))
  have n0: "0 < n" using h A(6) by simp
  then obtain c cs' where c: "cs = c # cs'" using cs(1) by (cases cs) auto
  have "take 4 header = c" using cs(2,3) c by auto
  then have "c = take 4 (drop 4 bs)" using n0 by (simp add: header_def h)
  then have "unpack_number c = Inr h" using A(1,4) by (simp add: unpack_number_def split: if_splits)
  then have hd: "hd (offs @ [t]) = h" using el(2) [OF n0] el(1) n0 c by (cases offs) auto
  have C: "offsets_of h fs = offs @ [t]" "concat fs = drop h bs"
    using slices_cover [OF offs(2)] A(3,7) hd by auto
  have lf: "length fs = n" using arg_cong [OF C(1), of length] el(1) by simp
  have "t = h + sum_list (map length fs)" using arg_cong [OF C(1), of last] by simp
  then have "encode_table fs = pack_number t @ pack_offsets h fs @ concat fs"
    by (simp add: encode_table_def Let_def lf h)
  also have "pack_offsets h fs = header" using cs(3) packed by (simp add: pack_offsets_eq C(1))
  also have "pack_number t = take 4 bs" using unpack_number_pack [OF A(2)] by simp
  also have "take 4 bs @ header @ concat fs = bs"
  proof -
    have "drop 4 bs = take (h - 4) (drop 4 bs) @ drop h bs"
      using A(6) append_take_drop_id [of "h - 4" "drop 4 bs"] by simp
    then show ?thesis unfolding C(2) header_def by (metis append_take_drop_id)
  qed
  finally show ?thesis using lf unpack_number_pack [OF A(2)] A(3) by simp
qed

lemma decode_table_no_panic:
  "decode_table bs n \<noteq> Inl Panic \<and> decode_table bs n \<noteq> Inl OutOfFuel"
proof (cases "\<exists>t h. 8 \<le> length bs \<and> unpack_number bs = Inr t \<and> t = length bs \<and> unpack_number (drop 4 bs) = Inr h \<and>
    h mod 4 = 0 \<and> 8 \<le> h \<and> h \<le> length bs \<and> h div 4 - 1 = n")
  case False
  then show ?thesis
    unfolding decode_table_def Let_def by (auto simp: unpack_number_def split: if_splits)
next
  case True
  then obtain t h where A: "8 \<le> length bs" "unpack_number bs = Inr t" "t = length bs" "unpack_number (drop 4 bs) = Inr h"
    "h mod 4 = 0" "8 \<le> h" "h \<le> length bs" "h div 4 - 1 = n" by (elim exE conjE) (rule that)
  define header where "header = take (h - 4) (drop 4 bs)"
  have hdr: "slice bs 4 h = (Inr header :: (molecule_error, _) res)" using A(6,7) by (simp add: header_def)
  have "h = 4 * (n + 1)" using A(5,6,8) by presburger
  then have "length header = 4 * n" using A(7) by (simp add: header_def)
  then have "\<forall>c \<in> set (chunks_exact 4 header). length c = 4" using chunks_exact_props [of 4 header n] by simp
  then obtain offs where offs: "rmap unpack_number (chunks_exact 4 header) = Inr offs"
    using rmap_total [of "chunks_exact 4 header" unpack_number "\<lambda>c. unat (from_le (take 4 c) :: 32 word)"]
    by (auto simp: unpack_number_def)
  have run: "decode_table bs n = (if \<exists>(a, b) \<in> set (windows2 (offs @ [t])). b < a then Inl (Err OffsetsNotMonotonic)
      else if \<exists>off \<in> set (offs @ [t]). off < h \<or> t < off then Inl (Err OffsetOutsidePayload)
      else rmap (\<lambda>(a, b). slice bs a b) (windows2 (offs @ [t])))"
    using A unfolding decode_table_def Let_def by (simp add: hdr offs)
  have win: "set (windows2 xs) \<subseteq> set xs \<times> set xs" for xs :: "nat list"
    by (induction xs rule: windows2.induct) auto
  show ?thesis
  proof (cases "(\<exists>(a, b) \<in> set (windows2 (offs @ [t])). b < a) \<or> (\<exists>off \<in> set (offs @ [t]). off < h \<or> t < off)")
    case True
    then show ?thesis unfolding run by (auto split: if_splits)
  next
    case False
    then have nn: "\<not> (\<exists>(a, b) \<in> set (windows2 (offs @ [t])). b < a)" "\<not> (\<exists>off \<in> set (offs @ [t]). off < h \<or> t < off)"
      by blast+
    have "(case p of (a, b) \<Rightarrow> slice bs a b) = (Inr (case p of (a, b) \<Rightarrow> take (b - a) (drop a bs)) :: (molecule_error, _) res)"
      if p: "p \<in> set (windows2 (offs @ [t]))" for p
    proof -
      obtain a b where ab: "p = (a, b)" by (cases p)
      have "a \<le> b" using nn(1) p ab by fastforce
      moreover have "b \<in> set (offs @ [t])" using win p ab by blast
      then have "b \<le> length bs" using nn(2) A(3) by fastforce
      ultimately show ?thesis using ab by simp
    qed
    then have "rmap (\<lambda>(a, b). slice bs a b) (windows2 (offs @ [t])) =
        (Inr (map (\<lambda>(a, b). take (b - a) (drop a bs)) (windows2 (offs @ [t]))) :: (molecule_error, _) res)"
      by (rule rmap_total)
    then show ?thesis unfolding run if_not_P [OF nn(1)] if_not_P [OF nn(2)] by simp
  qed
qed

section \<open>Vectors and scalars\<close>

lemma concat_chunks_map:
  assumes "\<And>x. length (e x) = n" and "0 < n"
  shows "chunks_exact n (concat (map e xs)) = map e xs"
  by (rule chunks_exact_concat) (auto simp: assms)

lemma length_concat_const: "(\<And>x. length (e x) = n) \<Longrightarrow> length (concat (map e xs)) = length xs * n"
  by (induction xs) simp_all

lemma decode_fixvec_iff:
  "decode_fixvec_byte32 bs = Inr hs \<longleftrightarrow> length hs < 2 ^ 32 \<and> bs = encode_fixvec_byte32 hs"
proof
  assume "decode_fixvec_byte32 bs = Inr hs"
  then obtain n where n: "unpack_number bs = Inr n" "length bs = 4 + n * 32"
    "hs = map hash_of_bytes (chunks_exact 32 (drop 4 bs))"
    by (auto simp: decode_fixvec_byte32_def Let_def elim!: rbind_InrE split: if_splits)
  have C: "length (chunks_exact 32 (drop 4 bs)) = n" "\<forall>c \<in> set (chunks_exact 32 (drop 4 bs)). length c = 32"
    "concat (chunks_exact 32 (drop 4 bs)) = drop 4 bs"
    using chunks_exact_props [of 32 "drop 4 bs" n] n(2) by auto
  have "map hash_bytes hs = chunks_exact 32 (drop 4 bs)"
    unfolding n(3) using C(2) by (simp add: map_idI hash_bytes_of_hash)
  then have "encode_fixvec_byte32 hs = pack_number n @ drop 4 bs"
    using C(1,3) by (simp add: encode_fixvec_byte32_def n(3))
  moreover note unpack_number_pack [OF n(1)]
  ultimately show "length hs < 2 ^ 32 \<and> bs = encode_fixvec_byte32 hs"
    using C(1) by (simp add: n(3))
next
  assume "length hs < 2 ^ 32 \<and> bs = encode_fixvec_byte32 hs"
  moreover have "map (hash_of_bytes \<circ> hash_bytes) hs = hs" by (simp add: map_idI)
  ultimately show "decode_fixvec_byte32 bs = Inr hs"
    by (simp add: decode_fixvec_byte32_def encode_fixvec_byte32_def Let_def length_concat_const [where n = 32]
        concat_chunks_map)
qed

lemma length_encode_access [simp]: "length (encode_access a) = ACCESS_SIZE"
  by (simp add: encode_access_def ACCESS_SIZE_def)

lemma decode_access_Cons:
  assumes "length r = 36"
  shows "decode_access (x # y # r) = Inr \<lparr>aw_operation = x, aw_source = y, aw_index = from_le (take 4 r),
    aw_binding_hash = hash_of_bytes (drop 4 r)\<rparr>"
proof -
  have "take 32 (drop 4 r) = drop 4 r" using assms by simp
  then show ?thesis using assms by (simp add: decode_access_def drop_Cons')
qed

lemma decode_encode_access [simp]: "decode_access (encode_access a) = Inr a"
  using decode_access_Cons [of "le32 (aw_index a) @ hash_bytes (aw_binding_hash a)" "aw_operation a" "aw_source a"]
  by (simp add: encode_access_def)

lemma decode_access_sound:
  assumes "length c = ACCESS_SIZE"
  shows "\<exists>a. decode_access c = Inr a \<and> encode_access a = c"
proof -
  have l: "length c = 38" using assms by (simp add: ACCESS_SIZE_def)
  obtain x y r where c: "c = x # y # r" using l by (cases c; cases "tl c") auto
  have r: "length r = 36" using l c by simp
  show ?thesis
    unfolding c decode_access_Cons [OF r] using r by (simp add: encode_access_def le_from_widths hash_bytes_of_hash)
qed

lemma decode_accesses_iff:
  "decode_accesses bs = Inr as \<longleftrightarrow> length as < 2 ^ 32 \<and> bs = encode_accesses as"
proof
  assume "decode_accesses bs = Inr as"
  then obtain n where n: "unpack_number bs = Inr n" "length bs = 4 + n * ACCESS_SIZE"
    "rmap decode_access (chunks_exact ACCESS_SIZE (drop 4 bs)) = Inr as"
    by (auto simp: decode_accesses_def Let_def elim!: rbind_InrE split: if_splits)
  let ?cs = "chunks_exact ACCESS_SIZE (drop 4 bs)"
  have "0 < ACCESS_SIZE" by (simp add: ACCESS_SIZE_def)
  then have C: "length ?cs = n" "\<forall>c \<in> set ?cs. length c = ACCESS_SIZE" "concat ?cs = drop 4 bs"
    using chunks_exact_props [of ACCESS_SIZE "drop 4 bs" n] n(2) by auto
  have el: "length as = n" "\<And>i. i < n \<Longrightarrow> decode_access (?cs ! i) = Inr (as ! i)"
    using n(3) C(1) unfolding rmap_Inr_iff by auto
  have "map encode_access as = ?cs"
  proof (rule nth_equalityI)
    fix i assume "i < length (map encode_access as)"
    then have i: "i < n" using el(1) by simp
    then have "length (?cs ! i) = ACCESS_SIZE" using C(1,2) by simp
    from decode_access_sound [OF this] el(2) [OF i] show "map encode_access as ! i = ?cs ! i"
      using i el(1) by auto
  qed (simp add: el(1) C(1))
  then show "length as < 2 ^ 32 \<and> bs = encode_accesses as"
    using C(3) unpack_number_pack [OF n(1)] el(1) by (simp add: encode_accesses_def)
next
  assume A: "length as < 2 ^ 32 \<and> bs = encode_accesses as"
  have "0 < ACCESS_SIZE" by (simp add: ACCESS_SIZE_def)
  then have "chunks_exact ACCESS_SIZE (concat (map encode_access as)) = map encode_access as"
    by (intro concat_chunks_map) simp_all
  moreover have "rmap decode_access (map encode_access as) = Inr as" by (simp add: rmap_Inr_iff)
  ultimately show "decode_accesses bs = Inr as"
    using A by (simp add: decode_accesses_def encode_accesses_def Let_def length_concat_const [where n = ACCESS_SIZE])
qed

lemma decode_scalar_iff:
  "decode_u8 bs = Inr a \<longleftrightarrow> bs = [a]"
  "decode_bool bs = Inr b \<longleftrightarrow> bs = [if b then 1 else 0]"
  "decode_u16 bs = Inr c \<longleftrightarrow> bs = le16 c"
  "decode_u32 bs = Inr d \<longleftrightarrow> bs = le32 d"
  "decode_u64 bs = Inr e \<longleftrightarrow> bs = le64 e"
proof -
  show u8: "decode_u8 bs = Inr a \<longleftrightarrow> bs = [a]" for a
    by (auto simp: decode_u8_def length_Suc_conv split: if_splits)
  show "decode_bool bs = Inr b \<longleftrightarrow> bs = [if b then 1 else 0]"
    by (cases b) (auto simp: decode_bool_def rbind_Inr_iff u8 split: if_splits intro!: exI [of _ 0])
  show "decode_u16 bs = Inr c \<longleftrightarrow> bs = le16 c" "decode_u32 bs = Inr d \<longleftrightarrow> bs = le32 d"
    "decode_u64 bs = Inr e \<longleftrightarrow> bs = le64 e"
    by (auto simp: decode_u16_def decode_u32_def decode_u64_def le_from_widths split: if_splits)
qed

section \<open>Whole witnesses\<close>

lemma map_decode_iff [simp]: "map_decode r = Inr v \<longleftrightarrow> r = Inr v"
  by (auto simp: map_decode_def split: sum.splits fault.splits)

lemma map_decode_Inr [simp]: "map_decode (Inr v) = Inr v"
  by (simp add: map_decode_def)

lemma map_decode_no_panic [simp]: "map_decode r = Inl Panic \<longleftrightarrow> r = Inl Panic"
  by (auto simp: map_decode_def split: sum.splits fault.splits)

lemma rbind_no_panic: "m \<noteq> Inl Panic \<Longrightarrow> (\<And>v. m = Inr v \<Longrightarrow> f v \<noteq> Inl Panic) \<Longrightarrow> rbind m f \<noteq> Inl Panic"
  by (cases m) auto

lemma if_no_panic: "x \<noteq> Inl Panic \<Longrightarrow> y \<noteq> Inl Panic \<Longrightarrow> (if b then x else y) \<noteq> Inl Panic"
  by (cases b) simp_all

lemma length_9: "length xs = 9 \<longleftrightarrow> (\<exists>a b c d e f g h i. xs = [a, b, c, d, e, f, g, h, i])"
  by (auto simp: numeral_eq_Suc length_Suc_conv)

lemma decode_unchecked_iff:
  "decode_witness_unchecked bs = Inr w \<longleftrightarrow> bs = encode_witness_molecule w \<and> length bs < 2 ^ 32"
proof
  assume D: "decode_witness_unchecked bs = Inr w"
  then obtain fs where fs: "decode_table bs MOLECULE_FIELDS = Inr fs"
    unfolding decode_witness_unchecked_def by (auto elim!: rbind_InrE)
  note T = decode_table_sound [OF fs]
  then obtain a b c d e f g h i where l: "fs = [a, b, c, d, e, f, g, h, i]"
    unfolding MOLECULE_FIELDS_def length_9 by blast
  from D have "fs = [le16 (sw_magic w), [sw_version w], [sw_effect_class w], [if sw_parallelizable w then 1 else 0],
      le32 (sw_touches_shared_count w), encode_fixvec_byte32 (sw_touches_shared w), le64 (sw_estimated_cycles w),
      le32 (sw_access_count w), encode_accesses (sw_accesses w)]"
    unfolding decode_witness_unchecked_def fs l
    by (auto simp: rbind_Inr_iff decode_scalar_iff decode_fixvec_iff decode_accesses_iff)
  with T show "bs = encode_witness_molecule w \<and> length bs < 2 ^ 32"
    by (simp add: encode_witness_molecule_def)
next
  assume A: "bs = encode_witness_molecule w \<and> length bs < 2 ^ 32"
  define fs where "fs = [le16 (sw_magic w), [sw_version w], [sw_effect_class w], [if sw_parallelizable w then 1 else 0],
      le32 (sw_touches_shared_count w), encode_fixvec_byte32 (sw_touches_shared w), le64 (sw_estimated_cycles w),
      le32 (sw_access_count w), encode_accesses (sw_accesses w)]"
  have bs: "bs = encode_table fs" using A by (simp add: encode_witness_molecule_def fs_def)
  have "length fs = MOLECULE_FIELDS" by (simp add: fs_def MOLECULE_FIELDS_def)
  then have T: "decode_table bs MOLECULE_FIELDS = Inr fs"
    using decode_encode_table [of fs] A bs by (metis fs_def list.distinct(1))
  have sizes: "length (encode_fixvec_byte32 (sw_touches_shared w)) \<le> length bs" "length (encode_accesses (sw_accesses w)) \<le> length bs"
    unfolding bs length_encode_table by (simp_all add: fs_def)
  have l32: "length bs < 2 ^ 32" using A by blast
  have "length (encode_fixvec_byte32 (sw_touches_shared w)) = 4 + length (sw_touches_shared w) * 32"
    "length (encode_accesses (sw_accesses w)) = 4 + length (sw_accesses w) * 38"
    using length_concat_const [of encode_access 38]
    by (simp_all add: encode_fixvec_byte32_def encode_accesses_def length_concat_const [where n = 32] ACCESS_SIZE_def)
  then have "length (sw_touches_shared w) < 2 ^ 32" "length (sw_accesses w) < 2 ^ 32" using sizes l32 by linarith+
  then have v: "decode_fixvec_byte32 (encode_fixvec_byte32 (sw_touches_shared w)) = Inr (sw_touches_shared w)"
    "decode_accesses (encode_accesses (sw_accesses w)) = Inr (sw_accesses w)"
    by (simp_all add: decode_fixvec_iff decode_accesses_iff)
  have u: "decode_u16 (le16 x1) = Inr x1" "decode_u8 [x2] = Inr x2" "decode_bool [if x3 then 1 else 0] = Inr x3"
    "decode_u32 (le32 x4) = Inr x4" "decode_u64 (le64 x5) = Inr x5" for x1 x2 x3 x4 x5
    by (simp_all add: decode_scalar_iff)
  show "decode_witness_unchecked bs = Inr w"
    unfolding decode_witness_unchecked_def T by (simp add: fs_def u v)
qed

lemma decode_parts_no_panic:
  "unpack_number bs \<noteq> Inl Panic" "decode_u8 bs \<noteq> Inl Panic" "decode_bool bs \<noteq> Inl Panic" "decode_u16 bs \<noteq> Inl Panic"
  "decode_u32 bs \<noteq> Inl Panic" "decode_u64 bs \<noteq> Inl Panic" "decode_fixvec_byte32 bs \<noteq> Inl Panic"
  "decode_accesses bs \<noteq> Inl Panic"
proof -
  show u: "unpack_number bs \<noteq> Inl Panic" by (simp add: unpack_number_def)
  show u8: "decode_u8 bs \<noteq> Inl Panic" by (simp add: decode_u8_def)
  show "decode_bool bs \<noteq> Inl Panic" unfolding decode_bool_def by (rule rbind_no_panic [OF u8]) auto
  show "decode_u16 bs \<noteq> Inl Panic" "decode_u32 bs \<noteq> Inl Panic" "decode_u64 bs \<noteq> Inl Panic"
    by (simp_all add: decode_u16_def decode_u32_def decode_u64_def)
  show "decode_fixvec_byte32 bs \<noteq> Inl Panic"
    unfolding decode_fixvec_byte32_def by (rule rbind_no_panic [OF u]) (simp add: Let_def)
  show "decode_accesses bs \<noteq> Inl Panic"
    unfolding decode_accesses_def
  proof (rule rbind_no_panic [OF u])
    fix n
    have pos: "0 < ACCESS_SIZE" by (simp add: ACCESS_SIZE_def)
    have "\<exists>as. rmap decode_access (chunks_exact ACCESS_SIZE (drop 4 bs)) = Inr as" if "length bs = 4 + n * ACCESS_SIZE"
    proof -
      have "\<forall>c \<in> set (chunks_exact ACCESS_SIZE (drop 4 bs)). length c = ACCESS_SIZE"
        using chunks_exact_props [OF pos, of "drop 4 bs" n] that by simp
      then have "\<forall>c \<in> set (chunks_exact ACCESS_SIZE (drop 4 bs)). decode_access c = Inr (projr (decode_access c))"
        using decode_access_sound by fastforce
      then have "rmap decode_access (chunks_exact ACCESS_SIZE (drop 4 bs)) =
          Inr (map (\<lambda>c. projr (decode_access c)) (chunks_exact ACCESS_SIZE (drop 4 bs)))"
        by (intro rmap_total) simp
      then show ?thesis by blast
    qed
    then show "(let expected = 4 + n * ACCESS_SIZE in
        if length bs \<noteq> expected then Inl (Err (VecLengthMismatch expected n (length bs)))
        else rmap decode_access (chunks_exact ACCESS_SIZE (drop 4 bs))) \<noteq> Inl Panic"
      by (auto simp: Let_def)
  qed
qed

lemma decode_unchecked_no_panic: "decode_witness_unchecked bs \<noteq> Inl Panic"
proof (cases "decode_table bs MOLECULE_FIELDS")
  case (Inl e)
  then show ?thesis using decode_table_no_panic [of bs MOLECULE_FIELDS]
    by (cases e) (auto simp: decode_witness_unchecked_def map_decode_def)
next
  case (Inr fs)
  then obtain a b c d e f g h i where l: "fs = [a, b, c, d, e, f, g, h, i]"
    using decode_table_sound [OF Inr] unfolding MOLECULE_FIELDS_def length_9 by blast
  show ?thesis
    unfolding decode_witness_unchecked_def Inr l
    by simp (intro rbind_no_panic; simp add: decode_parts_no_panic)
qed

text \<open>The admission conditions, without their order.\<close>

definition access_ok :: "access_witness \<Rightarrow> bool" where
  "access_ok a \<longleftrightarrow> aw_operation a \<in> {1..9} \<and> operation_accepts_source (aw_operation a) (aw_source a)"

definition body_ok :: "sched_witness \<Rightarrow> bool" where
  "body_ok w \<longleftrightarrow> unat (sw_touches_shared_count w) = length (sw_touches_shared w) \<and> unat (sw_access_count w) = length (sw_accesses w) \<and>
     sw_effect_class w \<le> 4 \<and> (\<forall>a \<in> set (sw_accesses w). access_ok a)"

lemma byte_le_4: "(b :: byte) \<le> 4 \<longleftrightarrow> b \<in> {0, 1, 2, 3, 4}"
proof -
  have "b \<in> {0, 1, 2, 3, 4}" if "unat b \<le> 4"
  proof -
    have "unat b = 0 \<or> unat b = 1 \<or> unat b = 2 \<or> unat b = 3 \<or> unat b = 4" using that by linarith
    then show ?thesis by (auto simp: word_unat_eq_iff [of b])
  qed
  then show ?thesis by (auto simp: word_le_nat_alt)
qed

lemma byte_1_9: "(b :: byte) \<in> {1..9} \<longleftrightarrow> b \<in> {1, 2, 3, 4, 5, 6, 7, 8, 9}"
proof -
  have "b \<in> {1, 2, 3, 4, 5, 6, 7, 8, 9}" if "1 \<le> unat b" "unat b \<le> 9"
  proof -
    have "unat b = 1 \<or> unat b = 2 \<or> unat b = 3 \<or> unat b = 4 \<or> unat b = 5 \<or> unat b = 6 \<or> unat b = 7 \<or> unat b = 8 \<or> unat b = 9"
      using that by linarith
    then show ?thesis by (auto simp: word_unat_eq_iff [of b])
  qed
  then show ?thesis by (auto simp: word_le_nat_alt)
qed

lemma validate_access_envelope_iff: "validate_access_envelope a = Inr () \<longleftrightarrow> access_ok a"
  unfolding access_ok_def byte_1_9
  by (auto simp: validate_access_envelope_def operation_accepts_source_def)

lemma validate_envelope_iff:
  "validate_envelope w = Inr () \<longleftrightarrow> sw_effect_class w \<le> 4 \<and> (\<forall>a \<in> set (sw_accesses w). access_ok a)"
  unfolding byte_le_4 by (auto simp: validate_envelope_def rfold_unit_iff validate_access_envelope_iff)

lemma validate_counts_iff:
  "validate_counts w = Inr () \<longleftrightarrow> unat (sw_touches_shared_count w) = length (sw_touches_shared w) \<and>
     unat (sw_access_count w) = length (sw_accesses w)"
  by (auto simp: validate_counts_def)

lemma validate_header_and_body_iff:
  "validate_header_and_body w = Inr w' \<longleftrightarrow> w' = w \<and> sw_magic w = 0xCE11 \<and> sw_version w = 1 \<and> body_ok w"
  by (auto simp: validate_header_and_body_def rbind_Inr_iff validate_counts_iff validate_envelope_iff body_ok_def SCHEDULER_VERSION_def)

lemma validations_no_panic:
  "validate_access_envelope a \<noteq> Inl Panic" "validate_envelope w \<noteq> Inl Panic" "validate_header_and_body w \<noteq> Inl Panic"
proof -
  show a: "validate_access_envelope a \<noteq> Inl Panic" for a
    unfolding validate_access_envelope_def by (intro if_no_panic) simp_all
  have f: "rfold (\<lambda>_ a. validate_access_envelope a) () as \<noteq> Inl Panic" for as
  proof (induction as)
    case (Cons b bs)
    then show ?case unfolding rfold.simps by (intro rbind_no_panic [OF a]) simp
  qed simp
  show e: "validate_envelope w \<noteq> Inl Panic"
    unfolding validate_envelope_def using f [of "sw_accesses w"] by (simp split: if_splits)
  have c: "validate_counts w \<noteq> Inl Panic" by (simp add: validate_counts_def)
  have "rbind (validate_counts w) (\<lambda>_. rbind (validate_envelope w) (\<lambda>_. Inr w)) \<noteq> Inl Panic"
    by (rule rbind_no_panic [OF c rbind_no_panic [OF e]]) simp
  then show "validate_header_and_body w \<noteq> Inl Panic" unfolding validate_header_and_body_def by (simp split: if_splits)
qed

section \<open>Multisets of accesses\<close>

lemma map_fst_btree [simp]: "map fst (btree_counts ks) = sort (remdups ks)"
  by (simp add: btree_counts_def comp_def)

lemma btree_get_counts: "btree_get (btree_counts ks) k = count (mset ks) k"
proof -
  have "map_of (map (\<lambda>k. (k, count_list ks k)) xs) k = (if k \<in> set xs then Some (count_list ks k) else None)" for xs
    by (induction xs) auto
  then show ?thesis
    by (auto simp: btree_get_def btree_counts_def count_mset count_list_0_iff)
qed

lemma btree_counts_eq_iff: "btree_counts xs = btree_counts ys \<longleftrightarrow> mset xs = mset ys"
proof
  assume "btree_counts xs = btree_counts ys"
  then have "count (mset xs) k = count (mset ys) k" for k by (metis btree_get_counts)
  then show "mset xs = mset ys" by (simp add: multiset_eq_iff)
next
  assume m: "mset xs = mset ys"
  then have "set xs = set ys" by (metis set_mset_mset)
  then have "sort (remdups xs) = sort (remdups ys)"
    by (metis distinct_remdups set_eq_iff_mset_eq_distinct set_remdups properties_for_sort sorted_sort mset_sort)
  moreover have "count_list xs k = count_list ys k" for k using m by (metis count_mset)
  ultimately show "btree_counts xs = btree_counts ys" by (simp add: btree_counts_def)
qed

lemma compare_counts_iff: "compare_counts (btree_counts xs) (btree_counts ys) = Inr () \<longleftrightarrow> mset xs = mset ys"
proof -
  have "(let e = btree_get (btree_counts xs) k; a = btree_get (btree_counts ys) k in
      if e \<noteq> a then (case k of (operation, source, index, binding) \<Rightarrow>
        Inl (Err (AccessSetMismatch operation source index binding e a))) else Inr ()) = Inr () \<longleftrightarrow>
      count (mset xs) k = count (mset ys) k" for k
    by (cases k) (simp add: Let_def btree_get_counts)
  then have "compare_counts (btree_counts xs) (btree_counts ys) = Inr () \<longleftrightarrow>
      (\<forall>k \<in> set xs \<union> set ys. count (mset xs) k = count (mset ys) k)"
    unfolding compare_counts_def rfold_unit_iff by simp
  also have "\<dots> \<longleftrightarrow> mset xs = mset ys"
    by (auto simp: multiset_eq_iff) (metis Un_iff count_mset_0_iff)
  finally show ?thesis .
qed

lemma access_key_inject [simp]: "access_key a = access_key b \<longleftrightarrow> a = b"
  by (auto simp: access_key_def)

lemma mset_access_key: "mset (map access_key xs) = mset (map access_key ys) \<longleftrightarrow> mset xs = mset ys"
proof -
  have "inj access_key" by (rule injI) simp
  from inj_eq [OF multiset.inj_map [OF this]] show ?thesis by simp
qed

section \<open>Properties\<close>

lemma decode_molecule_iff:
  "decode_witness_molecule bs = Inr w \<longleftrightarrow> bs = encode_witness_molecule w \<and> length bs < 2 ^ 32 \<and>
     sw_magic w = 0xCE11 \<and> sw_version w = 1 \<and> body_ok w"
  unfolding decode_witness_molecule_def rbind_Inr_iff decode_unchecked_iff validate_header_and_body_iff by auto

interpretation witness_codec: codec encode_witness_molecule decode_witness_molecule
  "\<lambda>w. length (encode_witness_molecule w) < 2 ^ 32 \<and> sw_magic w = 0xCE11 \<and> sw_version w = 1 \<and> body_ok w"
  by unfold_locales (simp_all add: decode_molecule_iff)

text \<open>
  C36: the scheduler witness codec is canonical and total: a byte string decodes to a witness
  exactly when it is the encoding of that witness, is shorter than 4 GiB and the
  witness passes admission (magic, version, redundant counts, effect class and the
  operation/source table); no byte string makes the decoder panic.
\<close>

theorem scheduler_witness_canonical:
  "(decode_witness_molecule bs = Inr w \<longleftrightarrow> bs = encode_witness_molecule w \<and> length bs < 2 ^ 32 \<and>
      sw_magic w = 0xCE11 \<and> sw_version w = 1 \<and> body_ok w) \<and>
   decode_witness_molecule bs \<noteq> Inl Panic"
proof
  show "decode_witness_molecule bs \<noteq> Inl Panic"
    unfolding decode_witness_molecule_def
    by (rule rbind_no_panic [OF decode_unchecked_no_panic validations_no_panic(3)])
qed (rule decode_molecule_iff)

text \<open>
  C37: a witness passes the comparison with a trusted summary exactly when both are
  well formed, the scalar fields are equal, and the shared touches and the access
  records are equal as multisets: order is ignored, multiplicity is not.
\<close>

theorem validate_summary_multiset:
  "validate_summary w e = Inr () \<longleftrightarrow> body_ok w \<and> body_ok e \<and> sw_magic w = sw_magic e \<and> sw_version w = sw_version e \<and>
     sw_effect_class w = sw_effect_class e \<and> sw_parallelizable w = sw_parallelizable e \<and>
     sw_estimated_cycles w = sw_estimated_cycles e \<and> mset (sw_touches_shared w) = mset (sw_touches_shared e) \<and>
     mset (sw_accesses w) = mset (sw_accesses e)"
proof -
  have set: "validate_access_set w (sw_accesses e) = Inr () \<longleftrightarrow>
      body_ok w \<and> (\<forall>a \<in> set (sw_accesses e). access_ok a) \<and> mset (sw_accesses e) = mset (sw_accesses w)"
    unfolding validate_access_set_def rbind_Inr_iff
    by (auto simp: validate_counts_iff validate_envelope_iff rfold_unit_iff validate_access_envelope_iff compare_counts_iff
        mset_access_key body_ok_def simp del: mset_map)
  have "validate_summary w e = Inr () \<longleftrightarrow> validate_counts w = Inr () \<and> validate_counts e = Inr () \<and>
      validate_envelope w = Inr () \<and> validate_envelope e = Inr () \<and> sw_magic w = sw_magic e \<and> sw_version w = sw_version e \<and>
      sw_effect_class w = sw_effect_class e \<and> sw_parallelizable w = sw_parallelizable e \<and>
      sw_estimated_cycles w = sw_estimated_cycles e \<and> counted_hashes (sw_touches_shared w) = counted_hashes (sw_touches_shared e) \<and>
      validate_access_set w (sw_accesses e) = Inr ()"
    unfolding validate_summary_def by (simp add: rbind_Inr_iff)
  also have "\<dots> \<longleftrightarrow> body_ok w \<and> body_ok e \<and> sw_magic w = sw_magic e \<and> sw_version w = sw_version e \<and>
      sw_effect_class w = sw_effect_class e \<and> sw_parallelizable w = sw_parallelizable e \<and>
      sw_estimated_cycles w = sw_estimated_cycles e \<and> mset (sw_touches_shared w) = mset (sw_touches_shared e) \<and>
      mset (sw_accesses w) = mset (sw_accesses e)"
    unfolding validate_counts_iff validate_envelope_iff set counted_hashes_def btree_counts_eq_iff body_ok_def by auto
  finally show ?thesis .
qed

text \<open>
  C38: appending a scheduler witness leaves the transaction with exactly that one scheduler
  witness slot, and every later attempt to append one is refused.
\<close>

theorem push_scheduler_unique:
  assumes "push_scheduler_witness tx w = Inr tx'"
  shows "scheduler_witnesses tx' = [w] \<and> tx_witnesses tx' = tx_witnesses tx @ [w] \<and>
    (\<exists>d. decoded_scheduler_witnesses tx' = [Inr d]) \<and>
    (\<forall>v. push_scheduler_witness tx' v = Inl (Err (if is_scheduler_witness_bytes v then DuplicateScheduler else InvalidSchedulerHeader)))"
proof -
  from assms have A: "is_scheduler_witness_bytes w" "scheduler_witnesses tx = []" "tx' = tx\<lparr>tx_witnesses := tx_witnesses tx @ [w]\<rparr>"
    by (auto simp: push_scheduler_witness_def split: if_splits)
  from A(1) obtain d where d: "decode_witness_molecule w = Inr d"
    by (auto simp: is_scheduler_witness_bytes_def split: sum.splits)
  have un: "decode_witness_unchecked w = Inr d"
    using d unfolding decode_molecule_iff decode_unchecked_iff by blast
  have "sw_magic d = 0xCE11" "sw_version d = 1" using d unfolding decode_molecule_iff by blast+
  then have "is_candidate_bytes w" by (simp add: is_candidate_bytes_def un SCHEDULER_VERSION_def)
  then have one: "scheduler_witnesses tx' = [w]" using A(2,3) by (simp add: scheduler_witnesses_def)
  then show ?thesis using A(3) d
    by (simp add: push_scheduler_witness_def decoded_scheduler_witnesses_def decode_scheduler_witness_def)
qed

definition ex_witness :: sched_witness where
  "ex_witness = \<lparr>sw_magic = 0xCE11, sw_version = 1, sw_effect_class = 2, sw_parallelizable = True, sw_touches_shared_count = 0,
     sw_touches_shared = [], sw_estimated_cycles = 7, sw_access_count = 1,
     sw_accesses = [\<lparr>aw_operation = 1, aw_source = 1, aw_index = 0, aw_binding_hash = 5\<rparr>]\<rparr>"

definition ex_tx :: cell_tx where
  "ex_tx = \<lparr>tx_version = CELL_TX_VERSION, tx_inputs = [], tx_cell_deps = [], tx_header_deps = [], tx_outputs = [],
     tx_outputs_data = [], tx_witnesses = []\<rparr>"

lemma ex_witness_decodes: "decode_witness_molecule (encode_witness_molecule ex_witness) = Inr ex_witness"
  unfolding decode_molecule_iff
  by (simp add: ex_witness_def body_ok_def access_ok_def operation_accepts_source_def encode_witness_molecule_def
      length_encode_table encode_fixvec_byte32_def encode_accesses_def ACCESS_SIZE_def)

theorem push_scheduler_unique_witness:
  "\<exists>tx'. push_scheduler_witness ex_tx (encode_witness_molecule ex_witness) = Inr tx' \<and>
     scheduler_witnesses tx' = [encode_witness_molecule ex_witness]"
proof -
  have "push_scheduler_witness ex_tx (encode_witness_molecule ex_witness) =
      Inr (ex_tx\<lparr>tx_witnesses := [encode_witness_molecule ex_witness]\<rparr>)"
    using ex_witness_decodes
    by (simp add: push_scheduler_witness_def is_scheduler_witness_bytes_def scheduler_witnesses_def ex_tx_def)
  from this push_scheduler_unique [OF this] show ?thesis by blast
qed

end
