(* ===== verification/Cache.thy ===== *)
theory Cache
  imports Prelude "HOL-Library.AList" "HOL-Library.Multiset"
begin

text \<open>
  The store cache: \<^verbatim>\<open>database/src/cache.rs\<close>.

  The insertion-ordered map is an association list with distinct keys: insertion
  replaces in place or appends, \<^verbatim>\<open>swap_remove\<close> moves the last entry into the gap.
  The draws of the random generator are part of the cache, as the sequence of
  numbers it will deliver; \<^verbatim>\<open>gen_range(0..n)\<close> is the next draw modulo \<open>n\<close>.  The size
  estimate of an item (\<^verbatim>\<open>MemSizeEstimator\<close>) is the argument \<open>esz\<close>.  The tracked size
  is an integer, so that an underflow of the \<^verbatim>\<open>usize\<close> would show as a negative number.
\<close>

section \<open>Operations\<close>

datatype mem_mode = MemBytes | MemUnits | MemUndefined

datatype cache_policy = CacheEmpty | CacheCount nat | CacheTracked nat nat mem_mode

record cache_policy_inner =
  cp_tracked :: bool
  cp_max_size :: nat
  cp_min_items :: nat
  cp_mem_mode :: mem_mode

fun policy_from :: "cache_policy \<Rightarrow> cache_policy_inner" where
  "policy_from CacheEmpty = \<lparr>cp_tracked = False, cp_max_size = 0, cp_min_items = 0, cp_mem_mode = MemUndefined\<rparr>"
| "policy_from (CacheCount n) = \<lparr>cp_tracked = False, cp_max_size = n, cp_min_items = 0, cp_mem_mode = MemUndefined\<rparr>"
| "policy_from (CacheTracked n k mode) = \<lparr>cp_tracked = True, cp_max_size = n, cp_min_items = k, cp_mem_mode = mode\<rparr>"

record ('k, 'd) cache =
  c_policy :: cache_policy_inner
  c_map :: "('k \<times> 'd) list"
  c_tracked_size :: int
  c_draws :: "nat \<Rightarrow> nat"

type_synonym 'd estimator = "mem_mode \<Rightarrow> 'd \<Rightarrow> nat"

definition swap_remove_index :: "'a list \<Rightarrow> nat \<Rightarrow> 'a list" where
  "swap_remove_index xs i = (if i < length xs then butlast (xs[i := last xs]) else xs)"

abbreviation item_size :: "'d estimator \<Rightarrow> ('k, 'd) cache \<Rightarrow> 'd \<Rightarrow> int" where
  "item_size esz c d \<equiv> int (esz (cp_mem_mode (c_policy c)) d)"

text \<open>\<^verbatim>\<open>tracked_evict\<close>: drop random entries until the policy is met.\<close>

function tracked_evict :: "'d estimator \<Rightarrow> ('k, 'd) cache \<Rightarrow> ('k, 'd) cache" where
  "tracked_evict esz c =
     (if int (cp_max_size (c_policy c)) < c_tracked_size c \<and> cp_min_items (c_policy c) < length (c_map c)
      then let i = c_draws c 0 mod length (c_map c) in
        tracked_evict esz (c\<lparr>c_map := swap_remove_index (c_map c) i,
          c_tracked_size := c_tracked_size c - item_size esz c (snd (c_map c ! i)),
          c_draws := \<lambda>n. c_draws c (Suc n)\<rparr>)
      else c)"
  by auto
termination
  by (relation "measure (\<lambda>(_, c). length (c_map c))") (auto simp: swap_remove_index_def intro!: mod_less_divisor)

declare tracked_evict.simps [simp del]

definition inner_insert :: "'d estimator \<Rightarrow> ('k, 'd) cache \<Rightarrow> 'k \<Rightarrow> 'd \<Rightarrow> ('k, 'd) cache" where
  "inner_insert esz c k d =
     (if cp_tracked (c_policy c) then
        let removed = (case map_of (c_map c) k of None \<Rightarrow> 0 | Some old \<Rightarrow> item_size esz c old) in
        tracked_evict esz (c\<lparr>c_map := AList.update k d (c_map c),
          c_tracked_size := c_tracked_size c + item_size esz c d - removed\<rparr>)
      else let n = cp_max_size (c_policy c);
          c' = (if length (c_map c) = n
            then c\<lparr>c_map := swap_remove_index (c_map c) (c_draws c 0 mod n), c_draws := \<lambda>n. c_draws c (Suc n)\<rparr>
            else c) in
        c'\<lparr>c_map := AList.update k d (c_map c')\<rparr>)"

definition inner_update_if_entry_exists ::
  "'d estimator \<Rightarrow> ('k, 'd) cache \<Rightarrow> 'k \<Rightarrow> ('d \<Rightarrow> 'd) \<Rightarrow> ('k, 'd) cache" where
  "inner_update_if_entry_exists esz c k f = (case map_of (c_map c) k of
     None \<Rightarrow> c
   | Some d \<Rightarrow>
       if cp_tracked (c_policy c) then
         tracked_evict esz (c\<lparr>c_map := AList.update k (f d) (c_map c),
           c_tracked_size := c_tracked_size c - item_size esz c d + item_size esz c (f d)\<rparr>)
       else c\<lparr>c_map := AList.update k (f d) (c_map c)\<rparr>)"

definition inner_remove :: "'d estimator \<Rightarrow> ('k, 'd) cache \<Rightarrow> 'k \<Rightarrow> ('k, 'd) cache" where
  "inner_remove esz c k = (case position (\<lambda>e. fst e = k) (c_map c) of
     None \<Rightarrow> c
   | Some i \<Rightarrow> c\<lparr>c_map := swap_remove_index (c_map c) i,
       c_tracked_size := (if cp_tracked (c_policy c) then c_tracked_size c - item_size esz c (snd (c_map c ! i))
         else c_tracked_size c)\<rparr>)"

definition cache_new :: "cache_policy \<Rightarrow> (nat \<Rightarrow> nat) \<Rightarrow> ('k, 'd) cache" where
  "cache_new policy draws = \<lparr>c_policy = policy_from policy, c_map = [], c_tracked_size = 0, c_draws = draws\<rparr>"

definition cache_get :: "('k, 'd) cache \<Rightarrow> 'k \<Rightarrow> 'd option" where
  "cache_get c k = map_of (c_map c) k"

definition cache_contains_key :: "('k, 'd) cache \<Rightarrow> 'k \<Rightarrow> bool" where
  "cache_contains_key c k \<longleftrightarrow> k \<in> fst ` set (c_map c)"

definition cache_insert :: "'d estimator \<Rightarrow> ('k, 'd) cache \<Rightarrow> 'k \<Rightarrow> 'd \<Rightarrow> ('k, 'd) cache" where
  "cache_insert esz c k d = (if cp_max_size (c_policy c) = 0 then c else inner_insert esz c k d)"

definition cache_insert_many :: "'d estimator \<Rightarrow> ('k, 'd) cache \<Rightarrow> ('k \<times> 'd) list \<Rightarrow> ('k, 'd) cache" where
  "cache_insert_many esz c kds =
     (if cp_max_size (c_policy c) = 0 then c else fold (\<lambda>(k, d) c. inner_insert esz c k d) kds c)"

definition cache_update_if_entry_exists ::
  "'d estimator \<Rightarrow> ('k, 'd) cache \<Rightarrow> 'k \<Rightarrow> ('d \<Rightarrow> 'd) \<Rightarrow> ('k, 'd) cache" where
  "cache_update_if_entry_exists esz c k f =
     (if cp_max_size (c_policy c) = 0 then c else inner_update_if_entry_exists esz c k f)"

definition cache_remove :: "'d estimator \<Rightarrow> ('k, 'd) cache \<Rightarrow> 'k \<Rightarrow> ('k, 'd) cache" where
  "cache_remove esz c k = (if cp_max_size (c_policy c) = 0 then c else inner_remove esz c k)"

definition cache_remove_many :: "'d estimator \<Rightarrow> ('k, 'd) cache \<Rightarrow> 'k list \<Rightarrow> ('k, 'd) cache" where
  "cache_remove_many esz c ks = (if cp_max_size (c_policy c) = 0 then c else fold (\<lambda>k c. inner_remove esz c k) ks c)"

definition cache_remove_all :: "('k, 'd) cache \<Rightarrow> ('k, 'd) cache" where
  "cache_remove_all c = (if cp_max_size (c_policy c) = 0 then c
     else c\<lparr>c_map := [], c_tracked_size := (if cp_tracked (c_policy c) then 0 else c_tracked_size c)\<rparr>)"

section \<open>Removing an entry\<close>

lemma mset_swap_remove_index:
  assumes "i < length xs"
  shows "mset xs = add_mset (xs ! i) (mset (swap_remove_index xs i))"
proof -
  let ?ys = "xs[i := last xs]"
  have ne: "?ys \<noteq> []" "xs \<noteq> []" using assms by auto
  have "last ?ys = last xs"
    using assms ne by (simp add: last_conv_nth nth_list_update)
  with append_butlast_last_id [OF ne(1)] have "?ys = butlast ?ys @ [last xs]" by simp
  then have "mset ?ys = add_mset (last xs) (mset (butlast ?ys))" by (metis mset_append mset_single_iff_right mset.simps union_mset_add_mset_right add.right_neutral)
  moreover have "mset ?ys = add_mset (last xs) (mset xs - {#xs ! i#})" by (rule mset_update [OF assms])
  ultimately have "mset (butlast ?ys) = mset xs - {#xs ! i#}" by simp
  then show ?thesis using assms by (simp add: swap_remove_index_def)
qed

lemma swap_remove_index_keys:
  assumes "distinct (map fst xs)" and "i < length xs"
  shows "distinct (map fst (swap_remove_index xs i))"
    and "map_of (swap_remove_index xs i) = (map_of xs)(fst (xs ! i) := None)"
    and "length xs = Suc (length (swap_remove_index xs i))"
proof -
  let ?ys = "swap_remove_index xs i"
  note ms = mset_swap_remove_index [OF assms(2)]
  then have "mset (map fst xs) = mset (map fst (xs ! i # ?ys))" by simp
  then have d: "distinct (map fst (xs ! i # ?ys))" using assms(1) by (metis mset_eq_imp_distinct_iff)
  then show dy: "distinct (map fst ?ys)" by simp
  have "set xs = set (xs ! i # ?ys)" using ms by (metis mset.simps(2) set_mset_mset)
  then have "map_of xs = map_of (xs ! i # ?ys)"
    using assms(1) d by (metis map_of_inject_set)
  then show "map_of ?ys = (map_of xs)(fst (xs ! i) := None)"
    using d by (cases "xs ! i") (auto simp: fun_eq_iff map_of_eq_None_iff)
  show "length xs = Suc (length ?ys)" using ms by (metis mset.simps(2) size_mset length_Cons)
qed

definition total_size :: "'d estimator \<Rightarrow> ('k, 'd) cache \<Rightarrow> int" where
  "total_size esz c = sum_list (map (\<lambda>e. item_size esz c (snd e)) (c_map c))"

lemma sum_list_mset_cong: "mset xs = mset ys \<Longrightarrow> sum_list (map f xs) = (sum_list (map f ys) :: int)"
  by (metis mset_map sum_mset_sum_list)

lemma sum_swap_remove_index:
  assumes "i < length xs"
  shows "sum_list (map f (swap_remove_index xs i)) = sum_list (map f xs) - (f (xs ! i) :: int)"
proof -
  have "mset xs = mset (xs ! i # swap_remove_index xs i)" using mset_swap_remove_index [OF assms] by simp
  from sum_list_mset_cong [OF this, of f] show ?thesis by simp
qed

lemma length_alist_update:
  "length (AList.update k d xs) = (if k \<in> fst ` set xs then length xs else Suc (length xs))"
  by (induction xs) auto

lemma sum_alist_update:
  "distinct (map fst xs) \<Longrightarrow> sum_list (map (\<lambda>e. f (snd e)) (AList.update k d xs)) =
     sum_list (map (\<lambda>e. f (snd e)) xs) + f d - (case map_of xs k of None \<Rightarrow> 0 | Some old \<Rightarrow> (f old :: int))"
proof (induction xs)
  case (Cons e xs)
  show ?case
  proof (cases "fst e = k")
    case True
    then show ?thesis by (cases e) simp
  next
    case False
    then show ?thesis using Cons by (cases e) simp
  qed
qed simp

section \<open>The invariant\<close>

text \<open>
  Keys are distinct, a tracked size is the sum of the sizes of the entries, and the
  policy is met: a counting cache holds at most \<^verbatim>\<open>max_size\<close> entries, a tracked cache is
  within its size or down to its minimal number of entries, an empty cache is empty.
\<close>

definition entries_ok :: "'d estimator \<Rightarrow> ('k, 'd) cache \<Rightarrow> bool" where
  "entries_ok esz c \<longleftrightarrow> distinct (map fst (c_map c)) \<and>
     c_tracked_size c = (if cp_tracked (c_policy c) then total_size esz c else 0)"

definition policy_met :: "('k, 'd) cache \<Rightarrow> bool" where
  "policy_met c \<longleftrightarrow> (let p = c_policy c in
     (cp_max_size p = 0 \<longrightarrow> c_map c = []) \<and>
     (if cp_tracked p then c_tracked_size c \<le> int (cp_max_size p) \<or> length (c_map c) \<le> cp_min_items p
      else length (c_map c) \<le> cp_max_size p))"

definition cache_inv :: "'d estimator \<Rightarrow> ('k, 'd) cache \<Rightarrow> bool" where
  "cache_inv esz c \<longleftrightarrow> entries_ok esz c \<and> policy_met c"

lemma tracked_evict_ok:
  assumes "entries_ok esz c" and "cp_tracked (c_policy c)" and "cp_max_size (c_policy c) \<noteq> 0"
  shows "cache_inv esz (tracked_evict esz c) \<and> cache_get (tracked_evict esz c) \<subseteq>\<^sub>m cache_get c \<and>
    c_policy (tracked_evict esz c) = c_policy c"
  using assms
proof (induction esz c rule: tracked_evict.induct)
  case (1 esz c)
  show ?case
  proof (cases "int (cp_max_size (c_policy c)) < c_tracked_size c \<and> cp_min_items (c_policy c) < length (c_map c)")
    case False
    have "tracked_evict esz c = c" by (subst tracked_evict.simps) (simp only: False if_False)
    then show ?thesis using False "1.prems" by (auto simp: cache_inv_def policy_met_def Let_def)
  next
    case True
    define i where "i = c_draws c 0 mod length (c_map c)"
    define c' where "c' = c\<lparr>c_map := swap_remove_index (c_map c) i,
      c_tracked_size := c_tracked_size c - item_size esz c (snd (c_map c ! i)), c_draws := \<lambda>n. c_draws c (Suc n)\<rparr>"
    have i: "i < length (c_map c)" using True unfolding i_def by (intro mod_less_divisor) auto
    have step: "tracked_evict esz c = tracked_evict esz c'"
      using True by (subst tracked_evict.simps) (simp add: i_def c'_def Let_def)
    have d: "distinct (map fst (c_map c))" using "1.prems"(1) by (simp add: entries_ok_def)
    have "entries_ok esz c'"
      using "1.prems" swap_remove_index_keys(1) [OF d i]
        sum_swap_remove_index [OF i, of "\<lambda>e. item_size esz c (snd e)"]
      by (simp add: entries_ok_def c'_def total_size_def)
    moreover have "c_policy c' = c_policy c" by (simp add: c'_def)
    moreover have "cache_get c' \<subseteq>\<^sub>m cache_get c"
      using swap_remove_index_keys(2) [OF d i] by (auto simp: cache_get_def c'_def map_le_def)
    ultimately show ?thesis
      using "1.IH" [OF True i_def] "1.prems" step unfolding c'_def [symmetric]
      by (metis map_le_trans)
  qed
qed

lemma inner_insert_ok:
  assumes inv: "cache_inv esz c" and max: "cp_max_size (c_policy c) \<noteq> 0"
  shows "cache_inv esz (inner_insert esz c k d) \<and> cache_get (inner_insert esz c k d) \<subseteq>\<^sub>m (cache_get c)(k \<mapsto> d) \<and>
    c_policy (inner_insert esz c k d) = c_policy c"
proof (cases "cp_tracked (c_policy c)")
  case True
  define c' where "c' = c\<lparr>c_map := AList.update k d (c_map c), c_tracked_size := c_tracked_size c + item_size esz c d -
    (case map_of (c_map c) k of None \<Rightarrow> 0 | Some old \<Rightarrow> item_size esz c old)\<rparr>"
  have "distinct (map fst (c_map c))" using inv by (simp add: cache_inv_def entries_ok_def)
  then have "entries_ok esz c'"
    using inv True sum_alist_update [of "c_map c" "\<lambda>d. item_size esz c d" k d]
    by (simp add: cache_inv_def entries_ok_def c'_def total_size_def distinct_update)
  moreover have "inner_insert esz c k d = tracked_evict esz c'" using True by (simp add: inner_insert_def c'_def Let_def)
  moreover have "cache_get c' = (cache_get c)(k \<mapsto> d)" by (simp add: cache_get_def c'_def update_conv' fun_eq_iff)
  moreover have "c_policy c' = c_policy c" by (simp add: c'_def)
  ultimately show ?thesis using tracked_evict_ok [of esz c'] True max by simp
next
  case False
  define n where "n = cp_max_size (c_policy c)"
  define m where "m = (if length (c_map c) = n then swap_remove_index (c_map c) (c_draws c 0 mod n) else c_map c)"
  have d: "distinct (map fst (c_map c))" and le: "length (c_map c) \<le> n" and z: "c_tracked_size c = 0"
    using inv False by (simp_all add: cache_inv_def entries_ok_def policy_met_def n_def Let_def)
  have m: "distinct (map fst m)" "map_of m \<subseteq>\<^sub>m map_of (c_map c)" "Suc (length m) \<le> n"
    using d le max swap_remove_index_keys [OF d, of "c_draws c 0 mod n"]
    unfolding m_def n_def [symmetric] by (auto simp: map_le_def)
  have len: "length (AList.update k d m) \<le> n"
    using m(3) by (simp add: length_alist_update)
  obtain dr where eq: "inner_insert esz c k d = c\<lparr>c_map := AList.update k d m, c_draws := dr\<rparr>"
  proof
    show "inner_insert esz c k d = c\<lparr>c_map := AList.update k d m, c_draws := if length (c_map c) = n then (\<lambda>n. c_draws c (Suc n)) else c_draws c\<rparr>"
      using False by (auto simp: inner_insert_def m_def n_def Let_def)
  qed
  show ?thesis
    unfolding eq using m len False z max
    by (auto simp: cache_inv_def entries_ok_def policy_met_def Let_def n_def distinct_update cache_get_def map_le_def update_conv')
qed

lemma inner_update_ok:
  assumes inv: "cache_inv esz c" and max: "cp_max_size (c_policy c) \<noteq> 0"
  shows "cache_inv esz (inner_update_if_entry_exists esz c k f) \<and>
    cache_get (inner_update_if_entry_exists esz c k f) \<subseteq>\<^sub>m (cache_get c)(k := map_option f (cache_get c k)) \<and>
    c_policy (inner_update_if_entry_exists esz c k f) = c_policy c"
proof (cases "map_of (c_map c) k")
  case None
  then show ?thesis using inv by (auto simp: inner_update_if_entry_exists_def cache_get_def map_le_def)
next
  case (Some d)
  define c' where "c' = c\<lparr>c_map := AList.update k (f d) (c_map c), c_tracked_size :=
    (if cp_tracked (c_policy c) then c_tracked_size c - item_size esz c d + item_size esz c (f d) else c_tracked_size c)\<rparr>"
  have d: "distinct (map fst (c_map c))" using inv by (simp add: cache_inv_def entries_ok_def)
  then have ent: "entries_ok esz c'"
    using inv Some sum_alist_update [of "c_map c" "\<lambda>d. item_size esz c d" k "f d"]
    by (simp add: cache_inv_def entries_ok_def c'_def total_size_def distinct_update)
  have get: "cache_get c' = (cache_get c)(k := map_option f (cache_get c k))" "c_policy c' = c_policy c"
    using Some by (simp_all add: cache_get_def c'_def update_conv' fun_eq_iff)
  show ?thesis
  proof (cases "cp_tracked (c_policy c)")
    case True
    then have "inner_update_if_entry_exists esz c k f = tracked_evict esz c'"
      using Some by (simp add: inner_update_if_entry_exists_def c'_def)
    then show ?thesis using tracked_evict_ok [OF ent] get True max by simp
  next
    case False
    then have eq: "inner_update_if_entry_exists esz c k f = c'"
      using Some by (simp add: inner_update_if_entry_exists_def c'_def)
    have "k \<in> fst ` set (c_map c)" using Some by (metis domI dom_map_of_conv_image_fst)
    then have "length (c_map c') = length (c_map c)" by (simp add: c'_def length_alist_update)
    then have "policy_met c'" using inv False get(2) max by (simp add: cache_inv_def policy_met_def Let_def)
    then show ?thesis using ent get unfolding eq by (simp add: cache_inv_def)
  qed
qed

lemma total_size_nonneg: "0 \<le> total_size esz c"
  by (auto simp: total_size_def intro!: sum_list_nonneg)

lemma inner_remove_ok:
  assumes inv: "cache_inv esz c"
  shows "cache_inv esz (inner_remove esz c k) \<and> cache_get (inner_remove esz c k) = (cache_get c)(k := None) \<and>
    c_policy (inner_remove esz c k) = c_policy c"
proof (cases "position (\<lambda>e. fst e = k) (c_map c)")
  case None
  then have "k \<notin> fst ` set (c_map c)" by (auto simp: position_None_iff)
  then have "map_of (c_map c) k = None" by (simp add: map_of_eq_None_iff)
  then show ?thesis using None inv by (simp add: inner_remove_def cache_get_def fun_eq_iff)
next
  case (Some i)
  then have i: "i < length (c_map c)" "fst (c_map c ! i) = k" by (auto dest: position_SomeD)
  have d: "distinct (map fst (c_map c))" using inv by (simp add: cache_inv_def entries_ok_def)
  note sr = swap_remove_index_keys [OF d i(1)]
  let ?c = "inner_remove esz c k"
  have eq: "c_map ?c = swap_remove_index (c_map c) i" "c_policy ?c = c_policy c" using Some by (simp_all add: inner_remove_def)
  have ent: "entries_ok esz ?c"
    using inv Some sr(1) sum_swap_remove_index [OF i(1), of "\<lambda>e. item_size esz c (snd e)"]
    by (simp add: cache_inv_def entries_ok_def total_size_def inner_remove_def)
  have "c_tracked_size ?c \<le> c_tracked_size c" using Some by (simp add: inner_remove_def)
  then have "policy_met ?c" using inv sr(3) i(1) eq by (auto simp: cache_inv_def policy_met_def Let_def)
  then show ?thesis using ent sr(2) i(2) eq by (simp add: cache_inv_def cache_get_def fun_eq_iff)
qed

section \<open>A cache is a lossy map\<close>

text \<open>
  What the stores rely on: a lookup after an insertion, an update or a removal
  returns what the operation says or nothing, never an outdated value.
\<close>

locale lossy_map =
  fixes inv :: "'c \<Rightarrow> bool"
    and lookup :: "'c \<Rightarrow> 'k \<Rightarrow> 'v option"
    and put :: "'c \<Rightarrow> 'k \<Rightarrow> 'v \<Rightarrow> 'c"
    and modify :: "'c \<Rightarrow> 'k \<Rightarrow> ('v \<Rightarrow> 'v) \<Rightarrow> 'c"
    and forget :: "'c \<Rightarrow> 'k \<Rightarrow> 'c"
    and clear :: "'c \<Rightarrow> 'c"
  assumes inv_put: "inv c \<Longrightarrow> inv (put c k v)"
    and inv_modify: "inv c \<Longrightarrow> inv (modify c k f)"
    and inv_forget: "inv c \<Longrightarrow> inv (forget c k)"
    and inv_clear: "inv c \<Longrightarrow> inv (clear c)"
    and lookup_put: "inv c \<Longrightarrow> lookup (put c k v) \<subseteq>\<^sub>m (lookup c)(k \<mapsto> v)"
    and lookup_modify: "inv c \<Longrightarrow> lookup (modify c k f) \<subseteq>\<^sub>m (lookup c)(k := map_option f (lookup c k))"
    and lookup_forget: "inv c \<Longrightarrow> lookup (forget c k) = (lookup c)(k := None)"
    and lookup_clear: "inv c \<Longrightarrow> lookup (clear c) = Map.empty"
begin

definition coherent :: "'c \<Rightarrow> ('k \<Rightarrow> 'v option) \<Rightarrow> bool" where
  "coherent c m \<longleftrightarrow> inv c \<and> lookup c \<subseteq>\<^sub>m m"

lemma coherent_lookup: "coherent c m \<Longrightarrow> lookup c k = Some v \<Longrightarrow> m k = Some v"
  unfolding coherent_def map_le_def by (metis domI)

lemma coherent_put: "coherent c m \<Longrightarrow> coherent (put c k v) (m(k \<mapsto> v))"
  unfolding coherent_def using inv_put lookup_put by (meson map_le_trans map_le_upd)

lemma coherent_fill: "coherent c m \<Longrightarrow> m k = Some v \<Longrightarrow> coherent (put c k v) m"
  using coherent_put [of c m k v] by (simp add: fun_upd_idem)

lemma coherent_forget: "coherent c m \<Longrightarrow> coherent (forget c k) (m(k := x))"
  unfolding coherent_def by (auto simp: inv_forget lookup_forget map_le_def)

lemma coherent_modify: "coherent c m \<Longrightarrow> coherent (modify c k f) (m(k := map_option f (m k)))"
proof -
  assume coh: "coherent c m"
  then have inv: "inv c" and le: "lookup c \<subseteq>\<^sub>m m" by (simp_all add: coherent_def)
  have "(lookup c)(k := map_option f (lookup c k)) \<subseteq>\<^sub>m m(k := map_option f (m k))"
    using le by (auto simp: map_le_def dom_def)
  with inv inv_modify lookup_modify show ?thesis unfolding coherent_def by (meson map_le_trans)
qed

lemma coherent_clear: "coherent c m \<Longrightarrow> coherent (clear c) m'"
  unfolding coherent_def by (simp add: inv_clear lookup_clear)

lemma coherent_put_many:
  "coherent c m \<Longrightarrow> coherent (fold (\<lambda>(k, v) c. put c k v) kvs c) (fold (\<lambda>(k, v) m. m(k \<mapsto> v)) kvs m)"
proof (induction kvs arbitrary: c m)
  case (Cons kv kvs)
  obtain k v where kv: "kv = (k, v)" by force
  from Cons.IH [OF coherent_put [OF Cons.prems, of k v]] show ?case
    by (simp only: kv fold.simps comp_apply prod.case)
qed simp

lemma coherent_forget_many:
  "coherent c m \<Longrightarrow> coherent (fold (\<lambda>k c. forget c k) ks c) (fold (\<lambda>k m. m(k := None)) ks m)"
proof (induction ks arbitrary: c m)
  case (Cons k ks)
  from Cons.IH [OF coherent_forget [OF Cons.prems, of k None]] show ?case
    by (simp only: fold.simps comp_apply)
qed simp

end

lemma cache_ops_ok:
  assumes "cache_inv esz c"
  shows "cache_inv esz (cache_insert esz c k d)" "cache_get (cache_insert esz c k d) \<subseteq>\<^sub>m (cache_get c)(k \<mapsto> d)"
    "cache_inv esz (cache_update_if_entry_exists esz c k f)"
    "cache_get (cache_update_if_entry_exists esz c k f) \<subseteq>\<^sub>m (cache_get c)(k := map_option f (cache_get c k))"
    "cache_inv esz (cache_remove esz c k)" "cache_get (cache_remove esz c k) = (cache_get c)(k := None)"
    "cache_inv esz (cache_remove_all c)" "cache_get (cache_remove_all c) = Map.empty"
proof -
  have empty: "cp_max_size (c_policy c) = 0 \<Longrightarrow> cache_get c = Map.empty"
    using assms by (simp add: cache_inv_def policy_met_def cache_get_def Let_def fun_eq_iff)
  show "cache_inv esz (cache_insert esz c k d)" "cache_get (cache_insert esz c k d) \<subseteq>\<^sub>m (cache_get c)(k \<mapsto> d)"
    "cache_inv esz (cache_update_if_entry_exists esz c k f)"
    "cache_get (cache_update_if_entry_exists esz c k f) \<subseteq>\<^sub>m (cache_get c)(k := map_option f (cache_get c k))"
    "cache_inv esz (cache_remove esz c k)" "cache_get (cache_remove esz c k) = (cache_get c)(k := None)"
    using assms inner_insert_ok [OF assms] inner_update_ok [OF assms] inner_remove_ok [OF assms] empty
    by (auto simp: cache_insert_def cache_update_if_entry_exists_def cache_remove_def)
  show "cache_inv esz (cache_remove_all c)" "cache_get (cache_remove_all c) = Map.empty"
    using assms empty by (auto simp: cache_remove_all_def cache_inv_def entries_ok_def policy_met_def total_size_def
        cache_get_def Let_def fun_eq_iff)
qed

interpretation lossy: lossy_map "cache_inv esz" cache_get "cache_insert esz" "cache_update_if_entry_exists esz"
  "cache_remove esz" cache_remove_all for esz
  by unfold_locales (simp_all add: cache_ops_ok)

lemma cache_policy_kept:
  assumes "cache_inv esz c"
  shows "c_policy (cache_insert esz c k d) = c_policy c" "c_policy (cache_update_if_entry_exists esz c k f) = c_policy c"
    "c_policy (cache_remove esz c k) = c_policy c" "c_policy (cache_remove_all c) = c_policy c"
  using inner_insert_ok [OF assms] inner_update_ok [OF assms] inner_remove_ok [OF assms]
  by (auto simp: cache_insert_def cache_update_if_entry_exists_def cache_remove_def cache_remove_all_def)

lemma insert_eq_inner: "cp_max_size (c_policy c) \<noteq> 0 \<Longrightarrow> cache_insert esz c k d = inner_insert esz c k d"
  and remove_eq_inner: "cp_max_size (c_policy c) \<noteq> 0 \<Longrightarrow> cache_remove esz c k = inner_remove esz c k"
  and insert_eq_none: "cp_max_size (c_policy c) = 0 \<Longrightarrow> cache_insert esz c k d = c"
  and remove_eq_none: "cp_max_size (c_policy c) = 0 \<Longrightarrow> cache_remove esz c k = c"
  by (simp_all add: cache_insert_def cache_remove_def)

lemma cache_insert_many_fold:
  assumes "cache_inv esz c"
  shows "cache_insert_many esz c kds = fold (\<lambda>(k, d) c. cache_insert esz c k d) kds c"
proof (cases "cp_max_size (c_policy c) = 0")
  case True
  then have "fold (\<lambda>(k, d) c. cache_insert esz c k d) kds c = c"
    by (induction kds) (auto simp: insert_eq_none)
  with True show ?thesis by (simp add: cache_insert_many_def)
next
  case False
  with assms have "fold (\<lambda>(k, d) c. inner_insert esz c k d) kds c = fold (\<lambda>(k, d) c. cache_insert esz c k d) kds c"
  proof (induction kds arbitrary: c)
    case (Cons kd kds)
    obtain k d where kd: "kd = (k, d)" by force
    show ?case
      using Cons.IH [of "inner_insert esz c k d"] inner_insert_ok [OF Cons.prems, of k d] Cons.prems(2)
        insert_eq_inner [OF Cons.prems(2)]
      by (simp only: kd fold.simps comp_apply prod.case) simp
  qed simp
  with False show ?thesis by (simp add: cache_insert_many_def)
qed

lemma cache_remove_many_fold:
  assumes "cache_inv esz c"
  shows "cache_remove_many esz c ks = fold (\<lambda>k c. cache_remove esz c k) ks c"
proof (cases "cp_max_size (c_policy c) = 0")
  case True
  then have "fold (\<lambda>k c. cache_remove esz c k) ks c = c"
    by (induction ks) (auto simp: remove_eq_none)
  with True show ?thesis by (simp add: cache_remove_many_def)
next
  case False
  with assms have "fold (\<lambda>k c. inner_remove esz c k) ks c = fold (\<lambda>k c. cache_remove esz c k) ks c"
  proof (induction ks arbitrary: c)
    case (Cons k ks)
    show ?case
      using Cons.IH [of "inner_remove esz c k"] inner_remove_ok [OF Cons.prems(1), of k] Cons.prems(2)
        remove_eq_inner [OF Cons.prems(2)]
      by (simp only: fold.simps comp_apply) simp
  qed simp
  with False show ?thesis by (simp add: cache_remove_many_def)
qed

lemma cache_new_inv: "cache_inv esz (cache_new policy draws)" "cache_get (cache_new policy draws) = Map.empty"
  by (simp_all add: cache_inv_def entries_ok_def policy_met_def cache_new_def total_size_def cache_get_def Let_def fun_eq_iff)

section \<open>Properties\<close>

datatype ('k, 'd) cache_op = OpInsert 'k 'd | OpInsertMany "('k \<times> 'd) list" | OpUpdate 'k "'d \<Rightarrow> 'd" | OpRemove 'k
  | OpRemoveMany "'k list" | OpRemoveAll

fun cache_step :: "'d estimator \<Rightarrow> ('k, 'd) cache_op \<Rightarrow> ('k, 'd) cache \<Rightarrow> ('k, 'd) cache" where
  "cache_step esz (OpInsert k d) c = cache_insert esz c k d"
| "cache_step esz (OpInsertMany kds) c = cache_insert_many esz c kds"
| "cache_step esz (OpUpdate k f) c = cache_update_if_entry_exists esz c k f"
| "cache_step esz (OpRemove k) c = cache_remove esz c k"
| "cache_step esz (OpRemoveMany ks) c = cache_remove_many esz c ks"
| "cache_step esz OpRemoveAll c = cache_remove_all c"

text \<open>The unbounded map that a cache approximates.\<close>

fun ideal_step :: "('k, 'd) cache_op \<Rightarrow> ('k \<rightharpoonup> 'd) \<Rightarrow> ('k \<rightharpoonup> 'd)" where
  "ideal_step (OpInsert k d) m = m(k \<mapsto> d)"
| "ideal_step (OpInsertMany kds) m = fold (\<lambda>(k, d) m. m(k \<mapsto> d)) kds m"
| "ideal_step (OpUpdate k f) m = m(k := map_option f (m k))"
| "ideal_step (OpRemove k) m = m(k := None)"
| "ideal_step (OpRemoveMany ks) m = fold (\<lambda>k m. m(k := None)) ks m"
| "ideal_step OpRemoveAll m = Map.empty"

lemma insert_fold_policy:
  "cache_inv esz c \<Longrightarrow> c_policy (fold (\<lambda>(k, d) c. cache_insert esz c k d) kds c) = c_policy c"
  by (induction kds arbitrary: c) (auto simp: cache_policy_kept cache_ops_ok)

lemma remove_fold_policy: "cache_inv esz c \<Longrightarrow> c_policy (fold (\<lambda>k c. cache_remove esz c k) ks c) = c_policy c"
  by (induction ks arbitrary: c) (auto simp: cache_policy_kept cache_ops_ok)

lemma cache_step_ok:
  assumes "lossy.coherent esz c m"
  shows "lossy.coherent esz (cache_step esz oper c) (ideal_step oper m) \<and> c_policy (cache_step esz oper c) = c_policy c"
proof -
  have inv: "cache_inv esz c" using assms by (simp add: lossy.coherent_def)
  have "lossy.coherent esz (cache_step esz oper c) (ideal_step oper m)"
    by (cases oper)
      (simp_all only: cache_step.simps ideal_step.simps cache_insert_many_fold [OF inv] cache_remove_many_fold [OF inv]
        lossy.coherent_put [OF assms] lossy.coherent_put_many [OF assms] lossy.coherent_modify [OF assms]
        lossy.coherent_forget [OF assms] lossy.coherent_forget_many [OF assms] lossy.coherent_clear [OF assms])
  moreover have "c_policy (cache_step esz oper c) = c_policy c"
    by (cases oper)
      (simp_all only: cache_step.simps cache_insert_many_fold [OF inv] cache_remove_many_fold [OF inv]
        cache_policy_kept [OF inv] insert_fold_policy [OF inv] remove_fold_policy [OF inv])
  ultimately show ?thesis by blast
qed

text \<open>
  C40: after any sequence of operations on a new cache, for any random draws, a hit
  returns the value an unbounded map would hold; a counting cache holds at most
  its number of entries; a tracked cache accounts for exactly the sizes of its
  entries and is within its size or down to its minimal number of entries.
\<close>

theorem cache_run_sound:
  "let c = fold (cache_step esz) ops (cache_new policy draws); p = policy_from policy in
     cache_get c \<subseteq>\<^sub>m fold ideal_step ops Map.empty \<and>
     (if cp_tracked p
      then c_tracked_size c = sum_list (map (\<lambda>e. int (esz (cp_mem_mode p) (snd e))) (c_map c)) \<and>
        (c_tracked_size c \<le> int (cp_max_size p) \<or> length (c_map c) \<le> cp_min_items p)
      else length (c_map c) \<le> cp_max_size p)"
proof -
  have run: "lossy.coherent esz (fold (cache_step esz) ops c) (fold ideal_step ops m) \<and>
      c_policy (fold (cache_step esz) ops c) = c_policy c" if "lossy.coherent esz c m" for c m
    using that
  proof (induction ops arbitrary: c m)
    case (Cons oper ops)
    from Cons.IH [OF cache_step_ok [OF Cons.prems, THEN conjunct1]] cache_step_ok [OF Cons.prems, of oper]
    show ?case by simp
  qed simp
  have "lossy.coherent esz (cache_new policy draws) Map.empty"
    by (simp add: lossy.coherent_def cache_new_inv)
  from run [OF this] show ?thesis
    by (auto simp: Let_def lossy.coherent_def cache_inv_def entries_ok_def policy_met_def total_size_def cache_new_def)
qed

end
