(* ===== verification/KvStore.thy ===== *)
theory KvStore
  imports Cache Bytes "HOL-Library.Sublist"
begin

text \<open>
  Typed access to the key-value database: \<^verbatim>\<open>database/src/key.rs\<close>, \<^verbatim>\<open>writer.rs\<close>,
  \<^verbatim>\<open>access.rs\<close>, \<^verbatim>\<open>set_access.rs\<close> and \<^verbatim>\<open>item.rs\<close>.

  The database itself (RocksDB) and the serialisation (bincode) are parameters: a
  record of functions, with their documented behaviour as the predicates \<open>kv_ok\<close>
  and \<open>env_ok\<close>.  A write batch is the list of the operations put to it; a direct
  write is the write of a batch of one operation.  Disk failures are left out.
\<close>

section \<open>The database\<close>

datatype write_op = WPut bytes bytes | WDelete bytes | WDeleteRange bytes

text \<open>\<open>WDeleteRange p\<close> stands for the range of the keys with the prefix \<open>p\<close> (\<^verbatim>\<open>PrefixRange\<close>).\<close>

type_synonym batch = "write_op list"

record 'db kv =
  kv_get :: "'db \<Rightarrow> bytes \<Rightarrow> bytes option"
  kv_write :: "'db \<Rightarrow> batch \<Rightarrow> 'db"
  kv_iter :: "'db \<Rightarrow> bytes \<Rightarrow> (bytes \<times> bytes) list"

fun apply_op :: "write_op \<Rightarrow> (bytes \<rightharpoonup> bytes) \<Rightarrow> (bytes \<rightharpoonup> bytes)" where
  "apply_op (WPut k v) m = m(k \<mapsto> v)"
| "apply_op (WDelete k) m = m(k := None)"
| "apply_op (WDeleteRange p) m = m |` {k. \<not> prefix p k}"

definition kv_ok :: "'db kv \<Rightarrow> bool" where
  "kv_ok kv \<longleftrightarrow>
     (\<forall>db b. kv_get kv (kv_write kv db b) = fold apply_op b (kv_get kv db)) \<and>
     (\<forall>db p. distinct (map fst (kv_iter kv db p)) \<and>
        set (kv_iter kv db p) = {(k, v). kv_get kv db k = Some v \<and> prefix p k})"

section \<open>Keys and writers\<close>

record db_key =
  dk_path :: bytes
  dk_prefix_len :: nat

definition db_key_new :: "bytes \<Rightarrow> bytes \<Rightarrow> db_key" where
  "db_key_new p k = \<lparr>dk_path = p @ k, dk_prefix_len = length p\<rparr>"

definition prefix_only :: "bytes \<Rightarrow> db_key" where
  "prefix_only p = db_key_new p []"

definition add_bucket :: "db_key \<Rightarrow> bytes \<Rightarrow> db_key" where
  "add_bucket key bucket = key\<lparr>dk_path := dk_path key @ bucket, dk_prefix_len := dk_prefix_len key + length bucket\<rparr>"

definition add_key :: "db_key \<Rightarrow> bytes \<Rightarrow> db_key" where
  "add_key key k = key\<lparr>dk_path := dk_path key @ k, dk_prefix_len := dk_prefix_len key + length k\<rparr>"

definition new_with_bucket :: "bytes \<Rightarrow> bytes \<Rightarrow> bytes \<Rightarrow> db_key" where
  "new_with_bucket p bucket k = add_key (add_bucket (prefix_only p) bucket) k"

lemma db_key_paths [simp]:
  "dk_path (db_key_new p k) = p @ k" "dk_path (prefix_only p) = p" "dk_path (new_with_bucket p b k) = p @ b @ k"
  "dk_prefix_len (db_key_new p k) = length p" "dk_prefix_len (prefix_only p) = length p"
  "dk_prefix_len (new_with_bucket p b k) = length p + length b + length k"
  by (simp_all add: db_key_new_def prefix_only_def add_bucket_def add_key_def new_with_bucket_def)

definition batch_put :: "batch \<Rightarrow> bytes \<Rightarrow> bytes \<Rightarrow> batch" where
  "batch_put b k v = b @ [WPut k v]"

definition batch_delete :: "batch \<Rightarrow> bytes \<Rightarrow> batch" where
  "batch_delete b k = b @ [WDelete k]"

text \<open>
  \<^verbatim>\<open>delete_range\<close> over the bounds of a prefix; the bounds are unwrapped, and there is
  an upper bound only when the prefix has a byte other than \<open>0xff\<close>.
\<close>

definition batch_delete_range :: "batch \<Rightarrow> bytes \<Rightarrow> ('e, batch) res" where
  "batch_delete_range b p = rbind (rassert (list_ex (\<lambda>x. x \<noteq> 0xff) p)) (\<lambda>_. Inr (b @ [WDeleteRange p]))"

definition direct_put :: "'db kv \<Rightarrow> 'db \<Rightarrow> bytes \<Rightarrow> bytes \<Rightarrow> 'db" where
  "direct_put kv db k v = kv_write kv db [WPut k v]"

definition direct_delete :: "'db kv \<Rightarrow> 'db \<Rightarrow> bytes \<Rightarrow> 'db" where
  "direct_delete kv db k = kv_write kv db [WDelete k]"

definition direct_delete_range :: "'db kv \<Rightarrow> 'db \<Rightarrow> bytes \<Rightarrow> ('e, 'db) res" where
  "direct_delete_range kv db p = rbind (batch_delete_range [] p) (\<lambda>b. Inr (kv_write kv db b))"

section \<open>Cached access\<close>

text \<open>
  The parameters of an access: the database, the bytes of a key, serialisation,
  deserialisation and the size estimate of the data.
\<close>

record ('db, 'k, 'd) acc_env =
  ae_kv :: "'db kv"
  ae_key :: "'k \<Rightarrow> bytes"
  ae_ser :: "'d \<Rightarrow> bytes"
  ae_de :: "bytes \<Rightarrow> 'd option"
  ae_size :: "'d estimator"

definition env_ok :: "('db, 'k, 'd) acc_env \<Rightarrow> bool" where
  "env_ok env \<longleftrightarrow> kv_ok (ae_kv env) \<and> inj (ae_key env) \<and> (\<forall>k k'. length (ae_key env k) = length (ae_key env k')) \<and>
     (\<forall>d. ae_de env (ae_ser env d) = Some d)"

record ('k, 'd) cached_access =
  ca_cache :: "('k, 'd) cache"
  ca_prefix :: bytes

datatype 'k read_error = KeyMissing 'k | DeserializationFailed

definition access_new :: "cache_policy \<Rightarrow> (nat \<Rightarrow> nat) \<Rightarrow> bytes \<Rightarrow> ('k, 'd) cached_access" where
  "access_new policy draws p = \<lparr>ca_cache = cache_new policy draws, ca_prefix = p\<rparr>"

definition access_key_path :: "('db, 'k, 'd) acc_env \<Rightarrow> ('k, 'd) cached_access \<Rightarrow> 'k \<Rightarrow> bytes" where
  "access_key_path env a k = dk_path (db_key_new (ca_prefix a) (ae_key env k))"

definition read_from_cache :: "('k, 'd) cached_access \<Rightarrow> 'k \<Rightarrow> 'd option" where
  "read_from_cache a k = cache_get (ca_cache a) k"

definition access_has :: "('db, 'k, 'd) acc_env \<Rightarrow> ('k, 'd) cached_access \<Rightarrow> 'db \<Rightarrow> 'k \<Rightarrow> bool" where
  "access_has env a db k \<longleftrightarrow>
     cache_contains_key (ca_cache a) k \<or> kv_get (ae_kv env) db (access_key_path env a k) \<noteq> None"

definition access_read ::
  "('db, 'k, 'd) acc_env \<Rightarrow> ('k, 'd) cached_access \<Rightarrow> 'db \<Rightarrow> 'k \<Rightarrow> ('k read_error, 'd) res \<times> ('k, 'd) cached_access" where
  "access_read env a db k = (case cache_get (ca_cache a) k of
     Some d \<Rightarrow> (Inr d, a)
   | None \<Rightarrow> (case kv_get (ae_kv env) db (access_key_path env a k) of
       None \<Rightarrow> (Inl (Err (KeyMissing k)), a)
     | Some bin \<Rightarrow> (case ae_de env bin of
         None \<Rightarrow> (Inl (Err DeserializationFailed), a)
       | Some d \<Rightarrow> (Inr d, a\<lparr>ca_cache := cache_insert (ae_size env) (ca_cache a) k d\<rparr>))))"

definition access_iterator ::
  "('db, 'k, 'd) acc_env \<Rightarrow> ('k, 'd) cached_access \<Rightarrow> 'db \<Rightarrow> (bytes \<times> 'd option) list" where
  "access_iterator env a db = map (\<lambda>(k, v). (drop (dk_prefix_len (prefix_only (ca_prefix a))) k, ae_de env v))
     (kv_iter (ae_kv env) db (dk_path (prefix_only (ca_prefix a))))"

definition access_write ::
  "('db, 'k, 'd) acc_env \<Rightarrow> ('k, 'd) cached_access \<Rightarrow> batch \<Rightarrow> 'k \<Rightarrow> 'd \<Rightarrow> ('k, 'd) cached_access \<times> batch" where
  "access_write env a b k d =
     (a\<lparr>ca_cache := cache_insert (ae_size env) (ca_cache a) k d\<rparr>, batch_put b (access_key_path env a k) (ae_ser env d))"

definition access_write_many ::
  "('db, 'k, 'd) acc_env \<Rightarrow> ('k, 'd) cached_access \<Rightarrow> batch \<Rightarrow> ('k \<times> 'd) list \<Rightarrow> ('k, 'd) cached_access \<times> batch" where
  "access_write_many env a b kds =
     (a\<lparr>ca_cache := cache_insert_many (ae_size env) (ca_cache a) kds\<rparr>,
      fold (\<lambda>(k, d) b. batch_put b (access_key_path env a k) (ae_ser env d)) kds b)"

definition access_write_many_without_cache ::
  "('db, 'k, 'd) acc_env \<Rightarrow> ('k, 'd) cached_access \<Rightarrow> batch \<Rightarrow> ('k \<times> 'd) list \<Rightarrow> ('k, 'd) cached_access \<times> batch" where
  "access_write_many_without_cache env a b kds =
     (let b' = fold (\<lambda>(k, d) b. batch_put b (access_key_path env a k) (ae_ser env d)) kds b in
      (a\<lparr>ca_cache := cache_remove_all (ca_cache a)\<rparr>, b'))"

definition access_delete ::
  "('db, 'k, 'd) acc_env \<Rightarrow> ('k, 'd) cached_access \<Rightarrow> batch \<Rightarrow> 'k \<Rightarrow> ('k, 'd) cached_access \<times> batch" where
  "access_delete env a b k =
     (a\<lparr>ca_cache := cache_remove (ae_size env) (ca_cache a) k\<rparr>, batch_delete b (access_key_path env a k))"

definition access_delete_many ::
  "('db, 'k, 'd) acc_env \<Rightarrow> ('k, 'd) cached_access \<Rightarrow> batch \<Rightarrow> 'k list \<Rightarrow> ('k, 'd) cached_access \<times> batch" where
  "access_delete_many env a b ks =
     (a\<lparr>ca_cache := cache_remove_many (ae_size env) (ca_cache a) ks\<rparr>,
      fold (\<lambda>k b. batch_delete b (access_key_path env a k)) ks b)"

definition access_delete_all ::
  "('k, 'd) cached_access \<Rightarrow> batch \<Rightarrow> ('e, ('k, 'd) cached_access \<times> batch) res" where
  "access_delete_all a b = rbind (batch_delete_range b (dk_path (prefix_only (ca_prefix a))))
     (\<lambda>b'. Inr (a\<lparr>ca_cache := cache_remove_all (ca_cache a)\<rparr>, b'))"

section \<open>Sets and single items\<close>

definition set_key_path :: "('db, 'k, 'd) acc_env \<Rightarrow> bytes \<Rightarrow> 'k \<Rightarrow> 'd \<Rightarrow> bytes" where
  "set_key_path env p k d = dk_path (new_with_bucket p (ae_key env k) (ae_ser env d))"

definition set_write :: "('db, 'k, 'd) acc_env \<Rightarrow> bytes \<Rightarrow> batch \<Rightarrow> 'k \<Rightarrow> 'd \<Rightarrow> batch" where
  "set_write env p b k d = batch_put b (set_key_path env p k d) []"

definition set_delete :: "('db, 'k, 'd) acc_env \<Rightarrow> bytes \<Rightarrow> batch \<Rightarrow> 'k \<Rightarrow> 'd \<Rightarrow> batch" where
  "set_delete env p b k d = batch_delete b (set_key_path env p k d)"

definition set_delete_bucket :: "('db, 'k, 'd) acc_env \<Rightarrow> bytes \<Rightarrow> batch \<Rightarrow> 'k \<Rightarrow> ('e, batch) res" where
  "set_delete_bucket env p b k = batch_delete_range b (dk_path (new_with_bucket p (ae_key env k) []))"

definition set_seek_iterator :: "('db, 'k, 'd) acc_env \<Rightarrow> bytes \<Rightarrow> 'db \<Rightarrow> 'k \<Rightarrow> nat \<Rightarrow> bool \<Rightarrow> bytes list" where
  "set_seek_iterator env p db k limit skip_first =
     (let key = new_with_bucket p (ae_key env k) []; it = kv_iter (ae_kv env) db (dk_path key) in
      map (\<lambda>(kb, _). drop (dk_prefix_len key) kb) (take limit (if skip_first then drop 1 it else it)))"

text \<open>The limit \<^verbatim>\<open>usize::MAX\<close> is larger than the number of the keys.\<close>

definition bucket_iterator :: "('db, 'k, 'd) acc_env \<Rightarrow> bytes \<Rightarrow> 'db \<Rightarrow> 'k \<Rightarrow> ('k read_error, 'd list) res" where
  "bucket_iterator env p db k =
     (let n = length (kv_iter (ae_kv env) db (dk_path (new_with_bucket p (ae_key env k) []))) in
      rmap (\<lambda>bs. ok_or (ae_de env bs) DeserializationFailed) (set_seek_iterator env p db k n False))"

record 'd db_item =
  di_key :: bytes
  di_cached :: "'d option"

definition item_read :: "('db, unit, 'd) acc_env \<Rightarrow> 'd db_item \<Rightarrow> 'db \<Rightarrow> (unit read_error, 'd) res \<times> 'd db_item" where
  "item_read env it db = (case di_cached it of
     Some d \<Rightarrow> (Inr d, it)
   | None \<Rightarrow> (case kv_get (ae_kv env) db (di_key it) of
       None \<Rightarrow> (Inl (Err (KeyMissing ())), it)
     | Some bin \<Rightarrow> (case ae_de env bin of
         None \<Rightarrow> (Inl (Err DeserializationFailed), it)
       | Some d \<Rightarrow> (Inr d, it\<lparr>di_cached := Some d\<rparr>))))"

definition item_write :: "('db, unit, 'd) acc_env \<Rightarrow> 'd db_item \<Rightarrow> batch \<Rightarrow> 'd \<Rightarrow> 'd db_item \<times> batch" where
  "item_write env it b d = (it\<lparr>di_cached := Some d\<rparr>, batch_put b (di_key it) (ae_ser env d))"

definition item_remove :: "'d db_item \<Rightarrow> batch \<Rightarrow> 'd db_item \<times> batch" where
  "item_remove it b = (it\<lparr>di_cached := None\<rparr>, batch_delete b (di_key it))"

definition item_update ::
  "('db, unit, 'd) acc_env \<Rightarrow> 'd db_item \<Rightarrow> 'db \<Rightarrow> batch \<Rightarrow> ('d \<Rightarrow> 'd) \<Rightarrow>
     (unit read_error, 'd) res \<times> 'd db_item \<times> batch" where
  "item_update env it db b f =
     (case (case di_cached it of Some d \<Rightarrow> Inr d
        | None \<Rightarrow> rbind (ok_or (kv_get (ae_kv env) db (di_key it)) (KeyMissing ()))
            (\<lambda>bin. ok_or (ae_de env bin) DeserializationFailed)) of
        Inl e \<Rightarrow> (Inl e, it\<lparr>di_cached := None\<rparr>, b)
      | Inr d \<Rightarrow> (Inr (f d), it\<lparr>di_cached := Some (f d)\<rparr>, batch_put b (di_key it) (ae_ser env (f d))))"

text \<open>A set under one key, cached as a whole (\<^verbatim>\<open>CachedDbSetItem\<close>).\<close>

record 'd db_set_item =
  dsi_prefix :: bytes
  dsi_cached :: "'d set option"

definition set_item_read ::
  "('db, unit, 'd) acc_env \<Rightarrow> 'd db_set_item \<Rightarrow> 'db \<Rightarrow> (unit read_error, 'd set) res \<times> 'd db_set_item" where
  "set_item_read env it db = (case dsi_cached it of
     Some s \<Rightarrow> (Inr s, it)
   | None \<Rightarrow> (case bucket_iterator env (dsi_prefix it) db () of
       Inl e \<Rightarrow> (Inl e, it)
     | Inr xs \<Rightarrow> (Inr (set xs), it\<lparr>dsi_cached := Some (set xs)\<rparr>)))"

definition set_item_update ::
  "('db, unit, 'd) acc_env \<Rightarrow> 'd db_set_item \<Rightarrow> 'db \<Rightarrow> batch \<Rightarrow> 'd list \<Rightarrow> 'd list \<Rightarrow>
     (unit read_error, 'd set) res \<times> 'd db_set_item \<times> batch" where
  "set_item_update env it db b added removed = (case set_item_read env it db of
     (Inl e, it') \<Rightarrow> (Inl e, it', b)
   | (Inr s, it') \<Rightarrow>
       let s' = fold Set.insert added (fold Set.remove removed s);
         b' = fold (\<lambda>d b. set_write env (dsi_prefix it) b () d) added
           (fold (\<lambda>d b. set_delete env (dsi_prefix it) b () d) removed b)
       in (Inr s', it'\<lparr>dsi_cached := Some s'\<rparr>, b'))"

section \<open>Coherence of a cached access\<close>

text \<open>
  The typed content of a raw key-value map under a prefix, and its relation to the
  cache.  The raw map is the database with the pending batch applied.
\<close>

definition typed :: "('db, 'k, 'd) acc_env \<Rightarrow> bytes \<Rightarrow> (bytes \<rightharpoonup> bytes) \<Rightarrow> 'k \<rightharpoonup> 'd" where
  "typed env p m = (\<lambda>k. Option.bind (m (p @ ae_key env k)) (ae_de env))"

definition well_typed :: "('db, 'k, 'd) acc_env \<Rightarrow> bytes \<Rightarrow> (bytes \<rightharpoonup> bytes) \<Rightarrow> bool" where
  "well_typed env p m \<longleftrightarrow> (\<forall>k v. m (p @ ae_key env k) = Some v \<longrightarrow> ae_de env v \<noteq> None)"

definition access_ok :: "('db, 'k, 'd) acc_env \<Rightarrow> ('k, 'd) cached_access \<Rightarrow> (bytes \<rightharpoonup> bytes) \<Rightarrow> bool" where
  "access_ok env a m \<longleftrightarrow> lossy.coherent (ae_size env) (ca_cache a) (typed env (ca_prefix a) m) \<and> well_typed env (ca_prefix a) m"

definition pending :: "'db kv \<Rightarrow> 'db \<Rightarrow> batch \<Rightarrow> (bytes \<rightharpoonup> bytes)" where
  "pending kv db b = fold apply_op b (kv_get kv db)"

lemma pending_simps [simp]:
  "pending kv db [] = kv_get kv db" "pending kv db (batch_put b k v) = (pending kv db b)(k \<mapsto> v)"
  "pending kv db (batch_delete b k) = (pending kv db b)(k := None)"
  by (simp_all add: pending_def batch_put_def batch_delete_def)

lemma env_okD:
  assumes "env_ok env"
  shows "kv_ok (ae_kv env)" "ae_key env k = ae_key env k' \<longleftrightarrow> k = k'" "length (ae_key env k) = length (ae_key env k')"
    "ae_de env (ae_ser env d) = Some d" "ae_ser env d = ae_ser env d' \<longleftrightarrow> d = d'"
proof -
  show kv: "kv_ok (ae_kv env)" "ae_key env k = ae_key env k' \<longleftrightarrow> k = k'" "length (ae_key env k) = length (ae_key env k')"
    "ae_de env (ae_ser env d) = Some d"
    using assms unfolding env_ok_def by (auto dest: injD)
  show "ae_ser env d = ae_ser env d' \<longleftrightarrow> d = d'"
    using assms unfolding env_ok_def by (metis option.inject)
qed

lemma kv_write_pending: "kv_ok kv \<Longrightarrow> kv_get kv (kv_write kv db b) = pending kv db b"
  by (simp add: kv_ok_def pending_def)

lemma typed_update:
  assumes "env_ok env"
  shows "typed env p (m(p @ ae_key env k \<mapsto> ae_ser env d)) = (typed env p m)(k \<mapsto> d)"
    and "typed env p (m(p @ ae_key env k := None)) = (typed env p m)(k := None)"
    and "well_typed env p m \<Longrightarrow> well_typed env p (m(p @ ae_key env k \<mapsto> ae_ser env d))"
    and "well_typed env p m \<Longrightarrow> well_typed env p (m(p @ ae_key env k := None))"
  using env_okD(2,4) [OF assms] by (auto simp: typed_def well_typed_def fun_eq_iff)

lemma typed_other:
  assumes "\<not> prefix p key"
  shows "typed env p (m(key := x)) = typed env p m" "well_typed env p (m(key := x)) = well_typed env p m"
  using assms by (auto simp: typed_def well_typed_def fun_eq_iff prefix_def)

lemma access_read_ok:
  assumes ok: "access_ok env a m" and m: "m = kv_get (ae_kv env) db"
  shows "fst (access_read env a db k) =
      (case typed env (ca_prefix a) m k of None \<Rightarrow> Inl (Err (KeyMissing k)) | Some d \<Rightarrow> Inr d)"
    and "access_ok env (snd (access_read env a db k)) m"
    and "ca_prefix (snd (access_read env a db k)) = ca_prefix a"
proof -
  have coh: "lossy.coherent (ae_size env) (ca_cache a) (typed env (ca_prefix a) m)"
    and wt: "well_typed env (ca_prefix a) m" using ok by (simp_all add: access_ok_def)
  have hit: "typed env (ca_prefix a) m k = Some d" if "cache_get (ca_cache a) k = Some d" for d
    using lossy.coherent_lookup [OF coh that] .
  have fill: "lossy.coherent (ae_size env) (cache_insert (ae_size env) (ca_cache a) k d) (typed env (ca_prefix a) m)"
    if "typed env (ca_prefix a) m k = Some d" for d
    using lossy.coherent_fill [OF coh that] .
  show "fst (access_read env a db k) =
      (case typed env (ca_prefix a) m k of None \<Rightarrow> Inl (Err (KeyMissing k)) | Some d \<Rightarrow> Inr d)"
    using hit wt m by (auto simp: access_read_def access_key_path_def typed_def well_typed_def split: option.splits)
  show "access_ok env (snd (access_read env a db k)) m"
    using ok fill m by (auto simp: access_read_def access_ok_def access_key_path_def typed_def split: option.splits)
  show "ca_prefix (snd (access_read env a db k)) = ca_prefix a"
    by (auto simp: access_read_def split: option.splits)
qed

lemma cache_contains_key_get: "cache_contains_key c k \<longleftrightarrow> cache_get c k \<noteq> None"
  by (simp add: cache_contains_key_def cache_get_def map_of_eq_None_iff)

lemma access_has_ok:
  assumes ok: "access_ok env a m" and m: "m = kv_get (ae_kv env) db"
  shows "access_has env a db k \<longleftrightarrow> typed env (ca_prefix a) m k \<noteq> None"
proof -
  have "lossy.coherent (ae_size env) (ca_cache a) (typed env (ca_prefix a) m)" "well_typed env (ca_prefix a) m"
    using ok by (simp_all add: access_ok_def)
  from lossy.coherent_lookup [OF this(1), of k] this(2) show ?thesis
    using m by (auto simp: access_has_def cache_contains_key_get access_key_path_def typed_def well_typed_def)
qed

lemma access_write_ok:
  assumes "env_ok env" and "access_ok env a (pending kv db b)" and "access_write env a b k d = (a', b')"
  shows "access_ok env a' (pending kv db b') \<and> ca_prefix a' = ca_prefix a \<and>
    pending kv db b' = (pending kv db b)(ca_prefix a @ ae_key env k \<mapsto> ae_ser env d)"
  using assms lossy.coherent_put [of "ae_size env" "ca_cache a" "typed env (ca_prefix a) (pending kv db b)" k d]
  by (auto simp: access_write_def access_ok_def access_key_path_def typed_update)

lemma access_delete_ok:
  assumes "env_ok env" and "access_ok env a (pending kv db b)" and "access_delete env a b k = (a', b')"
  shows "access_ok env a' (pending kv db b') \<and> ca_prefix a' = ca_prefix a \<and>
    pending kv db b' = (pending kv db b)(ca_prefix a @ ae_key env k := None)"
  using assms lossy.coherent_forget [of "ae_size env" "ca_cache a" "typed env (ca_prefix a) (pending kv db b)" k None]
  by (auto simp: access_delete_def access_ok_def access_key_path_def typed_update)

text \<open>The operations on many keys are the iterated single operations.\<close>

lemma access_write_many_fold:
  assumes "cache_inv (ae_size env) (ca_cache a)"
  shows "access_write_many env a b kds = fold (\<lambda>(k, d) (a, b). access_write env a b k d) kds (a, b)"
proof -
  have "fold (\<lambda>(k, d) (a, b). access_write env a b k d) kds (a, b) =
      (a\<lparr>ca_cache := fold (\<lambda>(k, d) c. cache_insert (ae_size env) c k d) kds (ca_cache a)\<rparr>,
       fold (\<lambda>(k, d) b. batch_put b (access_key_path env a k) (ae_ser env d)) kds b)" for a b
  proof (induction kds arbitrary: a b)
    case (Cons kd kds)
    then show ?case by (cases kd) (simp add: access_write_def access_key_path_def)
  qed simp
  then show ?thesis using assms by (simp add: access_write_many_def cache_insert_many_fold)
qed

lemma access_delete_many_fold:
  assumes "cache_inv (ae_size env) (ca_cache a)"
  shows "access_delete_many env a b ks = fold (\<lambda>k (a, b). access_delete env a b k) ks (a, b)"
proof -
  have "fold (\<lambda>k (a, b). access_delete env a b k) ks (a, b) =
      (a\<lparr>ca_cache := fold (\<lambda>k c. cache_remove (ae_size env) c k) ks (ca_cache a)\<rparr>,
       fold (\<lambda>k b. batch_delete b (access_key_path env a k)) ks b)" for a b
    by (induction ks arbitrary: a b) (simp_all add: access_delete_def access_key_path_def)
  then show ?thesis using assms by (simp add: access_delete_many_def cache_remove_many_fold)
qed

lemma access_ok_inv: "access_ok env a m \<Longrightarrow> cache_inv (ae_size env) (ca_cache a)"
  by (simp add: access_ok_def lossy.coherent_def)

lemma access_write_many_ok:
  assumes env: "env_ok env" and ok: "access_ok env a (pending kv db b)" and run: "access_write_many env a b kds = (a', b')"
  shows "access_ok env a' (pending kv db b') \<and> ca_prefix a' = ca_prefix a \<and> pending kv db b' =
    fold (\<lambda>(k, d) m. m(ca_prefix a @ ae_key env k \<mapsto> ae_ser env d)) kds (pending kv db b)"
  using ok run unfolding access_write_many_fold [OF access_ok_inv [OF ok]]
proof (induction kds arbitrary: a b)
  case (Cons kd kds)
  obtain k d where kd: "kd = (k, d)" by force
  obtain a1 b1 where w: "access_write env a b k d = (a1, b1)" by force
  note one = access_write_ok [OF env Cons.prems(1) w]
  from Cons.IH [OF one [THEN conjunct1]] Cons.prems(2) one show ?case by (auto simp: kd w)
qed simp

lemma access_delete_many_ok:
  assumes env: "env_ok env" and ok: "access_ok env a (pending kv db b)" and run: "access_delete_many env a b ks = (a', b')"
  shows "access_ok env a' (pending kv db b') \<and> ca_prefix a' = ca_prefix a \<and> pending kv db b' =
    fold (\<lambda>k m. m(ca_prefix a @ ae_key env k := None)) ks (pending kv db b)"
  using ok run unfolding access_delete_many_fold [OF access_ok_inv [OF ok]]
proof (induction ks arbitrary: a b)
  case (Cons k ks)
  obtain a1 b1 where w: "access_delete env a b k = (a1, b1)" by force
  note one = access_delete_ok [OF env Cons.prems(1) w]
  from Cons.IH [OF one [THEN conjunct1]] Cons.prems(2) one show ?case by (auto simp: w)
qed simp

lemma typed_fold_put:
  "env_ok env \<Longrightarrow> typed env p (fold (\<lambda>(k, d) m. m(p @ ae_key env k \<mapsto> ae_ser env d)) kds m) =
     fold (\<lambda>(k, d) m. m(k \<mapsto> d)) kds (typed env p m)"
  by (induction kds arbitrary: m) (auto simp: typed_update)

lemma typed_fold_delete:
  "env_ok env \<Longrightarrow> typed env p (fold (\<lambda>k m. m(p @ ae_key env k := None)) ks m) =
     fold (\<lambda>k m. m(k := None)) ks (typed env p m)"
  by (induction ks arbitrary: m) (simp_all add: typed_update)

lemma well_typed_fold_put:
  "env_ok env \<Longrightarrow> well_typed env p m \<Longrightarrow> well_typed env p (fold (\<lambda>(k, d) m. m(p @ ae_key env k \<mapsto> ae_ser env d)) kds m)"
  by (induction kds arbitrary: m) (auto simp: typed_update)

lemma access_clear_ok: "access_ok env a m \<Longrightarrow> well_typed env (ca_prefix a) m' \<Longrightarrow>
    access_ok env (a\<lparr>ca_cache := cache_remove_all (ca_cache a)\<rparr>) m'"
  using lossy.coherent_clear by (auto simp: access_ok_def)

lemma pending_put_many:
  "pending kv db (fold (\<lambda>(k, d) b. batch_put b (p @ ae_key env k) (ae_ser env d)) kds b) =
     fold (\<lambda>(k, d) m. m(p @ ae_key env k \<mapsto> ae_ser env d)) kds (pending kv db b)"
  by (induction kds arbitrary: b) auto

lemma typed_delete_range:
  "typed env p (m |` {k. \<not> prefix p k}) = Map.empty" "well_typed env p (m |` {k. \<not> prefix p k})"
  by (auto simp: typed_def well_typed_def fun_eq_iff restrict_map_def)

section \<open>Sets of the database\<close>

text \<open>The set under a key; every key below the prefix is an element of some set.\<close>

definition bucket :: "('db, 'k, 'd) acc_env \<Rightarrow> bytes \<Rightarrow> (bytes \<rightharpoonup> bytes) \<Rightarrow> 'k \<Rightarrow> 'd set" where
  "bucket env p m k = {d. m (p @ ae_key env k @ ae_ser env d) \<noteq> None}"

definition buckets_ok :: "('db, 'k, 'd) acc_env \<Rightarrow> bytes \<Rightarrow> (bytes \<rightharpoonup> bytes) \<Rightarrow> bool" where
  "buckets_ok env p m \<longleftrightarrow> (\<forall>key. prefix p key \<longrightarrow> m key \<noteq> None \<longrightarrow> (\<exists>k d. key = p @ ae_key env k @ ae_ser env d))"

lemma set_path_inject:
  assumes "env_ok env"
  shows "p @ ae_key env k @ ae_ser env d = p @ ae_key env k' @ ae_ser env d' \<longleftrightarrow> k = k' \<and> d = d'"
  using env_okD(2,5) [OF assms] env_okD(3) [OF assms, of k k'] by auto

lemma set_path_prefix:
  assumes "env_ok env"
  shows "prefix (p @ ae_key env k) (p @ ae_key env k' @ ae_ser env d) \<longleftrightarrow> k = k'"
proof -
  have "prefix (ae_key env k) (ae_key env k' @ ae_ser env d) \<longleftrightarrow> ae_key env k = ae_key env k'"
    using env_okD(3) [OF assms, of k k'] by (auto simp: prefix_def)
  then show ?thesis using env_okD(2) [OF assms] by simp
qed

lemma bucket_update:
  assumes "env_ok env"
  shows "bucket env p (m(p @ ae_key env k @ ae_ser env d \<mapsto> v)) = (bucket env p m)(k := insert d (bucket env p m k))"
    and "bucket env p (m(p @ ae_key env k @ ae_ser env d := None)) = (bucket env p m)(k := bucket env p m k - {d})"
    and "bucket env p (m |` {key. \<not> prefix (p @ ae_key env k) key}) = (bucket env p m)(k := {})"
    and "buckets_ok env p m \<Longrightarrow> buckets_ok env p (m(p @ ae_key env k @ ae_ser env d := x))"
    and "buckets_ok env p m \<Longrightarrow> buckets_ok env p (m |` X)"
  unfolding bucket_def buckets_ok_def
  using set_path_inject [OF assms, of p] set_path_prefix [OF assms, of p]
  by (auto simp: fun_eq_iff restrict_map_def)

lemma bucket_other:
  assumes "\<not> prefix p key"
  shows "bucket env p (m(key := x)) = bucket env p m" "buckets_ok env p (m(key := x)) = buckets_ok env p m"
proof -
  have "p @ q \<noteq> key" for q using assms by (auto simp: prefix_def)
  then show "bucket env p (m(key := x)) = bucket env p m" by (simp add: bucket_def fun_eq_iff)
  show "buckets_ok env p (m(key := x)) = buckets_ok env p m" using assms by (auto simp: buckets_ok_def)
qed

lemma rmap_map: "rmap f (map g xs) = rmap (\<lambda>x. f (g x)) xs"
  by (induction xs) simp_all

lemma bucket_iterator_ok:
  assumes env: "env_ok env" and ok: "buckets_ok env p (kv_get (ae_kv env) db)"
  shows "\<exists>xs. bucket_iterator env p db k = Inr xs \<and> distinct xs \<and> set xs = bucket env p (kv_get (ae_kv env) db) k"
proof -
  let ?m = "kv_get (ae_kv env) db" and ?pk = "p @ ae_key env k"
  define it where "it = kv_iter (ae_kv env) db ?pk"
  define elem where "elem = (\<lambda>key. the (ae_de env (drop (length ?pk) key)))"
  have it: "distinct (map fst it)" "set it = {(key, v). ?m key = Some v \<and> prefix ?pk key}"
    using env_okD(1) [OF env] by (simp_all add: kv_ok_def it_def)
  have shape: "\<exists>d. key = ?pk @ ae_ser env d" if "(key, v) \<in> set it" for key v
  proof -
    have "?m key \<noteq> None" "prefix ?pk key" using that it(2) by auto
    moreover from this have "prefix p key" by (auto simp: prefix_def)
    ultimately obtain k' d where key: "key = p @ ae_key env k' @ ae_ser env d" using ok unfolding buckets_ok_def by blast
    with \<open>prefix ?pk key\<close> have "k = k'" using set_path_prefix [OF env] by blast
    with key show ?thesis by auto
  qed
  have elem: "key = ?pk @ ae_ser env (elem key) \<and> ae_de env (drop (length ?pk) key) = Some (elem key)"
    if "(key, v) \<in> set it" for key v
    using shape [OF that] env_okD(4) [OF env] by (auto simp: elem_def)
  have "bucket_iterator env p db k = rmap (\<lambda>e. ok_or (ae_de env (drop (length ?pk) (fst e))) DeserializationFailed) it"
    by (simp add: bucket_iterator_def set_seek_iterator_def Let_def it_def rmap_map split_beta comp_def)
  also have "\<dots> = Inr (map (\<lambda>e. elem (fst e)) it)"
    by (rule rmap_total) (use elem in auto)
  finally have run: "bucket_iterator env p db k = Inr (map (\<lambda>e. elem (fst e)) it)" .
  have "inj_on elem (fst ` set it)"
  proof (rule inj_onI)
    fix x y assume "x \<in> fst ` set it" and "y \<in> fst ` set it" and eq: "elem x = elem y"
    then obtain v w where "(x, v) \<in> set it" "(y, w) \<in> set it" by force
    then have "x = ?pk @ ae_ser env (elem x)" "y = ?pk @ ae_ser env (elem y)" using elem by blast+
    with eq show "x = y" by argo
  qed
  then have "distinct (map elem (map fst it))" using it(1) by (simp add: distinct_map comp_inj_on)
  then have "distinct (map (\<lambda>e. elem (fst e)) it)" by (simp add: comp_def)
  moreover have "set (map (\<lambda>e. elem (fst e)) it) = bucket env p ?m k"
  proof (intro equalityI subsetI)
    fix d assume "d \<in> set (map (\<lambda>e. elem (fst e)) it)"
    then obtain key v where e: "(key, v) \<in> set it" "d = elem key" by force
    then show "d \<in> bucket env p ?m k" using elem [OF e(1)] it(2) by (auto simp: bucket_def)
  next
    fix d assume "d \<in> bucket env p ?m k"
    then obtain v where "?m (?pk @ ae_ser env d) = Some v" by (auto simp: bucket_def)
    then have e: "(?pk @ ae_ser env d, v) \<in> set it" using it(2) by simp
    have "elem (?pk @ ae_ser env d) = d" using env_okD(4) [OF env] by (simp add: elem_def)
    then show "d \<in> set (map (\<lambda>e. elem (fst e)) it)" using e by force
  qed
  ultimately show ?thesis using run by blast
qed

text \<open>A single item is coherent when its cached value is the stored one.\<close>

definition item_ok :: "('db, unit, 'd) acc_env \<Rightarrow> 'd db_item \<Rightarrow> (bytes \<rightharpoonup> bytes) \<Rightarrow> 'd option \<Rightarrow> bool" where
  "item_ok env it m v \<longleftrightarrow> m (di_key it) = map_option (ae_ser env) v \<and> (di_cached it = None \<or> di_cached it = v)"

lemma item_ops_ok:
  assumes "\<forall>d. ae_de env (ae_ser env d) = Some d" and "item_ok env it m v"
  shows "m = kv_get (ae_kv env) db \<Longrightarrow> fst (item_read env it db) = (case v of None \<Rightarrow> Inl (Err (KeyMissing ())) | Some d \<Rightarrow> Inr d)"
    and "m = kv_get (ae_kv env) db \<Longrightarrow> item_ok env (snd (item_read env it db)) m v"
    and "di_key (snd (item_read env it db)) = di_key it"
  using assms by (auto simp: item_ok_def item_read_def split: option.splits)

section \<open>A cached access refines a map\<close>

datatype ('k, 'd) access_op = AccWrite 'k 'd | AccWriteMany "('k \<times> 'd) list" | AccWriteManyNoCache "('k \<times> 'd) list"
  | AccDelete 'k | AccDeleteMany "'k list" | AccDeleteAll | AccRead 'k

text \<open>One operation with a direct writer: the batch is written at once.\<close>

fun access_step :: "('db, 'k, 'd) acc_env \<Rightarrow> ('k, 'd) access_op \<Rightarrow> ('k, 'd) cached_access \<times> 'db \<Rightarrow>
    ('e, ('k, 'd) cached_access \<times> 'db) res" where
  "access_step env (AccWrite k d) (a, db) = (case access_write env a [] k d of (a', b) \<Rightarrow> Inr (a', kv_write (ae_kv env) db b))"
| "access_step env (AccWriteMany kds) (a, db) = (case access_write_many env a [] kds of (a', b) \<Rightarrow> Inr (a', kv_write (ae_kv env) db b))"
| "access_step env (AccWriteManyNoCache kds) (a, db) =
     (case access_write_many_without_cache env a [] kds of (a', b) \<Rightarrow> Inr (a', kv_write (ae_kv env) db b))"
| "access_step env (AccDelete k) (a, db) = (case access_delete env a [] k of (a', b) \<Rightarrow> Inr (a', kv_write (ae_kv env) db b))"
| "access_step env (AccDeleteMany ks) (a, db) = (case access_delete_many env a [] ks of (a', b) \<Rightarrow> Inr (a', kv_write (ae_kv env) db b))"
| "access_step env AccDeleteAll (a, db) = rbind (access_delete_all a []) (\<lambda>(a', b). Inr (a', kv_write (ae_kv env) db b))"
| "access_step env (AccRead k) (a, db) = Inr (snd (access_read env a db k), db)"

fun map_step :: "('k, 'd) access_op \<Rightarrow> ('k \<rightharpoonup> 'd) \<Rightarrow> ('k \<rightharpoonup> 'd)" where
  "map_step (AccWrite k d) m = m(k \<mapsto> d)"
| "map_step (AccWriteMany kds) m = fold (\<lambda>(k, d) m. m(k \<mapsto> d)) kds m"
| "map_step (AccWriteManyNoCache kds) m = fold (\<lambda>(k, d) m. m(k \<mapsto> d)) kds m"
| "map_step (AccDelete k) m = m(k := None)"
| "map_step (AccDeleteMany ks) m = fold (\<lambda>k m. m(k := None)) ks m"
| "map_step AccDeleteAll m = Map.empty"
| "map_step (AccRead k) m = m"

lemma access_step_ok:
  assumes env: "env_ok env" and ok: "access_ok env a (kv_get (ae_kv env) db)" and p: "list_ex (\<lambda>x. x \<noteq> 0xff) (ca_prefix a)"
  shows "\<exists>a' db'. (access_step env oper (a, db) :: ('e, _) res) = Inr (a', db') \<and> access_ok env a' (kv_get (ae_kv env) db') \<and>
    ca_prefix a' = ca_prefix a \<and>
    typed env (ca_prefix a) (kv_get (ae_kv env) db') = map_step oper (typed env (ca_prefix a) (kv_get (ae_kv env) db))"
proof -
  have ok0: "access_ok env a (pending (ae_kv env) db [])" using ok by simp
  note w = kv_write_pending [OF env_okD(1) [OF env]]
  note defs = access_write_many_without_cache_def access_delete_all_def batch_delete_range_def Let_def access_key_path_def
  show ?thesis
  proof (cases oper)
    case (AccWrite k d)
    obtain a' b where r: "access_write env a [] k d = (a', b)" by force
    from access_write_ok [OF env ok0 r] show ?thesis by (auto simp: AccWrite r w typed_update [OF env])
  next
    case (AccWriteMany kds)
    obtain a' b where r: "access_write_many env a [] kds = (a', b)" by force
    from access_write_many_ok [OF env ok0 r] show ?thesis by (auto simp: AccWriteMany r w typed_fold_put [OF env])
  next
    case (AccWriteManyNoCache kds)
    let ?b = "fold (\<lambda>(k, d) b. batch_put b (ca_prefix a @ ae_key env k) (ae_ser env d)) kds []"
    have wt: "well_typed env (ca_prefix a) (kv_get (ae_kv env) db)" using ok by (simp add: access_ok_def)
    have "access_ok env (a\<lparr>ca_cache := cache_remove_all (ca_cache a)\<rparr>) (pending (ae_kv env) db ?b)"
      by (rule access_clear_ok [OF ok]) (simp add: pending_put_many well_typed_fold_put [OF env wt])
    then show ?thesis by (simp add: AccWriteManyNoCache w pending_put_many typed_fold_put [OF env] defs)
  next
    case (AccDelete k)
    obtain a' b where r: "access_delete env a [] k = (a', b)" by force
    from access_delete_ok [OF env ok0 r] show ?thesis by (auto simp: AccDelete r w typed_update [OF env])
  next
    case (AccDeleteMany ks)
    obtain a' b where r: "access_delete_many env a [] ks = (a', b)" by force
    from access_delete_many_ok [OF env ok0 r] show ?thesis by (auto simp: AccDeleteMany r w typed_fold_delete [OF env])
  next
    case AccDeleteAll
    have "access_ok env (a\<lparr>ca_cache := cache_remove_all (ca_cache a)\<rparr>) (pending (ae_kv env) db [WDeleteRange (ca_prefix a)])"
      by (rule access_clear_ok [OF ok]) (simp add: pending_def typed_delete_range)
    then show ?thesis using p by (simp add: AccDeleteAll w pending_def typed_delete_range defs)
  next
    case (AccRead k)
    from access_read_ok [OF ok refl, of k] show ?thesis by (simp add: AccRead)
  qed
qed

text \<open>A database in memory, as an association list, meets the documented behaviour.\<close>

fun alist_apply :: "write_op \<Rightarrow> (bytes \<times> bytes) list \<Rightarrow> (bytes \<times> bytes) list" where
  "alist_apply (WPut k v) db = (k, v) # db"
| "alist_apply (WDelete k) db = AList.delete k db"
| "alist_apply (WDeleteRange p) db = filter (\<lambda>e. \<not> prefix p (fst e)) db"

definition alist_kv :: "(bytes \<times> bytes) list kv" where
  "alist_kv = \<lparr>kv_get = map_of, kv_write = (\<lambda>db b. fold alist_apply b db),
     kv_iter = (\<lambda>db p. filter (\<lambda>e. prefix p (fst e)) (AList.clearjunk db))\<rparr>"

lemma map_of_filter_key: "map_of (filter (\<lambda>e. P (fst e)) xs) = map_of xs |` {k. P k}"
  by (induction xs) (auto simp: fun_eq_iff restrict_map_def)

lemma alist_kv_ok: "kv_ok alist_kv"
proof -
  have one: "map_of (alist_apply oper db) = apply_op oper (map_of db)" for oper db
    by (cases oper) (simp_all add: delete_conv' fun_eq_iff map_of_filter_key [where P = "\<lambda>k. \<not> prefix _ k"])
  have wr: "map_of (fold alist_apply b db) = fold apply_op b (map_of db)" for b db
    by (induction b arbitrary: db) (simp_all add: one)
  have iter: "set (AList.clearjunk db) = {(k, v). map_of db k = Some v}" for db :: "(bytes \<times> bytes) list"
    using map_of_eq_Some_iff [OF distinct_clearjunk, of db] map_of_clearjunk [of db] by auto
  have dist: "distinct (map fst (filter P (AList.clearjunk db)))" for P and db :: "(bytes \<times> bytes) list"
    using distinct_clearjunk [of db] by (rule distinct_map_filter)
  show ?thesis unfolding kv_ok_def alist_kv_def using wr iter dist by auto
qed

section \<open>Properties\<close>

lemma access_run_ok:
  assumes env: "env_ok env" and ok: "access_ok env a (kv_get (ae_kv env) db)" and p: "list_ex (\<lambda>x. x \<noteq> 0xff) (ca_prefix a)"
  shows "\<exists>a' db'. (rfold (\<lambda>s oper. access_step env oper s) (a, db) ops :: ('e, _) res) = Inr (a', db') \<and>
    access_ok env a' (kv_get (ae_kv env) db') \<and> ca_prefix a' = ca_prefix a \<and>
    typed env (ca_prefix a) (kv_get (ae_kv env) db') = fold map_step ops (typed env (ca_prefix a) (kv_get (ae_kv env) db))"
  using ok p
proof (induction ops arbitrary: a db)
  case (Cons oper ops)
  from access_step_ok [OF env Cons.prems, of oper] obtain a1 db1 where
    s: "(access_step env oper (a, db) :: ('e, _) res) = Inr (a1, db1)" "access_ok env a1 (kv_get (ae_kv env) db1)"
      "ca_prefix a1 = ca_prefix a"
      "typed env (ca_prefix a) (kv_get (ae_kv env) db1) = map_step oper (typed env (ca_prefix a) (kv_get (ae_kv env) db))"
    by blast
  from Cons.IH [OF s(2)] Cons.prems(2) s show ?case by simp
qed simp

text \<open>
  C39: a cached access over any database behaves as a map: after any sequence of
  writes, batched writes, deletions, bulk deletion and reads, with any cache
  policy and any evictions, no operation fails, a read returns the value last
  written under the key or reports that the key is missing, and the existence
  test agrees.
\<close>

theorem access_refines_map:
  assumes "env_ok env" and "well_typed env p (kv_get (ae_kv env) db)" and "list_ex (\<lambda>x. x \<noteq> 0xff) p"
  shows "\<exists>a db'. rfold (\<lambda>s oper. access_step env oper s) (access_new policy draws p, db) ops = (Inr (a, db') :: (unit, _) res) \<and>
    (\<forall>k. fst (access_read env a db' k) = (case fold map_step ops (typed env p (kv_get (ae_kv env) db)) k of
        None \<Rightarrow> Inl (Err (KeyMissing k)) | Some d \<Rightarrow> Inr d) \<and>
      (access_has env a db' k \<longleftrightarrow> fold map_step ops (typed env p (kv_get (ae_kv env) db)) k \<noteq> None))"
proof -
  have "access_ok env (access_new policy draws p) (kv_get (ae_kv env) db)"
    using assms(2) by (simp add: access_ok_def access_new_def lossy.coherent_def cache_new_inv)
  moreover have pre: "ca_prefix (access_new policy draws p :: ('b, 'c) cached_access) = p" by (simp add: access_new_def)
  ultimately obtain a db' where
    r: "(rfold (\<lambda>s oper. access_step env oper s) (access_new policy draws p, db) ops :: (unit, _) res) = Inr (a, db')"
      "access_ok env a (kv_get (ae_kv env) db')" "ca_prefix a = p"
      "typed env p (kv_get (ae_kv env) db') = fold map_step ops (typed env p (kv_get (ae_kv env) db))"
    using access_run_ok [OF assms(1)] assms(3) by metis
  from r access_read_ok(1) [OF r(2) refl] access_has_ok [OF r(2) refl] show ?thesis by auto
qed

definition ex_env :: "((bytes \<times> bytes) list, byte, byte) acc_env" where
  "ex_env = \<lparr>ae_kv = alist_kv, ae_key = (\<lambda>k. [k]), ae_ser = (\<lambda>d. [d]),
     ae_de = (\<lambda>bs. case bs of [d] \<Rightarrow> Some d | _ \<Rightarrow> None), ae_size = (\<lambda>_ _. 1)\<rparr>"

lemma ex_env_ok: "env_ok ex_env"
  using alist_kv_ok by (simp add: env_ok_def ex_env_def inj_def)

theorem access_refines_map_witness:
  "\<exists>a db'. rfold (\<lambda>s oper. access_step ex_env oper s) (access_new (CacheCount 1) (\<lambda>_. 0) [15], [])
      [AccWrite 1 7, AccWrite 2 8, AccDelete 2] = (Inr (a, db') :: (unit, _) res) \<and>
    fst (access_read ex_env a db' 1) = Inr 7 \<and> fst (access_read ex_env a db' 2) = Inl (Err (KeyMissing 2))"
proof -
  have "well_typed ex_env [15] (kv_get (ae_kv ex_env) [])"
    by (simp add: well_typed_def ex_env_def alist_kv_def)
  from access_refines_map [OF ex_env_ok this, of "CacheCount 1" "\<lambda>_. 0" "[AccWrite 1 7, AccWrite 2 8, AccDelete 2]"]
  obtain a db' where "rfold (\<lambda>s oper. access_step ex_env oper s) (access_new (CacheCount 1) (\<lambda>_. 0) [15], [])
      [AccWrite 1 7, AccWrite 2 8, AccDelete 2] = (Inr (a, db') :: (unit, _) res)"
    and "\<And>k. fst (access_read ex_env a db' k) =
      (case fold map_step [AccWrite 1 7, AccWrite 2 8, AccDelete 2] (typed ex_env [15] (kv_get (ae_kv ex_env) [])) k of
        None \<Rightarrow> Inl (Err (KeyMissing k)) | Some d \<Rightarrow> Inr d)"
    by auto
  then show ?thesis by (intro exI conjI) (assumption, simp_all)
qed

end
