(* ===== verification/ReachDb.thy ===== *)
theory ReachDb
  imports KvStore ReachStore "HOL-Library.Product_Lexorder"
begin

text \<open>
  The database-backed reachability store and its staging layer:
  \<^verbatim>\<open>DbReachabilitySet\<close>, \<^verbatim>\<open>DbReachabilityStore\<close>, \<^verbatim>\<open>StagingSetEntry\<close> and
  \<^verbatim>\<open>StagingReachabilityStore\<close> of \<^verbatim>\<open>consensus/src/model/stores/reachability.rs\<close>.

  A read may fill a cache, so reads return the store as well.  The hash maps and hash
  sets of the staging layer are lists in some iteration order.
\<close>

section \<open>Parameters\<close>

record db_reach_data =
  dr_parent :: hash
  dr_interval :: interval
  dr_height :: nat

definition db_reach_data_new :: "hash \<Rightarrow> interval \<Rightarrow> nat \<Rightarrow> db_reach_data" where
  "db_reach_data_new parent iv height = \<lparr>dr_parent = parent, dr_interval = iv, dr_height = height\<rparr>"

record 'db reach_env =
  re_kv :: "'db kv"
  re_ser_data :: "db_reach_data \<Rightarrow> bytes"
  re_de_data :: "bytes \<Rightarrow> db_reach_data option"
  re_ser_hash :: "hash \<Rightarrow> bytes"
  re_de_hash :: "bytes \<Rightarrow> hash option"
  re_data_size :: "db_reach_data estimator"
  re_list_size :: "hash list estimator"

definition reach_env_ok :: "'db reach_env \<Rightarrow> bool" where
  "reach_env_ok e \<longleftrightarrow> kv_ok (re_kv e) \<and> (\<forall>d. re_de_data e (re_ser_data e d) = Some d) \<and>
     (\<forall>h. re_de_hash e (re_ser_hash e h) = Some h)"

definition data_env :: "'db reach_env \<Rightarrow> ('db, hash, db_reach_data) acc_env" where
  "data_env e = \<lparr>ae_kv = re_kv e, ae_key = hash_bytes, ae_ser = re_ser_data e, ae_de = re_de_data e, ae_size = re_data_size e\<rparr>"

definition set_env :: "'db reach_env \<Rightarrow> ('db, hash, hash) acc_env" where
  "set_env e = \<lparr>ae_kv = re_kv e, ae_key = hash_bytes, ae_ser = re_ser_hash e, ae_de = re_de_hash e, ae_size = (\<lambda>_ _. 0)\<rparr>"

definition root_env :: "'db reach_env \<Rightarrow> ('db, unit, hash) acc_env" where
  "root_env e = \<lparr>ae_kv = re_kv e, ae_key = (\<lambda>_. []), ae_ser = re_ser_hash e, ae_de = re_de_hash e, ae_size = (\<lambda>_ _. 0)\<rparr>"

definition map_err :: "('e \<Rightarrow> 'f) \<Rightarrow> ('e, 'a) res \<Rightarrow> ('f, 'a) res" where
  "map_err f r = (case r of Inr x \<Rightarrow> Inr x | Inl (Err e) \<Rightarrow> Inl (Err (f e)) | Inl Panic \<Rightarrow> Inl Panic | Inl OutOfFuel \<Rightarrow> Inl OutOfFuel)"

fun key_error :: "hash read_error \<Rightarrow> reach_error" where
  "key_error (KeyMissing h) = StoreError (KeyNotFound h)"
| "key_error DeserializationFailed = StoreError DeserializationError"

fun prefix_error :: "unit read_error \<Rightarrow> reach_error" where
  "prefix_error (KeyMissing _) = StoreError PrefixNotFound"
| "prefix_error DeserializationFailed = StoreError DeserializationError"

section \<open>\<^verbatim>\<open>DbReachabilitySet\<close>\<close>

record db_reach_set =
  drs_prefix :: bytes
  drs_cache :: "(hash, hash list) cache"

type_synonym reach_access = "(hash, db_reach_data) cached_access"

text \<open>The cached list under a key is updated only when there is one.\<close>

definition cached_list_update :: "'db reach_env \<Rightarrow> db_reach_set \<Rightarrow> hash \<Rightarrow> (hash list \<Rightarrow> (reach_error, hash list) res) \<Rightarrow>
    (reach_error, db_reach_set) res" where
  "cached_list_update e s h f = (case cache_get (drs_cache s) h of
     None \<Rightarrow> Inr s
   | Some entry \<Rightarrow> rbind (f entry) (\<lambda>entry'. Inr (s\<lparr>drs_cache := cache_insert (re_list_size e) (drs_cache s) h entry'\<rparr>)))"

definition drs_append :: "'db reach_env \<Rightarrow> db_reach_set \<Rightarrow> batch \<Rightarrow> hash \<Rightarrow> hash \<Rightarrow> (reach_error, db_reach_set \<times> batch) res" where
  "drs_append e s b h element = rbind (cached_list_update e s h (\<lambda>entry. Inr (entry @ [element])))
     (\<lambda>s'. Inr (s', set_write (set_env e) (drs_prefix s) b h element))"

definition drs_insert :: "'db reach_env \<Rightarrow> db_reach_set \<Rightarrow> batch \<Rightarrow> hash \<Rightarrow> hash \<Rightarrow> nat \<Rightarrow>
    (reach_error, db_reach_set \<times> batch) res" where
  "drs_insert e s b h element i =
     rbind (cached_list_update e s h (\<lambda>entry. rbind (rassert (i \<le> length entry)) (\<lambda>_. Inr (vec_insert entry i element))))
       (\<lambda>s'. Inr (s', set_write (set_env e) (drs_prefix s) b h element))"

definition drs_replace :: "'db reach_env \<Rightarrow> db_reach_set \<Rightarrow> batch \<Rightarrow> hash \<Rightarrow> hash \<Rightarrow> nat \<Rightarrow> hash list \<Rightarrow>
    (reach_error, db_reach_set \<times> batch) res" where
  "drs_replace e s b h replaced_hash i replace_with =
     rbind (cached_list_update e s h (\<lambda>entry. rbind (rassert (i < length entry)) (\<lambda>_. Inr (vec_splice1 entry i replace_with))))
       (\<lambda>s'. Inr (s', fold (\<lambda>x b. set_write (set_env e) (drs_prefix s) b h x) replace_with
          (set_delete (set_env e) (drs_prefix s) b h replaced_hash)))"

definition drs_delete :: "'db reach_env \<Rightarrow> db_reach_set \<Rightarrow> batch \<Rightarrow> hash \<Rightarrow> (reach_error, db_reach_set \<times> batch) res" where
  "drs_delete e s b h = rbind (set_delete_bucket (set_env e) (drs_prefix s) b h)
     (\<lambda>b'. Inr (s\<lparr>drs_cache := cache_remove (re_list_size e) (drs_cache s) h\<rparr>, b'))"

text \<open>The ordering rule of a set: the stored intervals, unwrapped.\<close>

primrec read_intervals :: "'db reach_env \<Rightarrow> 'db \<Rightarrow> hash list \<Rightarrow> reach_access \<Rightarrow> (reach_error, interval list) res \<times> reach_access" where
  "read_intervals e db [] a = (Inr [], a)"
| "read_intervals e db (h # hs) a = (case access_read (data_env e) a db h of
     (Inl _, a') \<Rightarrow> (Inl Panic, a')
   | (Inr d, a') \<Rightarrow> (case read_intervals e db hs a' of
       (r, a'') \<Rightarrow> (rbind r (\<lambda>ivs. Inr (dr_interval d # ivs)), a'')))"

definition interval_key :: "interval \<Rightarrow> nat \<times> nat" where
  "interval_key iv = (iv_start iv, iv_end iv)"

definition sort_by_cached_key :: "interval list \<Rightarrow> hash list \<Rightarrow> hash list" where
  "sort_by_cached_key ivs hs = map snd (sort_key (\<lambda>e. interval_key (fst e)) (zip ivs hs))"

definition drs_read :: "'db reach_env \<Rightarrow> 'db \<Rightarrow> db_reach_set \<Rightarrow> reach_access \<Rightarrow> hash \<Rightarrow>
    (reach_error, hash list) res \<times> db_reach_set \<times> reach_access" where
  "drs_read e db s a h = (case cache_get (drs_cache s) h of
     Some entry \<Rightarrow> (Inr entry, s, a)
   | None \<Rightarrow> (case map_err key_error (bucket_iterator (set_env e) (drs_prefix s) db h) of
       Inl err \<Rightarrow> (Inl err, s, a)
     | Inr hs \<Rightarrow> (case read_intervals e db hs a of
         (Inl err, a') \<Rightarrow> (Inl err, s, a')
       | (Inr ivs, a') \<Rightarrow> let entry = sort_by_cached_key ivs hs in
           (Inr entry, s\<lparr>drs_cache := cache_insert (re_list_size e) (drs_cache s) h entry\<rparr>, a'))))"

section \<open>\<^verbatim>\<open>DbReachabilityStore\<close>\<close>

text \<open>The numbers of \<^verbatim>\<open>DatabaseStorePrefixes\<close> that the store uses.\<close>

definition PREFIX_REACHABILITY :: byte where "PREFIX_REACHABILITY = 15"
definition PREFIX_REINDEX_ROOT :: byte where "PREFIX_REINDEX_ROOT = 16"
definition PREFIX_TREE_CHILDREN :: byte where "PREFIX_TREE_CHILDREN = 30"
definition PREFIX_FUTURE_COVERING_SET :: byte where "PREFIX_FUTURE_COVERING_SET = 31"
definition SEPARATOR :: byte where "SEPARATOR = 0xff"

record 'db reach_db =
  rdb_db :: 'db
  rdb_access :: reach_access
  rdb_children :: db_reach_set
  rdb_fcs :: db_reach_set
  rdb_root :: "hash db_item"

definition with_prefix_end :: "'db \<Rightarrow> cache_policy \<Rightarrow> cache_policy \<Rightarrow> byte \<Rightarrow> (nat \<Rightarrow> nat) \<Rightarrow> 'db reach_db" where
  "with_prefix_end db policy sets_policy prefix_end draws =
     \<lparr>rdb_db = db, rdb_access = access_new policy draws [PREFIX_REACHABILITY, prefix_end],
      rdb_children = \<lparr>drs_prefix = [PREFIX_TREE_CHILDREN, prefix_end], drs_cache = cache_new sets_policy draws\<rparr>,
      rdb_fcs = \<lparr>drs_prefix = [PREFIX_FUTURE_COVERING_SET, prefix_end], drs_cache = cache_new sets_policy draws\<rparr>,
      rdb_root = \<lparr>di_key = [PREFIX_REINDEX_ROOT, prefix_end], di_cached = None\<rparr>\<rparr>"

definition reach_db_new :: "'db \<Rightarrow> cache_policy \<Rightarrow> cache_policy \<Rightarrow> (nat \<Rightarrow> nat) \<Rightarrow> 'db reach_db" where
  "reach_db_new db policy sets_policy draws = with_prefix_end db policy sets_policy SEPARATOR draws"

definition with_block_level :: "'db \<Rightarrow> cache_policy \<Rightarrow> cache_policy \<Rightarrow> byte \<Rightarrow> (nat \<Rightarrow> nat) \<Rightarrow> (reach_error, 'db reach_db) res" where
  "with_block_level db policy sets_policy level draws =
     rbind (rassert (SEPARATOR \<noteq> level)) (\<lambda>_. Inr (with_prefix_end db policy sets_policy level draws))"

text \<open>Writing a batch of the store through to the database.\<close>

definition rdb_flush :: "'db reach_env \<Rightarrow> 'db reach_db \<Rightarrow> batch \<Rightarrow> 'db reach_db" where
  "rdb_flush e s b = s\<lparr>rdb_db := kv_write (re_kv e) (rdb_db s) b\<rparr>"

definition rdb_read :: "'db reach_env \<Rightarrow> 'db reach_db \<Rightarrow> hash \<Rightarrow> (reach_error, db_reach_data) res \<times> 'db reach_db" where
  "rdb_read e s h = (case access_read (data_env e) (rdb_access s) (rdb_db s) h of
     (r, a) \<Rightarrow> (map_err key_error r, s\<lparr>rdb_access := a\<rparr>))"

definition rdb_has :: "'db reach_env \<Rightarrow> 'db reach_db \<Rightarrow> hash \<Rightarrow> bool" where
  "rdb_has e s h = access_has (data_env e) (rdb_access s) (rdb_db s) h"

definition rdb_write_data :: "'db reach_env \<Rightarrow> 'db reach_db \<Rightarrow> hash \<Rightarrow> db_reach_data \<Rightarrow> 'db reach_db" where
  "rdb_write_data e s h d = (case access_write (data_env e) (rdb_access s) [] h d of
     (a, b) \<Rightarrow> rdb_flush e (s\<lparr>rdb_access := a\<rparr>) b)"

definition rdb_init :: "'db reach_env \<Rightarrow> 'db reach_db \<Rightarrow> hash \<Rightarrow> interval \<Rightarrow> (reach_error, 'db reach_db) res" where
  "rdb_init e s origin capacity = rbind (rassert (\<not> rdb_has e s origin)) (\<lambda>_.
     case access_write (data_env e) (rdb_access s) [] origin (db_reach_data_new NONE capacity 0) of
       (a, b) \<Rightarrow> (case item_write (root_env e) (rdb_root s) b origin of
         (it, b') \<Rightarrow> Inr (rdb_flush e (s\<lparr>rdb_access := a, rdb_root := it\<rparr>) b')))"

definition rdb_insert :: "'db reach_env \<Rightarrow> 'db reach_db \<Rightarrow> hash \<Rightarrow> hash \<Rightarrow> interval \<Rightarrow> nat \<Rightarrow> (reach_error, 'db reach_db) res" where
  "rdb_insert e s h parent iv height =
     (if rdb_has e s h then Inl (Err (StoreError (HashAlreadyExists h)))
      else Inr (rdb_write_data e s h (db_reach_data_new parent iv height)))"

definition rdb_set_interval :: "'db reach_env \<Rightarrow> 'db reach_db \<Rightarrow> hash \<Rightarrow> interval \<Rightarrow> (reach_error, 'db reach_db) res" where
  "rdb_set_interval e s h iv = (case rdb_read e s h of
     (r, s') \<Rightarrow> rbind r (\<lambda>d. Inr (rdb_write_data e s' h (d\<lparr>dr_interval := iv\<rparr>))))"

definition rdb_set_parent :: "'db reach_env \<Rightarrow> 'db reach_db \<Rightarrow> hash \<Rightarrow> hash \<Rightarrow> (reach_error, 'db reach_db) res" where
  "rdb_set_parent e s h parent = (case rdb_read e s h of
     (r, s') \<Rightarrow> rbind r (\<lambda>d. Inr (rdb_write_data e s' h (d\<lparr>dr_parent := parent\<rparr>))))"

definition rdb_append_child :: "'db reach_env \<Rightarrow> 'db reach_db \<Rightarrow> hash \<Rightarrow> hash \<Rightarrow> (reach_error, 'db reach_db) res" where
  "rdb_append_child e s h child = rbind (drs_append e (rdb_children s) [] h child)
     (\<lambda>(cs, b). Inr (rdb_flush e (s\<lparr>rdb_children := cs\<rparr>) b))"

definition rdb_insert_future_covering_item ::
  "'db reach_env \<Rightarrow> 'db reach_db \<Rightarrow> hash \<Rightarrow> hash \<Rightarrow> nat \<Rightarrow> (reach_error, 'db reach_db) res" where
  "rdb_insert_future_covering_item e s h fci i = rbind (drs_insert e (rdb_fcs s) [] h fci i)
     (\<lambda>(fs, b). Inr (rdb_flush e (s\<lparr>rdb_fcs := fs\<rparr>) b))"

definition rdb_replace_child ::
  "'db reach_env \<Rightarrow> 'db reach_db \<Rightarrow> hash \<Rightarrow> hash \<Rightarrow> nat \<Rightarrow> hash list \<Rightarrow> (reach_error, 'db reach_db) res" where
  "rdb_replace_child e s h replaced i with_hashes = rbind (drs_replace e (rdb_children s) [] h replaced i with_hashes)
     (\<lambda>(cs, b). Inr (rdb_flush e (s\<lparr>rdb_children := cs\<rparr>) b))"

definition rdb_replace_future_covering_item ::
  "'db reach_env \<Rightarrow> 'db reach_db \<Rightarrow> hash \<Rightarrow> hash \<Rightarrow> nat \<Rightarrow> hash list \<Rightarrow> (reach_error, 'db reach_db) res" where
  "rdb_replace_future_covering_item e s h replaced i with_hashes = rbind (drs_replace e (rdb_fcs s) [] h replaced i with_hashes)
     (\<lambda>(fs, b). Inr (rdb_flush e (s\<lparr>rdb_fcs := fs\<rparr>) b))"

definition rdb_delete :: "'db reach_env \<Rightarrow> 'db reach_db \<Rightarrow> hash \<Rightarrow> 'db reach_db" where
  "rdb_delete e s h = (case access_delete (data_env e) (rdb_access s) [] h of
     (a, b) \<Rightarrow> rdb_flush e (s\<lparr>rdb_access := a\<rparr>) b)"

definition rdb_set_reindex_root :: "'db reach_env \<Rightarrow> 'db reach_db \<Rightarrow> hash \<Rightarrow> 'db reach_db" where
  "rdb_set_reindex_root e s h = (case item_write (root_env e) (rdb_root s) [] h of
     (it, b) \<Rightarrow> rdb_flush e (s\<lparr>rdb_root := it\<rparr>) b)"

definition rdb_get_reindex_root :: "'db reach_env \<Rightarrow> 'db reach_db \<Rightarrow> (reach_error, hash) res \<times> 'db reach_db" where
  "rdb_get_reindex_root e s = (case item_read (root_env e) (rdb_root s) (rdb_db s) of
     (r, it) \<Rightarrow> (map_err prefix_error r, s\<lparr>rdb_root := it\<rparr>))"

definition read_field :: "(db_reach_data \<Rightarrow> 'a) \<Rightarrow> (reach_error, db_reach_data) res \<Rightarrow> (reach_error, 'a) res" where
  "read_field f r = rbind r (\<lambda>d. Inr (f d))"

definition rdb_get_height :: "'db reach_env \<Rightarrow> 'db reach_db \<Rightarrow> hash \<Rightarrow> (reach_error, nat) res \<times> 'db reach_db" where
  "rdb_get_height e s h = (case rdb_read e s h of (r, s') \<Rightarrow> (read_field dr_height r, s'))"

definition rdb_get_interval :: "'db reach_env \<Rightarrow> 'db reach_db \<Rightarrow> hash \<Rightarrow> (reach_error, interval) res \<times> 'db reach_db" where
  "rdb_get_interval e s h = (case rdb_read e s h of (r, s') \<Rightarrow> (read_field dr_interval r, s'))"

definition rdb_get_parent :: "'db reach_env \<Rightarrow> 'db reach_db \<Rightarrow> hash \<Rightarrow> (reach_error, hash) res \<times> 'db reach_db" where
  "rdb_get_parent e s h = (case rdb_read e s h of (r, s') \<Rightarrow> (read_field dr_parent r, s'))"

definition rdb_get_children :: "'db reach_env \<Rightarrow> 'db reach_db \<Rightarrow> hash \<Rightarrow> (reach_error, hash list) res \<times> 'db reach_db" where
  "rdb_get_children e s h = (case drs_read e (rdb_db s) (rdb_children s) (rdb_access s) h of
     (r, cs, a) \<Rightarrow> (r, s\<lparr>rdb_children := cs, rdb_access := a\<rparr>))"

definition rdb_get_future_covering_set ::
  "'db reach_env \<Rightarrow> 'db reach_db \<Rightarrow> hash \<Rightarrow> (reach_error, hash list) res \<times> 'db reach_db" where
  "rdb_get_future_covering_set e s h = (case drs_read e (rdb_db s) (rdb_fcs s) (rdb_access s) h of
     (r, fs, a) \<Rightarrow> (r, s\<lparr>rdb_fcs := fs, rdb_access := a\<rparr>))"

definition rdb_count :: "'db reach_env \<Rightarrow> 'db reach_db \<Rightarrow> nat" where
  "rdb_count e s = length (access_iterator (data_env e) (rdb_access s) (rdb_db s))"

section \<open>\<^verbatim>\<open>StagingSetEntry\<close>\<close>

record set_entry =
  se_set :: "hash list"
  se_additions :: "hash list"
  se_deletions :: "hash list"

definition entry_new :: "hash list \<Rightarrow> set_entry" where
  "entry_new cached_set = \<lparr>se_set = cached_set, se_additions = [], se_deletions = []\<rparr>"

definition mark_addition :: "hash \<Rightarrow> set_entry \<Rightarrow> set_entry" where
  "mark_addition x en = (if x \<in> set (se_deletions en) then en\<lparr>se_deletions := removeAll x (se_deletions en)\<rparr>
     else en\<lparr>se_additions := List.insert x (se_additions en)\<rparr>)"

definition mark_deletion :: "hash \<Rightarrow> set_entry \<Rightarrow> set_entry" where
  "mark_deletion x en = (if x \<in> set (se_additions en) then en\<lparr>se_additions := removeAll x (se_additions en)\<rparr>
     else en\<lparr>se_deletions := List.insert x (se_deletions en)\<rparr>)"

definition entry_append :: "set_entry \<Rightarrow> hash \<Rightarrow> set_entry" where
  "entry_append en x = mark_addition x (en\<lparr>se_set := se_set en @ [x]\<rparr>)"

definition entry_insert :: "set_entry \<Rightarrow> hash \<Rightarrow> nat \<Rightarrow> (reach_error, set_entry) res" where
  "entry_insert en x i = rbind (rassert (i \<le> length (se_set en)))
     (\<lambda>_. Inr (mark_addition x (en\<lparr>se_set := vec_insert (se_set en) i x\<rparr>)))"

definition entry_replace :: "set_entry \<Rightarrow> hash \<Rightarrow> nat \<Rightarrow> hash list \<Rightarrow> (reach_error, set_entry) res" where
  "entry_replace en replaced i with_hashes = rbind (rassert (i < length (se_set en)))
     (\<lambda>_. Inr (fold mark_addition with_hashes (mark_deletion replaced (en\<lparr>se_set := vec_splice1 (se_set en) i with_hashes\<rparr>))))"

definition commit_staging_entry ::
  "'db reach_env \<Rightarrow> hash \<times> set_entry \<Rightarrow> db_reach_set \<times> batch \<Rightarrow> db_reach_set \<times> batch" where
  "commit_staging_entry e he sb = (case he of (h, en) \<Rightarrow> case sb of (s, b) \<Rightarrow>
     (s\<lparr>drs_cache := cache_insert (re_list_size e) (drs_cache s) h (se_set en)\<rparr>,
      fold (\<lambda>x b. set_write (set_env e) (drs_prefix s) b h x) (se_additions en)
        (fold (\<lambda>x b. set_delete (set_env e) (drs_prefix s) b h x) (se_deletions en) b)))"

section \<open>\<^verbatim>\<open>StagingReachabilityStore\<close>\<close>

record 'db staging =
  sg_store :: "'db reach_db"
  sg_writes :: "(hash \<times> db_reach_data) list"
  sg_children :: "(hash \<times> set_entry) list"
  sg_fcs :: "(hash \<times> set_entry) list"
  sg_deletions :: "hash list"
  sg_root :: "hash option"

definition staging_new :: "'db reach_db \<Rightarrow> 'db staging" where
  "staging_new s = \<lparr>sg_store = s, sg_writes = [], sg_children = [], sg_fcs = [], sg_deletions = [], sg_root = None\<rparr>"

definition delete_sets :: "'db reach_env \<Rightarrow> (db_reach_set \<times> db_reach_set) \<times> batch \<Rightarrow> hash \<Rightarrow>
    (reach_error, (db_reach_set \<times> db_reach_set) \<times> batch) res" where
  "delete_sets e csb h = (case csb of ((cs, fs), b) \<Rightarrow> rbind (drs_delete e cs b h) (\<lambda>(cs', b').
     rbind (drs_delete e fs b' h) (\<lambda>(fs', b''). Inr ((cs', fs'), b''))))"

definition staging_commit :: "'db reach_env \<Rightarrow> 'db staging \<Rightarrow> batch \<Rightarrow> (reach_error, 'db reach_db \<times> batch) res" where
  "staging_commit e sg b0 = (let st = sg_store sg;
     (a1, b1) = fold (\<lambda>(h, d) (a, b). access_write (data_env e) a b h d) (sg_writes sg) (rdb_access st, b0);
     (cs2, b2) = fold (commit_staging_entry e) (sg_children sg) (rdb_children st, b1);
     (fs3, b3) = fold (commit_staging_entry e) (sg_fcs sg) (rdb_fcs st, b2);
     (a4, b4) = access_delete_many (data_env e) a1 b3 (sg_deletions sg)
   in rbind (rfold (delete_sets e) ((cs2, fs3), b4) (sg_deletions sg)) (\<lambda>((cs5, fs5), b5).
     let (it, b6) = (case sg_root sg of None \<Rightarrow> (rdb_root st, b5) | Some r \<Rightarrow> item_write (root_env e) (rdb_root st) b5 r)
     in Inr (st\<lparr>rdb_access := a4, rdb_children := cs5, rdb_fcs := fs5, rdb_root := it\<rparr>, b6)))"

definition check_not_in_deletions :: "'db staging \<Rightarrow> hash \<Rightarrow> (reach_error, unit) res" where
  "check_not_in_deletions sg h = (if h \<in> set (sg_deletions sg) then Inl (Err (StoreError (KeyNotFound h))) else Inr ())"

definition staging_set_reindex_root :: "'db staging \<Rightarrow> hash \<Rightarrow> 'db staging" where
  "staging_set_reindex_root sg r = sg\<lparr>sg_root := Some r\<rparr>"

definition staging_insert :: "'db reach_env \<Rightarrow> 'db staging \<Rightarrow> hash \<Rightarrow> hash \<Rightarrow> interval \<Rightarrow> nat \<Rightarrow> (reach_error, 'db staging) res" where
  "staging_insert e sg h parent iv height =
     (if rdb_has e (sg_store sg) h then Inl (Err (StoreError (HashAlreadyExists h)))
      else case map_of (sg_writes sg) h of
        None \<Rightarrow> Inr (sg\<lparr>sg_writes := AList.update h (db_reach_data_new parent iv height) (sg_writes sg)\<rparr>)
      | Some _ \<Rightarrow> Inl (Err (StoreError (HashAlreadyExists h))))"

definition staging_init :: "'db reach_env \<Rightarrow> 'db staging \<Rightarrow> hash \<Rightarrow> interval \<Rightarrow> (reach_error, 'db staging) res" where
  "staging_init e sg origin capacity = rbind (staging_insert e sg origin NONE capacity 0)
     (\<lambda>sg'. Inr (staging_set_reindex_root sg' origin))"

text \<open>The common shape of \<^verbatim>\<open>set_interval\<close> and \<^verbatim>\<open>set_parent\<close>: change staged data, or read and stage it.\<close>

definition staging_update :: "'db reach_env \<Rightarrow> 'db staging \<Rightarrow> hash \<Rightarrow> (db_reach_data \<Rightarrow> db_reach_data) \<Rightarrow> (reach_error, 'db staging) res" where
  "staging_update e sg h f = (case map_of (sg_writes sg) h of
     Some d \<Rightarrow> Inr (sg\<lparr>sg_writes := AList.update h (f d) (sg_writes sg)\<rparr>)
   | None \<Rightarrow> (case rdb_read e (sg_store sg) h of
       (r, st) \<Rightarrow> rbind r (\<lambda>d. Inr (sg\<lparr>sg_store := st, sg_writes := AList.update h (f d) (sg_writes sg)\<rparr>))))"

definition staging_set_interval :: "'db reach_env \<Rightarrow> 'db staging \<Rightarrow> hash \<Rightarrow> interval \<Rightarrow> (reach_error, 'db staging) res" where
  "staging_set_interval e sg h iv = staging_update e sg h (\<lambda>d. d\<lparr>dr_interval := iv\<rparr>)"

definition staging_set_parent :: "'db reach_env \<Rightarrow> 'db staging \<Rightarrow> hash \<Rightarrow> hash \<Rightarrow> (reach_error, 'db staging) res" where
  "staging_set_parent e sg h parent = staging_update e sg h (\<lambda>d. d\<lparr>dr_parent := parent\<rparr>)"

text \<open>The entry of a set in the staging area: the staged one, or a new one over the stored set.\<close>

definition with_children_entry ::
  "'db reach_env \<Rightarrow> 'db staging \<Rightarrow> hash \<Rightarrow> (set_entry \<Rightarrow> (reach_error, set_entry) res) \<Rightarrow> (reach_error, 'db staging) res" where
  "with_children_entry e sg h f = (case map_of (sg_children sg) h of
     Some en \<Rightarrow> rbind (f en) (\<lambda>en'. Inr (sg\<lparr>sg_children := AList.update h en' (sg_children sg)\<rparr>))
   | None \<Rightarrow> (case rdb_get_children e (sg_store sg) h of
       (r, st) \<Rightarrow> rbind r (\<lambda>hs. rbind (f (entry_new hs)) (\<lambda>en'.
         Inr (sg\<lparr>sg_store := st, sg_children := AList.update h en' (sg_children sg)\<rparr>)))))"

definition with_fcs_entry ::
  "'db reach_env \<Rightarrow> 'db staging \<Rightarrow> hash \<Rightarrow> (set_entry \<Rightarrow> (reach_error, set_entry) res) \<Rightarrow> (reach_error, 'db staging) res" where
  "with_fcs_entry e sg h f = (case map_of (sg_fcs sg) h of
     Some en \<Rightarrow> rbind (f en) (\<lambda>en'. Inr (sg\<lparr>sg_fcs := AList.update h en' (sg_fcs sg)\<rparr>))
   | None \<Rightarrow> (case rdb_get_future_covering_set e (sg_store sg) h of
       (r, st) \<Rightarrow> rbind r (\<lambda>hs. rbind (f (entry_new hs)) (\<lambda>en'.
         Inr (sg\<lparr>sg_store := st, sg_fcs := AList.update h en' (sg_fcs sg)\<rparr>)))))"

definition staging_append_child :: "'db reach_env \<Rightarrow> 'db staging \<Rightarrow> hash \<Rightarrow> hash \<Rightarrow> (reach_error, 'db staging) res" where
  "staging_append_child e sg h child = with_children_entry e sg h (\<lambda>en. Inr (entry_append en child))"

definition staging_insert_future_covering_item ::
  "'db reach_env \<Rightarrow> 'db staging \<Rightarrow> hash \<Rightarrow> hash \<Rightarrow> nat \<Rightarrow> (reach_error, 'db staging) res" where
  "staging_insert_future_covering_item e sg h fci i = with_fcs_entry e sg h (\<lambda>en. entry_insert en fci i)"

definition staging_replace_child ::
  "'db reach_env \<Rightarrow> 'db staging \<Rightarrow> hash \<Rightarrow> hash \<Rightarrow> nat \<Rightarrow> hash list \<Rightarrow> (reach_error, 'db staging) res" where
  "staging_replace_child e sg h replaced i with_hashes = with_children_entry e sg h (\<lambda>en. entry_replace en replaced i with_hashes)"

definition staging_replace_future_covering_item ::
  "'db reach_env \<Rightarrow> 'db staging \<Rightarrow> hash \<Rightarrow> hash \<Rightarrow> nat \<Rightarrow> hash list \<Rightarrow> (reach_error, 'db staging) res" where
  "staging_replace_future_covering_item e sg h replaced i with_hashes =
     with_fcs_entry e sg h (\<lambda>en. entry_replace en replaced i with_hashes)"

definition staging_delete :: "'db staging \<Rightarrow> hash \<Rightarrow> 'db staging" where
  "staging_delete sg h = sg\<lparr>sg_writes := AList.delete h (sg_writes sg), sg_deletions := List.insert h (sg_deletions sg)\<rparr>"

text \<open>The common shape of the reads of staged data.\<close>

definition staging_read :: "'db reach_env \<Rightarrow> 'db staging \<Rightarrow> hash \<Rightarrow> (db_reach_data \<Rightarrow> 'a) \<Rightarrow> (reach_error, 'a) res \<times> 'db staging" where
  "staging_read e sg h f = (case check_not_in_deletions sg h of
     Inl err \<Rightarrow> (Inl err, sg)
   | Inr _ \<Rightarrow> (case map_of (sg_writes sg) h of
       Some d \<Rightarrow> (Inr (f d), sg)
     | None \<Rightarrow> (case rdb_read e (sg_store sg) h of (r, st) \<Rightarrow> (read_field f r, sg\<lparr>sg_store := st\<rparr>))))"

definition staging_get_height :: "'db reach_env \<Rightarrow> 'db staging \<Rightarrow> hash \<Rightarrow> (reach_error, nat) res \<times> 'db staging" where
  "staging_get_height e sg h = staging_read e sg h dr_height"

definition staging_get_interval :: "'db reach_env \<Rightarrow> 'db staging \<Rightarrow> hash \<Rightarrow> (reach_error, interval) res \<times> 'db staging" where
  "staging_get_interval e sg h = staging_read e sg h dr_interval"

definition staging_get_parent :: "'db reach_env \<Rightarrow> 'db staging \<Rightarrow> hash \<Rightarrow> (reach_error, hash) res \<times> 'db staging" where
  "staging_get_parent e sg h = staging_read e sg h dr_parent"

definition staging_get_reindex_root :: "'db reach_env \<Rightarrow> 'db staging \<Rightarrow> (reach_error, hash) res \<times> 'db staging" where
  "staging_get_reindex_root e sg = (case sg_root sg of
     Some r \<Rightarrow> (Inr r, sg)
   | None \<Rightarrow> (case rdb_get_reindex_root e (sg_store sg) of (r, st) \<Rightarrow> (r, sg\<lparr>sg_store := st\<rparr>)))"

definition staging_has :: "'db reach_env \<Rightarrow> 'db staging \<Rightarrow> hash \<Rightarrow> bool" where
  "staging_has e sg h = (if h \<in> set (sg_deletions sg) then False
     else map_of (sg_writes sg) h \<noteq> None \<or> rdb_has e (sg_store sg) h)"

definition staging_get_children :: "'db reach_env \<Rightarrow> 'db staging \<Rightarrow> hash \<Rightarrow> (reach_error, hash list) res \<times> 'db staging" where
  "staging_get_children e sg h = (case check_not_in_deletions sg h of
     Inl err \<Rightarrow> (Inl err, sg)
   | Inr _ \<Rightarrow> (case map_of (sg_children sg) h of
       Some en \<Rightarrow> (Inr (se_set en), sg)
     | None \<Rightarrow> (case rdb_get_children e (sg_store sg) h of (r, st) \<Rightarrow> (r, sg\<lparr>sg_store := st\<rparr>))))"

definition staging_get_future_covering_set ::
  "'db reach_env \<Rightarrow> 'db staging \<Rightarrow> hash \<Rightarrow> (reach_error, hash list) res \<times> 'db staging" where
  "staging_get_future_covering_set e sg h = (case check_not_in_deletions sg h of
     Inl err \<Rightarrow> (Inl err, sg)
   | Inr _ \<Rightarrow> (case map_of (sg_fcs sg) h of
       Some en \<Rightarrow> (Inr (se_set en), sg)
     | None \<Rightarrow> (case rdb_get_future_covering_set e (sg_store sg) h of (r, st) \<Rightarrow> (r, sg\<lparr>sg_store := st\<rparr>))))"

definition staging_count :: "'db reach_env \<Rightarrow> 'db staging \<Rightarrow> nat" where
  "staging_count e sg =
     card ((set (map (\<lambda>(k, _). hash_of_bytes k) (access_iterator (data_env e) (rdb_access (sg_store sg)) (rdb_db (sg_store sg)))) \<union>
        fst ` set (sg_writes sg)) - set (sg_deletions sg))"

end
