(* ===== verification/ReachDbRefine.thy ===== *)
theory ReachDbRefine
  imports ReachDb
begin

text \<open>
  The database-backed store and its staging layer implement the map-backed store.  The
  relation \<open>db_rel\<close> ties a database store to the abstract store, whatever the caches
  hold; \<open>stg_rel\<close> ties a staging area over it to the abstract store after the staged
  operations.  Committing and writing the batch re-establishes \<open>db_rel\<close>.
\<close>

section \<open>The parameters\<close>

lemma env_kv [simp]:
  "ae_kv (data_env e) = re_kv e" "ae_kv (set_env e) = re_kv e" "ae_kv (root_env e) = re_kv e"
  "ae_size (data_env e) = re_data_size e" "ae_key (data_env e) = hash_bytes" "ae_key (set_env e) = hash_bytes"
  "ae_ser (root_env e) = ae_ser (set_env e)"
  by (simp_all add: data_env_def set_env_def root_env_def)

lemma reach_envD:
  assumes "reach_env_ok e"
  shows "env_ok (data_env e)" "env_ok (set_env e)" "\<forall>d. ae_de (root_env e) (ae_ser (root_env e) d) = Some d" "kv_ok (re_kv e)"
  using assms
  by (auto simp: reach_env_ok_def env_ok_def data_env_def set_env_def root_env_def length_hash_bytes inj_def hash_bytes_inject)

section \<open>Reads of a set\<close>

text \<open>The list that a set of the database represents: its elements in the order of their intervals.\<close>

definition drs_ok :: "'db reach_env \<Rightarrow> db_reach_set \<Rightarrow> (bytes \<rightharpoonup> bytes) \<Rightarrow> (hash \<Rightarrow> hash list) \<Rightarrow> bool" where
  "drs_ok e s m L \<longleftrightarrow> buckets_ok (set_env e) (drs_prefix s) m \<and>
     bucket (set_env e) (drs_prefix s) m = (\<lambda>h. set (L h)) \<and>
     lossy.coherent (re_list_size e) (drs_cache s) (\<lambda>h. Some (L h))"

definition sorted_in :: "(hash \<rightharpoonup> db_reach_data) \<Rightarrow> hash list \<Rightarrow> bool" where
  "sorted_in D hs \<longleftrightarrow> set hs \<subseteq> dom D \<and> sorted_wrt (<) (map (\<lambda>h. interval_key (dr_interval (the (D h)))) hs)"

lemma sort_by_cached_key_unique:
  assumes "set xs = set l" and "distinct xs" and "sorted_wrt (<) (map (\<lambda>h. interval_key (f h)) l)"
  shows "sort_by_cached_key (map f xs) xs = l"
proof -
  let ?k = "\<lambda>h. interval_key (f h)" and ?r = "sort_by_cached_key (map f xs) xs"
  have zip: "zip (map f xs) xs = map (\<lambda>h. (f h, h)) xs" by (induction xs) simp_all
  have fst_snd: "fst p = f (snd p)" if "p \<in> set (zip (map f xs) xs)" for p using that by (auto simp: zip)
  have "sorted (map (\<lambda>p. interval_key (fst p)) (sort_key (\<lambda>p. interval_key (fst p)) (zip (map f xs) xs)))" by simp
  also have "map (\<lambda>p. interval_key (fst p)) (sort_key (\<lambda>p. interval_key (fst p)) (zip (map f xs) xs)) = map ?k ?r"
    unfolding sort_by_cached_key_def map_map by (rule map_cong) (use fst_snd in auto)
  finally have r: "sorted (map ?k ?r)" .
  have set_r: "set ?r = set xs" by (simp add: sort_by_cached_key_def zip comp_def image_image)
  have l: "sorted (map ?k l)" "distinct (map ?k l)"
    using assms(3) by (simp_all add: strict_sorted_iff)
  have inj: "inj_on ?k (set l)" using l(2) by (simp add: distinct_map)
  have "mset ?r = mset xs" by (simp add: sort_by_cached_key_def zip multiset.map_comp comp_def)
  then have "distinct ?r" using assms(2) mset_eq_imp_distinct_iff by blast
  then have "distinct (map ?k ?r)" using inj set_r assms(1) by (simp add: distinct_map)
  with r l inj set_r assms(1) show ?thesis by (intro map_sorted_distinct_set_unique [where f = ?k]) auto
qed

lemma read_intervals_ok:
  assumes "access_ok (data_env e) a m" and "m = kv_get (re_kv e) db" and "D = typed (data_env e) (ca_prefix a) m"
    and "set hs \<subseteq> dom D"
  shows "\<exists>a'. read_intervals e db hs a = (Inr (map (\<lambda>h. dr_interval (the (D h))) hs), a') \<and>
    access_ok (data_env e) a' m \<and> ca_prefix a' = ca_prefix a"
  using assms
proof (induction hs arbitrary: a)
  case (Cons h hs)
  let ?r = "access_read (data_env e) a db h"
  from Cons.prems(4) obtain d where d: "D h = Some d" by auto
  note rd = access_read_ok [OF Cons.prems(1), of db h]
  have fst: "fst ?r = Inr d" using rd(1) Cons.prems(2,3) d by simp
  have ok: "access_ok (data_env e) (snd ?r) m" "ca_prefix (snd ?r) = ca_prefix a" using rd(2,3) Cons.prems(2) by simp_all
  from Cons.IH [OF ok(1) Cons.prems(2)] Cons.prems(3,4) ok(2) obtain a' where
    "read_intervals e db hs (snd ?r) = (Inr (map (\<lambda>h. dr_interval (the (D h))) hs), a')"
    "access_ok (data_env e) a' m" "ca_prefix a' = ca_prefix a" by auto
  moreover have "?r = (Inr d, snd ?r)" using fst by (metis prod.collapse)
  ultimately show ?case using d by (auto split: prod.splits)
qed simp

lemma drs_read_ok:
  assumes env: "reach_env_ok e" and s: "drs_ok e s m L" and a: "access_ok (data_env e) a m"
    and m: "m = kv_get (re_kv e) db" and srt: "sorted_in (typed (data_env e) (ca_prefix a) m) (L h)"
  shows "\<exists>s' a'. drs_read e db s a h = (Inr (L h), s', a') \<and> drs_ok e s' m L \<and> drs_prefix s' = drs_prefix s \<and>
    access_ok (data_env e) a' m \<and> ca_prefix a' = ca_prefix a"
proof (cases "cache_get (drs_cache s) h")
  case (Some entry)
  then have "entry = L h" using s lossy.coherent_lookup unfolding drs_ok_def by fastforce
  then show ?thesis using Some s a by (simp add: drs_read_def)
next
  case None
  let ?D = "typed (data_env e) (ca_prefix a) m"
  from bucket_iterator_ok [OF reach_envD(2) [OF env], of "drs_prefix s" db h] s m
  obtain xs where xs: "bucket_iterator (set_env e) (drs_prefix s) db h = Inr xs" "distinct xs" "set xs = set (L h)"
    unfolding drs_ok_def by auto
  have "set xs \<subseteq> dom ?D" using srt xs(3) by (simp add: sorted_in_def)
  from read_intervals_ok [OF a m refl this] obtain a' where
    r: "read_intervals e db xs a = (Inr (map (\<lambda>h. dr_interval (the (?D h))) xs), a')"
      "access_ok (data_env e) a' m" "ca_prefix a' = ca_prefix a" by blast
  have sort: "sort_by_cached_key (map (\<lambda>h. dr_interval (the (?D h))) xs) xs = L h"
    using xs(2,3) srt unfolding sorted_in_def by (intro sort_by_cached_key_unique) auto
  define s' where "s' = s\<lparr>drs_cache := cache_insert (re_list_size e) (drs_cache s) h (L h)\<rparr>"
  have "drs_ok e s' m L"
    using s unfolding drs_ok_def s'_def by (auto intro: lossy.coherent_fill)
  moreover have "drs_read e db s a h = (Inr (L h), s', a')"
    using None xs(1) r(1) sort by (simp add: drs_read_def map_err_def Let_def s'_def)
  ultimately show ?thesis using r(2,3) by (simp add: s'_def)
qed

section \<open>Writes below another prefix\<close>

definition agree_off :: "bytes \<Rightarrow> (bytes \<rightharpoonup> bytes) \<Rightarrow> (bytes \<rightharpoonup> bytes) \<Rightarrow> bool" where
  "agree_off p m m' \<longleftrightarrow> (\<forall>key. \<not> prefix p key \<longrightarrow> m' key = m key)"

definition apart :: "bytes \<Rightarrow> bytes \<Rightarrow> bool" where
  "apart p q \<longleftrightarrow> length p = length q \<and> p \<noteq> q"

lemma agree_off_refl [simp]: "agree_off p m m"
  by (simp add: agree_off_def)

lemma agree_off_trans: "agree_off p m m' \<Longrightarrow> agree_off p m' m'' \<Longrightarrow> agree_off p m m''"
  by (simp add: agree_off_def)

lemma agree_off_upd [simp]: "agree_off p m (m(p @ q := x))"
  by (auto simp: agree_off_def)

lemma agree_off_restrict [simp]: "agree_off p m (m |` {key. \<not> prefix (p @ q) key})"
  by (auto simp: agree_off_def restrict_map_def prefix_def)

lemma apart_prefix: "apart p q \<Longrightarrow> prefix q key \<Longrightarrow> \<not> prefix p key"
  by (auto simp: apart_def prefix_def)

lemma agree_off_apart:
  assumes "agree_off p m m'" and "apart p q"
  shows "m' (q @ x) = m (q @ x)" "prefix q key \<Longrightarrow> m' key = m key"
  using assms apart_prefix unfolding agree_off_def by (blast intro: prefixI)+

lemma drs_ok_agree:
  assumes "agree_off p m m'" and "apart p (drs_prefix s)"
  shows "drs_ok e s m' L \<longleftrightarrow> drs_ok e s m L"
proof -
  note ag = agree_off_apart [OF assms]
  have "bucket (set_env e) (drs_prefix s) m' = bucket (set_env e) (drs_prefix s) m"
    by (simp add: bucket_def ag fun_eq_iff)
  moreover have "buckets_ok (set_env e) (drs_prefix s) m' = buckets_ok (set_env e) (drs_prefix s) m"
    unfolding buckets_ok_def using ag(2) by metis
  ultimately show ?thesis by (simp add: drs_ok_def)
qed

lemma typed_agree:
  assumes "agree_off p m m'" and "apart p q"
  shows "typed env q m' = typed env q m" "well_typed env q m' = well_typed env q m"
  using agree_off_apart(1) [OF assms] by (simp_all add: typed_def well_typed_def fun_eq_iff)

lemma access_ok_agree:
  assumes "agree_off p m m'" and "apart p (ca_prefix a)"
  shows "access_ok env a m' \<longleftrightarrow> access_ok env a m"
  by (simp add: access_ok_def typed_agree [OF assms])

lemma item_ok_agree:
  assumes "agree_off p m m'" and "apart p (di_key it)"
  shows "item_ok env it m' v \<longleftrightarrow> item_ok env it m v"
  using agree_off_apart(1) [OF assms, of "[]"] by (simp add: item_ok_def)

section \<open>The database store and the abstract store\<close>

definition strip :: "reach_data \<Rightarrow> db_reach_data" where
  "strip d = \<lparr>dr_parent = rd_parent d, dr_interval = rd_interval d, dr_height = rd_height d\<rparr>"

definition kid_lists :: "reach_store \<Rightarrow> hash \<Rightarrow> hash list" where
  "kid_lists M h = (case rs_map M h of None \<Rightarrow> [] | Some d \<Rightarrow> rd_children d)"

definition fcs_lists :: "reach_store \<Rightarrow> hash \<Rightarrow> hash list" where
  "fcs_lists M h = (case rs_map M h of None \<Rightarrow> [] | Some d \<Rightarrow> rd_fcs d)"

definition stripped :: "reach_store \<Rightarrow> hash \<rightharpoonup> db_reach_data" where
  "stripped M = (\<lambda>h. map_option strip (rs_map M h))"

definition store_sorted :: "reach_store \<Rightarrow> bool" where
  "store_sorted M \<longleftrightarrow> (\<forall>h. sorted_in (stripped M) (kid_lists M h) \<and> sorted_in (stripped M) (fcs_lists M h))"

definition prefixes_ok :: "'db reach_db \<Rightarrow> bool" where
  "prefixes_ok s \<longleftrightarrow> (\<exists>pe. ca_prefix (rdb_access s) = [15, pe] \<and> drs_prefix (rdb_children s) = [30, pe] \<and>
     drs_prefix (rdb_fcs s) = [31, pe] \<and> di_key (rdb_root s) = [16, pe])"

definition db_content :: "'db reach_env \<Rightarrow> 'db reach_db \<Rightarrow> (bytes \<rightharpoonup> bytes) \<Rightarrow> reach_store \<Rightarrow> bool" where
  "db_content e s m M \<longleftrightarrow> access_ok (data_env e) (rdb_access s) m \<and>
     typed (data_env e) (ca_prefix (rdb_access s)) m = stripped M \<and>
     drs_ok e (rdb_children s) m (kid_lists M) \<and> drs_ok e (rdb_fcs s) m (fcs_lists M) \<and>
     item_ok (root_env e) (rdb_root s) m (rs_reindex_root M) \<and> prefixes_ok s"

definition db_rel :: "'db reach_env \<Rightarrow> 'db reach_db \<Rightarrow> reach_store \<Rightarrow> bool" where
  "db_rel e s M \<longleftrightarrow> db_content e s (kv_get (re_kv e) (rdb_db s)) M \<and> store_sorted M"

lemma stripped_dom [simp]: "dom (stripped M) = blocks M"
  by (auto simp: stripped_def)

lemma rdb_read_ok:
  assumes rel: "db_rel e s M"
  shows "\<exists>s'. rdb_read e s h = (map_err key_error (case stripped M h of None \<Rightarrow> Inl (Err (KeyMissing h)) | Some d \<Rightarrow> Inr d), s') \<and>
    db_rel e s' M \<and> rdb_db s' = rdb_db s"
proof -
  let ?m = "kv_get (re_kv e) (rdb_db s)" and ?r = "access_read (data_env e) (rdb_access s) (rdb_db s) h"
  have a: "access_ok (data_env e) (rdb_access s) ?m" "typed (data_env e) (ca_prefix (rdb_access s)) ?m = stripped M"
    using rel by (simp_all add: db_rel_def db_content_def)
  note r = access_read_ok [OF a(1), of "rdb_db s" h]
  define s' where "s' = s\<lparr>rdb_access := snd ?r\<rparr>"
  have "rdb_read e s h = (map_err key_error (fst ?r), s')" by (simp add: rdb_read_def s'_def split_beta)
  moreover have "fst ?r = (case stripped M h of None \<Rightarrow> Inl (Err (KeyMissing h)) | Some d \<Rightarrow> Inr d)"
    using r(1) a(2) by simp
  moreover have "db_rel e s' M" "rdb_db s' = rdb_db s"
    using rel r(2,3) by (auto simp: db_rel_def db_content_def prefixes_ok_def s'_def)
  ultimately show ?thesis by simp
qed

lemma rdb_has_ok:
  assumes "db_rel e s M"
  shows "rdb_has e s h \<longleftrightarrow> h \<in> blocks M"
  using assms access_has_ok [of "data_env e" "rdb_access s" _ "rdb_db s" h] domIff [of h "stripped M"]
  by (simp add: db_rel_def db_content_def rdb_has_def)

lemma rdb_get_children_ok:
  assumes env: "reach_env_ok e" and rel: "db_rel e s M"
  shows "\<exists>s'. rdb_get_children e s h = (Inr (kid_lists M h), s') \<and> db_rel e s' M \<and> rdb_db s' = rdb_db s"
proof -
  have "\<exists>s' a'. drs_read e (rdb_db s) (rdb_children s) (rdb_access s) h = (Inr (kid_lists M h), s', a') \<and>
      drs_ok e s' (kv_get (re_kv e) (rdb_db s)) (kid_lists M) \<and> drs_prefix s' = drs_prefix (rdb_children s) \<and>
      access_ok (data_env e) a' (kv_get (re_kv e) (rdb_db s)) \<and> ca_prefix a' = ca_prefix (rdb_access s)"
    by (rule drs_read_ok [OF env]) (use rel in \<open>simp_all add: db_rel_def db_content_def store_sorted_def\<close>)
  then obtain cs a' where "drs_read e (rdb_db s) (rdb_children s) (rdb_access s) h = (Inr (kid_lists M h), cs, a')"
    "drs_ok e cs (kv_get (re_kv e) (rdb_db s)) (kid_lists M)" "drs_prefix cs = drs_prefix (rdb_children s)"
    "access_ok (data_env e) a' (kv_get (re_kv e) (rdb_db s))" "ca_prefix a' = ca_prefix (rdb_access s)" by blast
  then show ?thesis using rel by (auto simp: rdb_get_children_def db_rel_def db_content_def prefixes_ok_def)
qed

lemma rdb_get_future_covering_set_ok:
  assumes env: "reach_env_ok e" and rel: "db_rel e s M"
  shows "\<exists>s'. rdb_get_future_covering_set e s h = (Inr (fcs_lists M h), s') \<and> db_rel e s' M \<and> rdb_db s' = rdb_db s"
proof -
  have "\<exists>s' a'. drs_read e (rdb_db s) (rdb_fcs s) (rdb_access s) h = (Inr (fcs_lists M h), s', a') \<and>
      drs_ok e s' (kv_get (re_kv e) (rdb_db s)) (fcs_lists M) \<and> drs_prefix s' = drs_prefix (rdb_fcs s) \<and>
      access_ok (data_env e) a' (kv_get (re_kv e) (rdb_db s)) \<and> ca_prefix a' = ca_prefix (rdb_access s)"
    by (rule drs_read_ok [OF env]) (use rel in \<open>simp_all add: db_rel_def db_content_def store_sorted_def\<close>)
  then obtain fs a' where "drs_read e (rdb_db s) (rdb_fcs s) (rdb_access s) h = (Inr (fcs_lists M h), fs, a')"
    "drs_ok e fs (kv_get (re_kv e) (rdb_db s)) (fcs_lists M)" "drs_prefix fs = drs_prefix (rdb_fcs s)"
    "access_ok (data_env e) a' (kv_get (re_kv e) (rdb_db s))" "ca_prefix a' = ca_prefix (rdb_access s)" by blast
  then show ?thesis using rel by (auto simp: rdb_get_future_covering_set_def db_rel_def db_content_def prefixes_ok_def)
qed

lemma rdb_get_reindex_root_ok:
  assumes env: "reach_env_ok e" and rel: "db_rel e s M"
  shows "\<exists>s'. rdb_get_reindex_root e s = (get_reindex_root M, s') \<and> db_rel e s' M \<and> rdb_db s' = rdb_db s"
proof -
  have it: "item_ok (root_env e) (rdb_root s) (kv_get (re_kv e) (rdb_db s)) (rs_reindex_root M)"
    using rel by (simp add: db_rel_def db_content_def)
  note r = item_ops_ok [OF reach_envD(3) [OF env] it, of "rdb_db s"]
  define s' where "s' = s\<lparr>rdb_root := snd (item_read (root_env e) (rdb_root s) (rdb_db s))\<rparr>"
  have "rdb_get_reindex_root e s = (get_reindex_root M, s')"
    using r(1) by (auto simp: rdb_get_reindex_root_def s'_def split_beta get_reindex_root_def map_err_def ok_or_def split: option.splits)
  moreover have "db_rel e s' M" "rdb_db s' = rdb_db s"
    using rel r(2,3) by (auto simp: db_rel_def db_content_def prefixes_ok_def s'_def)
  ultimately show ?thesis by simp
qed

section \<open>Staged changes of a set\<close>

text \<open>The recorded additions and deletions turn the stored set \<open>B\<close> into \<open>S\<close>.\<close>

definition diff_ok :: "hash set \<Rightarrow> hash set \<Rightarrow> set_entry \<Rightarrow> bool" where
  "diff_ok B S en \<longleftrightarrow> S = B - set (se_deletions en) \<union> set (se_additions en) \<and> set (se_deletions en) \<subseteq> B \<and>
     set (se_additions en) \<inter> B = {}"

definition entry_ok :: "hash set \<Rightarrow> set_entry \<Rightarrow> bool" where
  "entry_ok B en \<longleftrightarrow> distinct (se_set en) \<and> diff_ok B (set (se_set en)) en"

lemma mark_addition_ok:
  assumes "diff_ok B S en" and "x \<notin> S"
  shows "diff_ok B (insert x S) (mark_addition x en)"
  using assms unfolding diff_ok_def mark_addition_def by auto

lemma mark_deletion_ok:
  assumes "diff_ok B S en" and "x \<in> S"
  shows "diff_ok B (S - {x}) (mark_deletion x en)"
  using assms unfolding diff_ok_def mark_deletion_def by auto

lemma mark_additions_ok:
  "diff_ok B S en \<Longrightarrow> distinct xs \<Longrightarrow> set xs \<inter> S = {} \<Longrightarrow> diff_ok B (S \<union> set xs) (fold mark_addition xs en)"
proof (induction xs arbitrary: S en)
  case (Cons x xs)
  from Cons.IH [OF mark_addition_ok [OF Cons.prems(1), of x]] Cons.prems(2,3) show ?case by simp
qed simp

lemma mark_keeps_set [simp]:
  "se_set (mark_addition x en) = se_set en" "se_set (mark_deletion x en) = se_set en"
  "se_set (fold mark_addition xs en) = se_set en"
proof -
  show "se_set (mark_addition x en) = se_set en" "se_set (mark_deletion x en) = se_set en" for x en
    by (simp_all add: mark_addition_def mark_deletion_def)
  then show "se_set (fold mark_addition xs en) = se_set en" by (induction xs arbitrary: en) simp_all
qed

lemma diff_ok_set [simp]: "diff_ok B S (en\<lparr>se_set := hs\<rparr>) = diff_ok B S en"
  by (simp add: diff_ok_def)

lemma entry_new_ok: "distinct hs \<Longrightarrow> entry_ok (set hs) (entry_new hs)"
  by (simp add: entry_ok_def diff_ok_def entry_new_def)

lemma entry_append_ok:
  assumes "entry_ok B en" and "x \<notin> set (se_set en)"
  shows "entry_ok B (entry_append en x) \<and> se_set (entry_append en x) = se_set en @ [x]"
  using assms mark_addition_ok [of B "set (se_set en)" "en\<lparr>se_set := se_set en @ [x]\<rparr>" x]
  by (simp add: entry_ok_def entry_append_def)

lemma set_vec_insert_at: "set (vec_insert xs i x) = insert x (set xs)"
  by (metis Un_insert_right append_take_drop_id list.simps(15) set_append vec_insert_def)

lemma distinct_vec_insert: "distinct xs \<Longrightarrow> x \<notin> set xs \<Longrightarrow> distinct (vec_insert xs i x)"
  using set_take_disj_set_drop_if_distinct [of xs i i]
  by (auto simp: vec_insert_def dest: in_set_takeD in_set_dropD)

lemma entry_insert_ok:
  assumes "entry_ok B en" and "x \<notin> set (se_set en)" and "i \<le> length (se_set en)"
  shows "\<exists>en'. entry_insert en x i = Inr en' \<and> entry_ok B en' \<and> se_set en' = vec_insert (se_set en) i x"
  using assms mark_addition_ok [of B "set (se_set en)" "en\<lparr>se_set := vec_insert (se_set en) i x\<rparr>" x]
  by (simp add: entry_ok_def entry_insert_def set_vec_insert_at distinct_vec_insert)

lemma vec_splice1_sets:
  assumes "distinct xs" and "i < length xs" and "distinct ys" and "set ys \<inter> (set xs - {xs ! i}) = {}"
  shows "distinct (vec_splice1 xs i ys)" "set (vec_splice1 xs i ys) = (set xs - {xs ! i}) \<union> set ys"
proof -
  have xs: "xs = take i xs @ xs ! i # drop (Suc i) xs" using assms(2) by (rule id_take_nth_drop)
  then have d: "distinct (take i xs @ xs ! i # drop (Suc i) xs)" using assms(1) by simp
  have rest: "set (take i xs) \<union> set (drop (Suc i) xs) = set xs - {xs ! i}"
    using d arg_cong [OF xs, of set] by auto
  then have "set ys \<inter> set (take i xs) = {}" "set ys \<inter> set (drop (Suc i) xs) = {}" using assms(4) by blast+
  then show "distinct (vec_splice1 xs i ys)" using d assms(3) by (auto simp: vec_splice1_def)
  show "set (vec_splice1 xs i ys) = (set xs - {xs ! i}) \<union> set ys" using rest by (auto simp: vec_splice1_def)
qed

lemma entry_replace_ok:
  assumes ok: "entry_ok B en" and i: "i < length (se_set en)" and r: "r = se_set en ! i" and ys: "distinct ys"
    and dj: "set ys \<inter> (set (se_set en) - {r}) = {}"
  shows "\<exists>en'. entry_replace en r i ys = Inr en' \<and> entry_ok B en' \<and> se_set en' = vec_splice1 (se_set en) i ys"
proof -
  let ?en = "en\<lparr>se_set := vec_splice1 (se_set en) i ys\<rparr>"
  have d: "distinct (se_set en)" and df: "diff_ok B (set (se_set en)) ?en" using ok by (simp_all add: entry_ok_def)
  have "diff_ok B (set (se_set en) - {r}) (mark_deletion r ?en)"
    by (rule mark_deletion_ok [OF df]) (use i r in simp)
  from mark_additions_ok [OF this ys dj]
  have "diff_ok B ((set (se_set en) - {r}) \<union> set ys) (fold mark_addition ys (mark_deletion r ?en))" .
  with vec_splice1_sets [OF d i ys] dj r i show ?thesis
    by (simp add: entry_replace_def entry_ok_def)
qed

definition stage_ok :: "(hash \<times> set_entry) list \<Rightarrow> (hash \<Rightarrow> hash list) \<Rightarrow> (hash \<Rightarrow> hash list) \<Rightarrow> hash set \<Rightarrow> hash set \<Rightarrow> bool" where
  "stage_ok ens L0 L alive D \<longleftrightarrow> distinct (map fst ens) \<and>
     (\<forall>h en. map_of ens h = Some en \<longrightarrow> entry_ok (set (L0 h)) en \<and> h \<in> alive \<union> D) \<and>
     (\<forall>h \<in> alive. L h = (case map_of ens h of Some en \<Rightarrow> se_set en | None \<Rightarrow> L0 h))"

lemma stage_ok_update:
  assumes "stage_ok ens L0 L alive D" and "h \<in> alive" and "entry_ok (set (L0 h)) en"
  shows "stage_ok (AList.update h en ens) L0 (L(h := se_set en)) alive D"
  using assms by (auto simp: stage_ok_def distinct_update update_conv')

lemma stage_ok_alive:
  assumes "stage_ok ens L0 L alive D" and "alive' \<union> D' \<supseteq> alive \<union> D"
    and "\<And>h. h \<in> alive' \<Longrightarrow> h \<in> alive \<and> L' h = L h \<or> map_of ens h = None \<and> L' h = L0 h"
  shows "stage_ok ens L0 L' alive' D'"
  unfolding stage_ok_def
proof (intro conjI allI ballI impI)
  show "distinct (map fst ens)" using assms(1) by (simp add: stage_ok_def)
  fix h assume "h \<in> alive'"
  from assms(3) [OF this] assms(1) show "L' h = (case map_of ens h of Some en \<Rightarrow> se_set en | None \<Rightarrow> L0 h)"
    by (auto simp: stage_ok_def)
next
  fix h en assume "map_of ens h = Some en"
  with assms(1) have "entry_ok (set (L0 h)) en" "h \<in> alive \<union> D" unfolding stage_ok_def by blast+
  with assms(2) show "entry_ok (set (L0 h)) en" "h \<in> alive' \<union> D'" by blast+
qed

section \<open>The staging area and the abstract store\<close>

definition stg_rel :: "'db reach_env \<Rightarrow> 'db staging \<Rightarrow> reach_store \<Rightarrow> reach_store \<Rightarrow> bool" where
  "stg_rel e sg M0 M \<longleftrightarrow> db_rel e (sg_store sg) M0 \<and>
     distinct (map fst (sg_writes sg)) \<and> fst ` set (sg_writes sg) \<inter> set (sg_deletions sg) = {} \<and>
     (\<forall>h. stripped M h = (if h \<in> set (sg_deletions sg) then None
        else case map_of (sg_writes sg) h of Some d \<Rightarrow> Some d | None \<Rightarrow> stripped M0 h)) \<and>
     stage_ok (sg_children sg) (kid_lists M0) (kid_lists M) (blocks M) (set (sg_deletions sg)) \<and>
     stage_ok (sg_fcs sg) (fcs_lists M0) (fcs_lists M) (blocks M) (set (sg_deletions sg)) \<and>
     rs_reindex_root M = (case sg_root sg of Some r \<Rightarrow> Some r | None \<Rightarrow> rs_reindex_root M0)"

lemma staging_new_rel: "db_rel e s M \<Longrightarrow> stg_rel e (staging_new s) M M"
  by (auto simp: stg_rel_def staging_new_def stage_ok_def)

lemma store_sorted_distinct:
  assumes "db_rel e s M"
  shows "distinct (kid_lists M h)" "distinct (fcs_lists M h)"
  using assms by (auto simp: db_rel_def store_sorted_def sorted_in_def strict_sorted_iff distinct_map)

text \<open>The views of the abstract store after an update of one block.\<close>

abbreviation put_data :: "reach_store \<Rightarrow> hash \<Rightarrow> reach_data \<Rightarrow> reach_store" where
  "put_data M h d \<equiv> M\<lparr>rs_map := (rs_map M)(h \<mapsto> d)\<rparr>"

lemma put_data_views:
  "stripped (put_data M h d) = (stripped M)(h \<mapsto> strip d)"
  "kid_lists (put_data M h d) = (kid_lists M)(h := rd_children d)"
  "fcs_lists (put_data M h d) = (fcs_lists M)(h := rd_fcs d)"
  "blocks (put_data M h d) = insert h (blocks M)"
  by (auto simp: stripped_def kid_lists_def fcs_lists_def fun_eq_iff)

lemma in_views:
  assumes "h \<in> blocks M"
  shows "stripped M h = Some (strip (the_data M h))" "kid_lists M h = kids M h" "fcs_lists M h = fcs M h"
  using assms by (auto simp: stripped_def kid_lists_def fcs_lists_def the_data_def)

lemma stg_relD:
  assumes "stg_rel e sg M0 M"
  shows "db_rel e (sg_store sg) M0"
    "h \<in> blocks M \<Longrightarrow> h \<notin> set (sg_deletions sg)"
    "h \<in> blocks M \<Longrightarrow> map_of (sg_writes sg) h = None \<Longrightarrow> h \<in> blocks M0 \<and> stripped M0 h = stripped M h"
    "map_of (sg_writes sg) h = Some d \<Longrightarrow> stripped M h = Some d"
    "h \<notin> blocks M \<Longrightarrow> h \<notin> set (sg_deletions sg) \<Longrightarrow> h \<notin> blocks M0 \<and> map_of (sg_writes sg) h = None"
proof -
  have str: "stripped M h = (if h \<in> set (sg_deletions sg) then None
        else case map_of (sg_writes sg) h of Some d \<Rightarrow> Some d | None \<Rightarrow> stripped M0 h)"
    and dj: "fst ` set (sg_writes sg) \<inter> set (sg_deletions sg) = {}" for h
    using assms by (simp_all add: stg_rel_def)
  show "db_rel e (sg_store sg) M0" using assms by (simp add: stg_rel_def)
  show "h \<notin> set (sg_deletions sg)" if "h \<in> blocks M" using str [of h] that in_views(1) [OF that] by (auto split: if_splits)
  show "h \<in> blocks M0 \<and> stripped M0 h = stripped M h" if "h \<in> blocks M" "map_of (sg_writes sg) h = None"
  proof -
    have "stripped M0 h = stripped M h" using str [of h] that(2) in_views(1) [OF that(1)] by (auto split: if_splits)
    moreover from this have "h \<in> dom (stripped M0)" using in_views(1) [OF that(1)] by (metis domI)
    ultimately show ?thesis unfolding stripped_dom by blast
  qed
  show "stripped M h = Some d" if "map_of (sg_writes sg) h = Some d"
  proof -
    have "h \<in> fst ` set (sg_writes sg)" using that by (metis domI dom_map_of_conv_image_fst)
    then show ?thesis using str [of h] dj that by auto
  qed
  show "h \<notin> blocks M0 \<and> map_of (sg_writes sg) h = None" if "h \<notin> blocks M" "h \<notin> set (sg_deletions sg)"
    using str [of h] that by (auto simp: stripped_def split: option.splits)
qed

lemma stg_rel_store:
  assumes "stg_rel e sg M0 M" and "db_rel e st M0"
  shows "stg_rel e (sg\<lparr>sg_store := st\<rparr>) M0 M"
  using assms by (simp add: stg_rel_def)

lemma staging_write_rel:
  assumes rel: "stg_rel e sg M0 M" and h: "h \<in> blocks M" and d': "strip d' = f (strip (the_data M h))"
    and same: "rd_children d' = kids M h" "rd_fcs d' = fcs M h"
  shows "\<exists>sg'. staging_update e sg h f = Inr sg' \<and> stg_rel e sg' M0 (put_data M h d') \<and> sg_deletions sg' = sg_deletions sg"
proof -
  obtain st d where st: "db_rel e st M0" "d = strip (the_data M h)"
    "staging_update e sg h f = Inr (sg\<lparr>sg_store := st, sg_writes := AList.update h (f d) (sg_writes sg)\<rparr>)"
  proof (cases "map_of (sg_writes sg) h")
    case (Some d)
    then have "d = strip (the_data M h)" using stg_relD(4) [OF rel Some] in_views(1) [OF h] by simp
    then show ?thesis using that [of "sg_store sg" d] Some stg_relD(1) [OF rel] by (simp add: staging_update_def)
  next
    case None
    from stg_relD(3) [OF rel h None] in_views(1) [OF h] have "stripped M0 h = Some (strip (the_data M h))" by simp
    with rdb_read_ok [OF stg_relD(1) [OF rel], of h] obtain st where
      "rdb_read e (sg_store sg) h = (Inr (strip (the_data M h)), st)" "db_rel e st M0" by (auto simp: map_err_def)
    then show ?thesis using that [of st] None by (simp add: staging_update_def)
  qed
  define sg' where "sg' = sg\<lparr>sg_store := st, sg_writes := AList.update h (f d) (sg_writes sg)\<rparr>"
  have lists: "(kid_lists M)(h := rd_children d') = kid_lists M" "(fcs_lists M)(h := rd_fcs d') = fcs_lists M"
    using same in_views(2,3) [OF h] by auto
  have ins: "insert h (blocks M) = blocks M" using h by blast
  have "stg_rel e sg' M0 (put_data M h d')"
    unfolding stg_rel_def put_data_views lists ins
  proof (intro conjI)
    show "distinct (map fst (sg_writes sg'))" using rel by (simp add: stg_rel_def sg'_def distinct_update)
    show "fst ` set (sg_writes sg') \<inter> set (sg_deletions sg') = {}"
      using rel stg_relD(2) [OF rel h] by (auto simp: stg_rel_def sg'_def dom_update)
    show "\<forall>x. ((stripped M)(h \<mapsto> strip d')) x = (if x \<in> set (sg_deletions sg') then None
        else case map_of (sg_writes sg') x of Some d \<Rightarrow> Some d | None \<Rightarrow> stripped M0 x)"
      using rel stg_relD(2) [OF rel h] d' st(2) by (auto simp: stg_rel_def sg'_def update_conv')
  qed (use rel st(1) in \<open>simp_all add: stg_rel_def sg'_def\<close>)
  then show ?thesis using st(3) by (auto simp: sg'_def)
qed

lemma staging_children_rel:
  assumes env: "reach_env_ok e" and rel: "stg_rel e sg M0 M" and h: "h \<in> blocks M"
    and f: "\<And>en. entry_ok (set (kid_lists M0 h)) en \<Longrightarrow> se_set en = kids M h \<Longrightarrow>
      \<exists>en'. f en = Inr en' \<and> entry_ok (set (kid_lists M0 h)) en' \<and> se_set en' = hs"
  shows "\<exists>sg'. with_children_entry e sg h f = Inr sg' \<and> stg_rel e sg' M0 (put_data M h ((the_data M h)\<lparr>rd_children := hs\<rparr>)) \<and>
    sg_deletions sg' = sg_deletions sg"
proof -
  let ?L0 = "kid_lists M0"
  have stage: "stage_ok (sg_children sg) ?L0 (kid_lists M) (blocks M) (set (sg_deletions sg))" using rel by (simp add: stg_rel_def)
  obtain st en' where st: "db_rel e st M0" "entry_ok (set (?L0 h)) en'" "se_set en' = hs"
    "with_children_entry e sg h f = Inr (sg\<lparr>sg_store := st, sg_children := AList.update h en' (sg_children sg)\<rparr>)"
  proof (cases "map_of (sg_children sg) h")
    case (Some en)
    then have "entry_ok (set (?L0 h)) en" "se_set en = kids M h"
      using stage h in_views(2) [OF h] by (auto simp: stage_ok_def)
    with f obtain en' where "f en = Inr en'" "entry_ok (set (?L0 h)) en'" "se_set en' = hs" by blast
    then show ?thesis using that [of "sg_store sg" en'] Some stg_relD(1) [OF rel] by (simp add: with_children_entry_def)
  next
    case None
    then have "se_set (entry_new (?L0 h)) = kids M h" using stage h in_views(2) [OF h] by (auto simp: stage_ok_def entry_new_def)
    from f [OF entry_new_ok [OF store_sorted_distinct(1) [OF stg_relD(1) [OF rel]]] this]
    obtain en' where "f (entry_new (?L0 h)) = Inr en'" "entry_ok (set (?L0 h)) en'" "se_set en' = hs" by blast
    moreover obtain st where "rdb_get_children e (sg_store sg) h = (Inr (?L0 h), st)" "db_rel e st M0"
      using rdb_get_children_ok [OF env stg_relD(1) [OF rel]] by blast
    ultimately show ?thesis using that [of st en'] None by (simp add: with_children_entry_def)
  qed
  let ?d = "(the_data M h)\<lparr>rd_children := hs\<rparr>"
  have views: "(stripped M)(h \<mapsto> strip ?d) = stripped M" "(fcs_lists M)(h := rd_fcs ?d) = fcs_lists M" "insert h (blocks M) = blocks M"
    using in_views [OF h] h by (auto simp: strip_def fun_eq_iff)
  have "stg_rel e (sg\<lparr>sg_store := st, sg_children := AList.update h en' (sg_children sg)\<rparr>) M0 (put_data M h ?d)"
    using rel st(1,3) stage_ok_update [OF stage h st(2)] unfolding stg_rel_def put_data_views views by simp
  then show ?thesis using st(4) by auto
qed

lemma staging_fcs_rel:
  assumes env: "reach_env_ok e" and rel: "stg_rel e sg M0 M" and h: "h \<in> blocks M"
    and f: "\<And>en. entry_ok (set (fcs_lists M0 h)) en \<Longrightarrow> se_set en = fcs M h \<Longrightarrow>
      \<exists>en'. f en = Inr en' \<and> entry_ok (set (fcs_lists M0 h)) en' \<and> se_set en' = hs"
  shows "\<exists>sg'. with_fcs_entry e sg h f = Inr sg' \<and> stg_rel e sg' M0 (put_data M h ((the_data M h)\<lparr>rd_fcs := hs\<rparr>)) \<and>
    sg_deletions sg' = sg_deletions sg"
proof -
  let ?L0 = "fcs_lists M0"
  have stage: "stage_ok (sg_fcs sg) ?L0 (fcs_lists M) (blocks M) (set (sg_deletions sg))" using rel by (simp add: stg_rel_def)
  obtain st en' where st: "db_rel e st M0" "entry_ok (set (?L0 h)) en'" "se_set en' = hs"
    "with_fcs_entry e sg h f = Inr (sg\<lparr>sg_store := st, sg_fcs := AList.update h en' (sg_fcs sg)\<rparr>)"
  proof (cases "map_of (sg_fcs sg) h")
    case (Some en)
    then have "entry_ok (set (?L0 h)) en" "se_set en = fcs M h"
      using stage h in_views(3) [OF h] by (auto simp: stage_ok_def)
    with f obtain en' where "f en = Inr en'" "entry_ok (set (?L0 h)) en'" "se_set en' = hs" by blast
    then show ?thesis using that [of "sg_store sg" en'] Some stg_relD(1) [OF rel] by (simp add: with_fcs_entry_def)
  next
    case None
    then have "se_set (entry_new (?L0 h)) = fcs M h" using stage h in_views(3) [OF h] by (auto simp: stage_ok_def entry_new_def)
    from f [OF entry_new_ok [OF store_sorted_distinct(2) [OF stg_relD(1) [OF rel]]] this]
    obtain en' where "f (entry_new (?L0 h)) = Inr en'" "entry_ok (set (?L0 h)) en'" "se_set en' = hs" by blast
    moreover obtain st where "rdb_get_future_covering_set e (sg_store sg) h = (Inr (?L0 h), st)" "db_rel e st M0"
      using rdb_get_future_covering_set_ok [OF env stg_relD(1) [OF rel]] by blast
    ultimately show ?thesis using that [of st en'] None by (simp add: with_fcs_entry_def)
  qed
  let ?d = "(the_data M h)\<lparr>rd_fcs := hs\<rparr>"
  have views: "(stripped M)(h \<mapsto> strip ?d) = stripped M" "(kid_lists M)(h := rd_children ?d) = kid_lists M" "insert h (blocks M) = blocks M"
    using in_views [OF h] h by (auto simp: strip_def fun_eq_iff)
  have "stg_rel e (sg\<lparr>sg_store := st, sg_fcs := AList.update h en' (sg_fcs sg)\<rparr>) M0 (put_data M h ?d)"
    using rel st(1,3) stage_ok_update [OF stage h st(2)] unfolding stg_rel_def put_data_views views by simp
  then show ?thesis using st(4) by auto
qed

lemma staging_insert_rel:
  assumes rel: "stg_rel e sg M0 M" and h: "h \<notin> blocks M" "h \<notin> set (sg_deletions sg)"
  shows "\<exists>sg'. staging_insert e sg h parent iv height = Inr sg' \<and>
    stg_rel e sg' M0 (put_data M h (reach_data_new parent iv height)) \<and> sg_deletions sg' = sg_deletions sg"
proof -
  note fresh = stg_relD(5) [OF rel h]
  let ?d = "reach_data_new parent iv height"
  define sg' where "sg' = sg\<lparr>sg_writes := AList.update h (db_reach_data_new parent iv height) (sg_writes sg)\<rparr>"
  have run: "staging_insert e sg h parent iv height = Inr sg'"
    using fresh rdb_has_ok [OF stg_relD(1) [OF rel], of h] by (simp add: staging_insert_def sg'_def)
  have stale: "map_of (sg_children sg) h = None" "map_of (sg_fcs sg) h = None"
    using rel h unfolding stg_rel_def stage_ok_def by (meson UnE not_None_eq)+
  have L0: "kid_lists M0 h = []" "fcs_lists M0 h = []" using fresh by (auto simp: kid_lists_def fcs_lists_def domIff)
  have strip: "strip ?d = db_reach_data_new parent iv height" by (simp add: strip_def reach_data_new_def db_reach_data_new_def)
  have "stg_rel e sg' M0 (put_data M h ?d)"
    unfolding stg_rel_def put_data_views
  proof (intro conjI)
    show "distinct (map fst (sg_writes sg'))" using rel by (simp add: stg_rel_def sg'_def distinct_update)
    show "fst ` set (sg_writes sg') \<inter> set (sg_deletions sg') = {}"
      using rel h(2) by (auto simp: stg_rel_def sg'_def dom_update)
    show "\<forall>x. ((stripped M)(h \<mapsto> strip ?d)) x = (if x \<in> set (sg_deletions sg') then None
        else case map_of (sg_writes sg') x of Some d \<Rightarrow> Some d | None \<Rightarrow> stripped M0 x)"
      using rel h(2) strip by (auto simp: stg_rel_def sg'_def update_conv')
    show "stage_ok (sg_children sg') (kid_lists M0) ((kid_lists M)(h := rd_children ?d)) (insert h (blocks M)) (set (sg_deletions sg'))"
      by (rule stage_ok_alive [where L = "kid_lists M" and alive = "blocks M" and D = "set (sg_deletions sg)"])
        (use rel stale L0 h in \<open>auto simp: stg_rel_def sg'_def reach_data_new_def\<close>)
    show "stage_ok (sg_fcs sg') (fcs_lists M0) ((fcs_lists M)(h := rd_fcs ?d)) (insert h (blocks M)) (set (sg_deletions sg'))"
      by (rule stage_ok_alive [where L = "fcs_lists M" and alive = "blocks M" and D = "set (sg_deletions sg)"])
        (use rel stale L0 h in \<open>auto simp: stg_rel_def sg'_def reach_data_new_def\<close>)
  qed (use rel in \<open>simp_all add: stg_rel_def sg'_def\<close>)
  with run show ?thesis by (auto simp: sg'_def)
qed

lemma staging_delete_rel:
  assumes rel: "stg_rel e sg M0 M"
  shows "stg_rel e (staging_delete sg h) M0 (store_delete M h) \<and> set (sg_deletions (staging_delete sg h)) = insert h (set (sg_deletions sg))"
proof -
  define sg' where "sg' = staging_delete sg h"
  have views: "stripped (store_delete M h) = (stripped M)(h := None)" "blocks (store_delete M h) = blocks M - {h}"
    "\<And>x. x \<noteq> h \<Longrightarrow> kid_lists (store_delete M h) x = kid_lists M x" "\<And>x. x \<noteq> h \<Longrightarrow> fcs_lists (store_delete M h) x = fcs_lists M x"
    "rs_reindex_root (store_delete M h) = rs_reindex_root M"
    by (auto simp: store_delete_def stripped_def kid_lists_def fcs_lists_def fun_eq_iff)
  have del: "set (sg_deletions sg') = insert h (set (sg_deletions sg))" by (simp add: sg'_def staging_delete_def)
  have "stg_rel e sg' M0 (store_delete M h)"
    unfolding stg_rel_def views(1,2,5)
  proof (intro conjI)
    show "distinct (map fst (sg_writes sg'))" using rel by (simp add: stg_rel_def sg'_def staging_delete_def distinct_delete)
    show "fst ` set (sg_writes sg') \<inter> set (sg_deletions sg') = {}"
      using rel unfolding del by (auto simp: stg_rel_def sg'_def staging_delete_def dom_map_of_conv_image_fst [symmetric] delete_conv' split: if_splits)
    show "\<forall>x. ((stripped M)(h := None)) x = (if x \<in> set (sg_deletions sg') then None
        else case map_of (sg_writes sg') x of Some d \<Rightarrow> Some d | None \<Rightarrow> stripped M0 x)"
      using rel unfolding del by (auto simp: stg_rel_def sg'_def staging_delete_def delete_conv')
    show "stage_ok (sg_children sg') (kid_lists M0) (kid_lists (store_delete M h)) (blocks M - {h}) (set (sg_deletions sg'))"
      by (rule stage_ok_alive [where L = "kid_lists M" and alive = "blocks M" and D = "set (sg_deletions sg)"])
        (use rel views(3) del in \<open>auto simp: stg_rel_def sg'_def staging_delete_def\<close>)
    show "stage_ok (sg_fcs sg') (fcs_lists M0) (fcs_lists (store_delete M h)) (blocks M - {h}) (set (sg_deletions sg'))"
      by (rule stage_ok_alive [where L = "fcs_lists M" and alive = "blocks M" and D = "set (sg_deletions sg)"])
        (use rel views(4) del in \<open>auto simp: stg_rel_def sg'_def staging_delete_def\<close>)
  qed (use rel in \<open>simp_all add: stg_rel_def sg'_def staging_delete_def\<close>)
  then show ?thesis using del by (simp add: sg'_def)
qed

section \<open>Simulation of the store operations\<close>

text \<open>The write operations of the trait \<^verbatim>\<open>ReachabilityStore\<close>.\<close>

datatype store_op = StInsert hash hash interval nat | StSetInterval hash interval | StAppendChild hash hash
  | StInsertFci hash hash nat | StSetParent hash hash | StReplaceChild hash hash nat "hash list"
  | StReplaceFci hash hash nat "hash list" | StDelete hash | StSetRoot hash

fun mem_step :: "reach_store \<Rightarrow> store_op \<Rightarrow> (reach_error, reach_store) res" where
  "mem_step M (StInsert h p iv n) = store_insert M h p iv n"
| "mem_step M (StSetInterval h iv) = set_interval M h iv"
| "mem_step M (StAppendChild h c) = append_child M h c"
| "mem_step M (StInsertFci h c i) = insert_future_covering_item M h c i"
| "mem_step M (StSetParent h p) = set_parent M h p"
| "mem_step M (StReplaceChild h r i hs) = replace_child M h i hs"
| "mem_step M (StReplaceFci h r i hs) = replace_future_covering_item M h i hs"
| "mem_step M (StDelete h) = Inr (store_delete M h)"
| "mem_step M (StSetRoot h) = Inr (set_reindex_root M h)"

fun staging_step :: "'db reach_env \<Rightarrow> 'db staging \<Rightarrow> store_op \<Rightarrow> (reach_error, 'db staging) res" where
  "staging_step e sg (StInsert h p iv n) = staging_insert e sg h p iv n"
| "staging_step e sg (StSetInterval h iv) = staging_set_interval e sg h iv"
| "staging_step e sg (StAppendChild h c) = staging_append_child e sg h c"
| "staging_step e sg (StInsertFci h c i) = staging_insert_future_covering_item e sg h c i"
| "staging_step e sg (StSetParent h p) = staging_set_parent e sg h p"
| "staging_step e sg (StReplaceChild h r i hs) = staging_replace_child e sg h r i hs"
| "staging_step e sg (StReplaceFci h r i hs) = staging_replace_future_covering_item e sg h r i hs"
| "staging_step e sg (StDelete h) = Inr (staging_delete sg h)"
| "staging_step e sg (StSetRoot h) = Inr (staging_set_reindex_root sg h)"

text \<open>
  How the reachability service calls them: on stored blocks, without adding an
  element twice to a set, replacing the element at the given position, and never
  inserting a block again that was deleted before (the comment in \<^verbatim>\<open>insert\<close>).
\<close>

fun op_legal :: "reach_store \<Rightarrow> hash set \<Rightarrow> store_op \<Rightarrow> bool" where
  "op_legal M D (StInsert h p iv n) \<longleftrightarrow> rs_map M h = None \<and> h \<notin> D"
| "op_legal M D (StSetInterval h iv) \<longleftrightarrow> rs_map M h \<noteq> None"
| "op_legal M D (StAppendChild h c) \<longleftrightarrow> rs_map M h \<noteq> None \<and> c \<notin> set (kids M h)"
| "op_legal M D (StInsertFci h c i) \<longleftrightarrow> rs_map M h \<noteq> None \<and> c \<notin> set (fcs M h) \<and> i \<le> length (fcs M h)"
| "op_legal M D (StSetParent h p) \<longleftrightarrow> rs_map M h \<noteq> None"
| "op_legal M D (StReplaceChild h r i hs) \<longleftrightarrow> rs_map M h \<noteq> None \<and> i < length (kids M h) \<and> r = kids M h ! i \<and> distinct hs \<and>
     set hs \<inter> (set (kids M h) - {r}) = {}"
| "op_legal M D (StReplaceFci h r i hs) \<longleftrightarrow> rs_map M h \<noteq> None \<and> i < length (fcs M h) \<and> r = fcs M h ! i \<and> distinct hs \<and>
     set hs \<inter> (set (fcs M h) - {r}) = {}"
| "op_legal M D (StDelete h) \<longleftrightarrow> True"
| "op_legal M D (StSetRoot h) \<longleftrightarrow> True"

fun op_deletes :: "store_op \<Rightarrow> hash set" where
  "op_deletes (StDelete h) = {h}"
| "op_deletes _ = {}"

lemma mem_update: "rs_map M h \<noteq> None \<Longrightarrow> update_data M h f = Inr (put_data M h (f (the_data M h)))"
  by (simp add: update_data_in domIff)

lemma rd_update_value:
  "rd_children_update f d = d\<lparr>rd_children := f (rd_children d)\<rparr>" "rd_fcs_update f d = d\<lparr>rd_fcs := f (rd_fcs d)\<rparr>"
  by (cases d, simp)+

lemma staging_step_simulates:
  assumes env: "reach_env_ok e" and rel: "stg_rel e sg M0 M" and legal: "op_legal M (set (sg_deletions sg)) oper"
  shows "\<exists>sg' M'. staging_step e sg oper = Inr sg' \<and> mem_step M oper = Inr M' \<and> stg_rel e sg' M0 M' \<and>
    set (sg_deletions sg') = op_deletes oper \<union> set (sg_deletions sg)"
proof (cases oper)
  case (StInsert h p iv n)
  then have "h \<notin> blocks M" "h \<notin> set (sg_deletions sg)" using legal by (auto simp: domIff)
  from staging_insert_rel [OF rel this, of p iv n] show ?thesis using legal by (auto simp: StInsert store_insert_def)
next
  case (StSetInterval h iv)
  then have h: "rs_map M h \<noteq> None" using legal by simp
  have b: "h \<in> blocks M" using h by blast
  from staging_write_rel [OF rel b, of "(the_data M h)\<lparr>rd_interval := iv\<rparr>" "\<lambda>d. d\<lparr>dr_interval := iv\<rparr>"] h show ?thesis
    by (auto simp: StSetInterval staging_set_interval_def set_interval_def mem_update strip_def)
next
  case (StAppendChild h c)
  then have h: "rs_map M h \<noteq> None" and c: "c \<notin> set (kids M h)" using legal by simp_all
  have "h \<in> blocks M" using h by blast
  from staging_children_rel [OF env rel this, of "\<lambda>en. Inr (entry_append en c)" "kids M h @ [c]"] entry_append_ok c h
  show ?thesis by (auto simp: StAppendChild staging_append_child_def append_child_def mem_update rd_update_value(1) [of "\<lambda>cs. cs @ [c]"])
next
  case (StInsertFci h c i)
  then have h: "rs_map M h \<noteq> None" and c: "c \<notin> set (fcs M h)" "i \<le> length (fcs M h)" using legal by simp_all
  have b: "h \<in> blocks M" using h by blast
  have upd: "\<exists>en'. entry_insert en c i = Inr en' \<and> entry_ok (set (fcs_lists M0 h)) en' \<and> se_set en' = vec_insert (fcs M h) i c"
    if "entry_ok (set (fcs_lists M0 h)) en" "se_set en = fcs M h" for en
    using entry_insert_ok [OF that(1), of c i] that(2) c by simp
  have "\<exists>sg'. with_fcs_entry e sg h (\<lambda>en. entry_insert en c i) = Inr sg' \<and>
      stg_rel e sg' M0 (put_data M h ((the_data M h)\<lparr>rd_fcs := vec_insert (fcs M h) i c\<rparr>)) \<and> sg_deletions sg' = sg_deletions sg"
    by (rule staging_fcs_rel [OF env rel b]) (rule upd)
  then show ?thesis using b h c(2)
    by (auto simp: StInsertFci staging_insert_future_covering_item_def insert_future_covering_item_def mem_update
        rd_update_value(2) [of "\<lambda>fs. vec_insert fs i c"])
next
  case (StSetParent h p)
  then have h: "rs_map M h \<noteq> None" using legal by simp
  have b: "h \<in> blocks M" using h by blast
  from staging_write_rel [OF rel b, of "(the_data M h)\<lparr>rd_parent := p\<rparr>" "\<lambda>d. d\<lparr>dr_parent := p\<rparr>"] h show ?thesis
    by (auto simp: StSetParent staging_set_parent_def set_parent_def mem_update strip_def)
next
  case (StReplaceChild h r i hs)
  have h: "rs_map M h \<noteq> None" and c: "i < length (kids M h)" "r = kids M h ! i" "distinct hs"
      "set hs \<inter> (set (kids M h) - {r}) = {}" using legal unfolding StReplaceChild op_legal.simps by blast+
  have b: "h \<in> blocks M" using h by blast
  have upd: "\<exists>en'. entry_replace en r i hs = Inr en' \<and> entry_ok (set (kid_lists M0 h)) en' \<and> se_set en' = vec_splice1 (kids M h) i hs"
    if "entry_ok (set (kid_lists M0 h)) en" "se_set en = kids M h" for en
    using entry_replace_ok [OF that(1), of i r hs] that(2) c by simp
  have "\<exists>sg'. with_children_entry e sg h (\<lambda>en. entry_replace en r i hs) = Inr sg' \<and>
      stg_rel e sg' M0 (put_data M h ((the_data M h)\<lparr>rd_children := vec_splice1 (kids M h) i hs\<rparr>)) \<and> sg_deletions sg' = sg_deletions sg"
    by (rule staging_children_rel [OF env rel b]) (rule upd)
  then show ?thesis using b h c(1)
    by (auto simp: StReplaceChild staging_replace_child_def replace_child_def mem_update
        rd_update_value(1) [of "\<lambda>cs. vec_splice1 cs i hs"])
next
  case (StReplaceFci h r i hs)
  have h: "rs_map M h \<noteq> None" and c: "i < length (fcs M h)" "r = fcs M h ! i" "distinct hs"
      "set hs \<inter> (set (fcs M h) - {r}) = {}" using legal unfolding StReplaceFci op_legal.simps by blast+
  have b: "h \<in> blocks M" using h by blast
  have upd: "\<exists>en'. entry_replace en r i hs = Inr en' \<and> entry_ok (set (fcs_lists M0 h)) en' \<and> se_set en' = vec_splice1 (fcs M h) i hs"
    if "entry_ok (set (fcs_lists M0 h)) en" "se_set en = fcs M h" for en
    using entry_replace_ok [OF that(1), of i r hs] that(2) c by simp
  have "\<exists>sg'. with_fcs_entry e sg h (\<lambda>en. entry_replace en r i hs) = Inr sg' \<and>
      stg_rel e sg' M0 (put_data M h ((the_data M h)\<lparr>rd_fcs := vec_splice1 (fcs M h) i hs\<rparr>)) \<and> sg_deletions sg' = sg_deletions sg"
    by (rule staging_fcs_rel [OF env rel b]) (rule upd)
  then show ?thesis using b h c(1)
    by (auto simp: StReplaceFci staging_replace_future_covering_item_def replace_future_covering_item_def mem_update
        rd_update_value(2) [of "\<lambda>fs. vec_splice1 fs i hs"])
next
  case (StDelete h)
  then show ?thesis using staging_delete_rel [OF rel, of h] by simp
next
  case (StSetRoot h)
  let ?M = "M\<lparr>rs_reindex_root := Some h\<rparr>"
  have "stripped ?M = stripped M" "kid_lists ?M = kid_lists M" "fcs_lists ?M = fcs_lists M"
    by (simp_all add: stripped_def kid_lists_def fcs_lists_def fun_eq_iff)
  then have "stg_rel e (staging_set_reindex_root sg h) M0 (set_reindex_root M h)"
    using rel by (simp add: stg_rel_def staging_set_reindex_root_def set_reindex_root_def)
  then show ?thesis by (simp add: StSetRoot staging_set_reindex_root_def)
qed

section \<open>Committing\<close>

text \<open>The content of a database store, component by component.\<close>

definition content :: "'db reach_env \<Rightarrow> 'db reach_db \<Rightarrow> (bytes \<rightharpoonup> bytes) \<Rightarrow> (hash \<rightharpoonup> db_reach_data) \<Rightarrow> (hash \<Rightarrow> hash list) \<Rightarrow>
    (hash \<Rightarrow> hash list) \<Rightarrow> hash option \<Rightarrow> bool" where
  "content e s m D K F R \<longleftrightarrow> access_ok (data_env e) (rdb_access s) m \<and> typed (data_env e) (ca_prefix (rdb_access s)) m = D \<and>
     drs_ok e (rdb_children s) m K \<and> drs_ok e (rdb_fcs s) m F \<and> item_ok (root_env e) (rdb_root s) m R \<and> prefixes_ok s"

lemma db_content_iff: "db_content e s m M \<longleftrightarrow> content e s m (stripped M) (kid_lists M) (fcs_lists M) (rs_reindex_root M)"
  by (simp add: db_content_def content_def)

lemma prefixes_apart:
  assumes "prefixes_ok s"
  shows "apart (ca_prefix (rdb_access s)) (drs_prefix (rdb_children s))" "apart (ca_prefix (rdb_access s)) (drs_prefix (rdb_fcs s))"
    "apart (ca_prefix (rdb_access s)) (di_key (rdb_root s))"
    "apart (drs_prefix (rdb_children s)) (ca_prefix (rdb_access s))" "apart (drs_prefix (rdb_children s)) (drs_prefix (rdb_fcs s))"
    "apart (drs_prefix (rdb_children s)) (di_key (rdb_root s))"
    "apart (drs_prefix (rdb_fcs s)) (ca_prefix (rdb_access s))" "apart (drs_prefix (rdb_fcs s)) (drs_prefix (rdb_children s))"
    "apart (drs_prefix (rdb_fcs s)) (di_key (rdb_root s))"
    "apart (di_key (rdb_root s)) (ca_prefix (rdb_access s))" "apart (di_key (rdb_root s)) (drs_prefix (rdb_children s))"
    "apart (di_key (rdb_root s)) (drs_prefix (rdb_fcs s))"
  using assms by (auto simp: prefixes_ok_def apart_def)

lemma content_access:
  assumes c: "content e s m D K F R" and a: "access_ok (data_env e) a' m'" "ca_prefix a' = ca_prefix (rdb_access s)"
    and ag: "agree_off (ca_prefix (rdb_access s)) m m'" and D': "typed (data_env e) (ca_prefix (rdb_access s)) m' = D'"
  shows "content e (s\<lparr>rdb_access := a'\<rparr>) m' D' K F R"
proof -
  have p: "prefixes_ok s" using c by (simp add: content_def)
  note ap = prefixes_apart [OF p]
  show ?thesis using c a D' p
    by (auto simp: content_def drs_ok_agree [OF ag ap(1)] drs_ok_agree [OF ag ap(2)] item_ok_agree [OF ag ap(3)] prefixes_ok_def)
qed

lemma content_children:
  assumes c: "content e s m D K F R" and k: "drs_ok e cs m' K'" "drs_prefix cs = drs_prefix (rdb_children s)"
    and ag: "agree_off (drs_prefix (rdb_children s)) m m'"
  shows "content e (s\<lparr>rdb_children := cs\<rparr>) m' D K' F R"
proof -
  have p: "prefixes_ok s" using c by (simp add: content_def)
  note ap = prefixes_apart [OF p]
  show ?thesis using c k p
    by (auto simp: content_def access_ok_agree [OF ag ap(4)] typed_agree [OF ag ap(4)] drs_ok_agree [OF ag ap(5)]
        item_ok_agree [OF ag ap(6)] prefixes_ok_def)
qed

lemma content_fcs:
  assumes c: "content e s m D K F R" and k: "drs_ok e fs m' F'" "drs_prefix fs = drs_prefix (rdb_fcs s)"
    and ag: "agree_off (drs_prefix (rdb_fcs s)) m m'"
  shows "content e (s\<lparr>rdb_fcs := fs\<rparr>) m' D K F' R"
proof -
  have p: "prefixes_ok s" using c by (simp add: content_def)
  note ap = prefixes_apart [OF p]
  show ?thesis using c k p
    by (auto simp: content_def access_ok_agree [OF ag ap(7)] typed_agree [OF ag ap(7)] drs_ok_agree [OF ag ap(8)]
        item_ok_agree [OF ag ap(9)] prefixes_ok_def)
qed

lemma content_root:
  assumes c: "content e s (pending kv db b) D K F R" and w: "item_write (root_env e) (rdb_root s) b r = (it, b')"
  shows "content e (s\<lparr>rdb_root := it\<rparr>) (pending kv db b') D K F (Some r)"
proof -
  have p: "prefixes_ok s" using c by (simp add: content_def)
  note ap = prefixes_apart [OF p]
  have it: "di_key it = di_key (rdb_root s)" "item_ok (root_env e) it (pending kv db b') (Some r)"
    using w by (auto simp: item_write_def item_ok_def)
  have ag: "agree_off (di_key (rdb_root s)) (pending kv db b) (pending kv db b')"
    using w agree_off_upd [of "di_key (rdb_root s)" _ "[]"] by (auto simp: item_write_def)
  show ?thesis using c it p
    by (auto simp: content_def access_ok_agree [OF ag ap(10)] typed_agree [OF ag ap(10)] drs_ok_agree [OF ag ap(11)]
        drs_ok_agree [OF ag ap(12)] prefixes_ok_def)
qed

subsection \<open>Staged data\<close>

lemma commit_writes:
  assumes env: "reach_env_ok e"
  shows "content e s (pending kv db b) D K F R \<Longrightarrow>
    fold (\<lambda>(h, d) (a, b). access_write (data_env e) a b h d) ws (rdb_access s, b) = (a', b') \<Longrightarrow>
    content e (s\<lparr>rdb_access := a'\<rparr>) (pending kv db b') (fold (\<lambda>(h, d) D. D(h \<mapsto> d)) ws D) K F R"
proof (induction ws arbitrary: s b D)
  case Nil
  then show ?case by (auto simp: content_def prefixes_ok_def)
next
  case (Cons w ws)
  obtain h d where w: "w = (h, d)" by force
  obtain a1 b1 where a1: "access_write (data_env e) (rdb_access s) b h d = (a1, b1)" by force
  have ok: "access_ok (data_env e) (rdb_access s) (pending kv db b)" using Cons.prems(1) by (simp add: content_def)
  note one = access_write_ok [OF reach_envD(1) [OF env] ok a1]
  have step: "content e (s\<lparr>rdb_access := a1\<rparr>) (pending kv db b1) (D(h \<mapsto> d)) K F R"
  proof (rule content_access [OF Cons.prems(1)])
    show "agree_off (ca_prefix (rdb_access s)) (pending kv db b) (pending kv db b1)" using one by simp
    show "typed (data_env e) (ca_prefix (rdb_access s)) (pending kv db b1) = D(h \<mapsto> d)"
      using one typed_update(1) [OF reach_envD(1) [OF env]] Cons.prems(1) by (simp add: content_def)
  qed (use one in blast)+
  have "fold (\<lambda>(h, d) (a, b). access_write (data_env e) a b h d) ws (rdb_access (s\<lparr>rdb_access := a1\<rparr>), b1) = (a', b')"
    using Cons.prems(2) by (simp add: w a1)
  from Cons.IH [OF step this] show ?case by (simp add: w)
qed

lemma commit_deletes:
  assumes env: "reach_env_ok e" and c: "content e s (pending kv db b) D K F R"
    and run: "access_delete_many (data_env e) (rdb_access s) b hs = (a', b')"
  shows "content e (s\<lparr>rdb_access := a'\<rparr>) (pending kv db b') (fold (\<lambda>h D. D(h := None)) hs D) K F R"
proof -
  have ok: "access_ok (data_env e) (rdb_access s) (pending kv db b)" using c by (simp add: content_def)
  note all = access_delete_many_ok [OF reach_envD(1) [OF env] ok run]
  have ag: "agree_off p m (fold (\<lambda>k m. m(p @ f k := None)) hs m)" for p m and f :: "hash \<Rightarrow> bytes"
    by (induction hs arbitrary: m) (auto intro: agree_off_trans [OF agree_off_upd])
  show ?thesis
  proof (rule content_access [OF c])
    show "agree_off (ca_prefix (rdb_access s)) (pending kv db b) (pending kv db b')" using all ag by simp
    show "typed (data_env e) (ca_prefix (rdb_access s)) (pending kv db b') = fold (\<lambda>h D. D(h := None)) hs D"
      using all typed_fold_delete [OF reach_envD(1) [OF env]] c by (simp add: content_def)
  qed (use all in blast)+
qed

subsection \<open>Staged sets\<close>

lemma set_deletes:
  assumes "env_ok env"
  shows "let m' = fold (\<lambda>x m. m(p @ ae_key env h @ ae_ser env x := None)) xs m in
    bucket env p m' = (bucket env p m)(h := bucket env p m h - set xs) \<and>
    (buckets_ok env p m \<longrightarrow> buckets_ok env p m') \<and> agree_off p m m'"
proof (induction xs arbitrary: m)
  case (Cons x xs)
  let ?m = "m(p @ ae_key env h @ ae_ser env x := None)"
  note IH = Cons.IH [of ?m, unfolded Let_def]
  show ?case unfolding Let_def fold.simps comp_apply
  proof (intro conjI impI)
    let ?m' = "fold (\<lambda>x m. m(p @ ae_key env h @ ae_ser env x := None)) xs ?m"
    show "bucket env p ?m' = (bucket env p m)(h := bucket env p m h - set (x # xs))"
      unfolding IH [THEN conjunct1] bucket_update(2) [OF assms] by (rule ext) auto
    show "buckets_ok env p ?m'" if "buckets_ok env p m"
      using IH bucket_update(4) [OF assms that] by blast
    show "agree_off p m ?m'"
      by (rule agree_off_trans [OF agree_off_upd]) (use IH in blast)
  qed
qed (simp add: Let_def)

lemma set_puts:
  assumes "env_ok env"
  shows "let m' = fold (\<lambda>x m. m(p @ ae_key env h @ ae_ser env x \<mapsto> [])) xs m in
    bucket env p m' = (bucket env p m)(h := bucket env p m h \<union> set xs) \<and>
    (buckets_ok env p m \<longrightarrow> buckets_ok env p m') \<and> agree_off p m m'"
proof (induction xs arbitrary: m)
  case (Cons x xs)
  let ?m = "m(p @ ae_key env h @ ae_ser env x \<mapsto> [])"
  note IH = Cons.IH [of ?m, unfolded Let_def]
  show ?case unfolding Let_def fold.simps comp_apply
  proof (intro conjI impI)
    let ?m' = "fold (\<lambda>x m. m(p @ ae_key env h @ ae_ser env x := Some [])) xs ?m"
    show "bucket env p ?m' = (bucket env p m)(h := bucket env p m h \<union> set (x # xs))"
      unfolding IH [THEN conjunct1] bucket_update(1) [OF assms] by (rule ext) auto
    show "buckets_ok env p ?m'" if "buckets_ok env p m"
      using IH bucket_update(4) [OF assms that] by blast
    show "agree_off p m ?m'"
      by (rule agree_off_trans [OF agree_off_upd]) (use IH in blast)
  qed
qed (simp add: Let_def)

lemma pending_set_ops:
  "pending kv db (fold (\<lambda>x b. set_delete env p b h x) xs b) = fold (\<lambda>x m. m(p @ ae_key env h @ ae_ser env x := None)) xs (pending kv db b)"
  "pending kv db (fold (\<lambda>x b. set_write env p b h x) xs b) = fold (\<lambda>x m. m(p @ ae_key env h @ ae_ser env x \<mapsto> [])) xs (pending kv db b)"
  by (induction xs arbitrary: b) (simp_all add: set_delete_def set_write_def set_key_path_def)

lemma commit_entry_ok:
  assumes env: "reach_env_ok e" and s: "drs_ok e s (pending kv db b) L" and en: "entry_ok (set (L h)) en"
    and run: "commit_staging_entry e (h, en) (s, b) = (s', b')"
  shows "drs_ok e s' (pending kv db b') (L(h := se_set en)) \<and> drs_prefix s' = drs_prefix s \<and>
    agree_off (drs_prefix s) (pending kv db b) (pending kv db b')"
proof -
  let ?env = "set_env e" and ?p = "drs_prefix s" and ?m = "pending kv db b"
  define m1 where "m1 = fold (\<lambda>x m. m(?p @ ae_key ?env h @ ae_ser ?env x := None)) (se_deletions en) ?m"
  define m2 where "m2 = fold (\<lambda>x m. m(?p @ ae_key ?env h @ ae_ser ?env x \<mapsto> [])) (se_additions en) m1"
  note eok = reach_envD(2) [OF env]
  have b': "pending kv db b' = m2" and s': "s' = s\<lparr>drs_cache := cache_insert (re_list_size e) (drs_cache s) h (se_set en)\<rparr>"
    using run by (auto simp: commit_staging_entry_def pending_set_ops m1_def m2_def)
  note del = set_deletes [OF eok, of ?p h "se_deletions en" ?m, folded m1_def, unfolded Let_def]
  note put = set_puts [OF eok, of ?p h "se_additions en" m1, folded m2_def, unfolded Let_def]
  have bucket: "bucket ?env ?p m2 = (bucket ?env ?p ?m)(h := bucket ?env ?p ?m h - set (se_deletions en) \<union> set (se_additions en))"
    unfolding put [THEN conjunct1] del [THEN conjunct1] by simp
  have bok: "buckets_ok ?env ?p ?m \<Longrightarrow> buckets_ok ?env ?p m2" using put del by blast
  have ag: "agree_off ?p ?m m2" using put del agree_off_trans by blast
  have "bucket ?env ?p m2 = (\<lambda>x. set ((L(h := se_set en)) x))"
    unfolding bucket using s en by (intro ext) (simp add: drs_ok_def entry_ok_def diff_ok_def)
  moreover have "lossy.coherent (re_list_size e) (cache_insert (re_list_size e) (drs_cache s) h (se_set en)) (\<lambda>x. Some ((L(h := se_set en)) x))"
    using s lossy.coherent_put [of "re_list_size e" "drs_cache s" "\<lambda>x. Some (L x)" h "se_set en"]
    by (simp add: drs_ok_def fun_upd_def if_distrib cong: if_cong)
  ultimately show ?thesis using s bok ag by (simp add: drs_ok_def b' s')
qed

definition staged_lists :: "(hash \<times> set_entry) list \<Rightarrow> (hash \<Rightarrow> hash list) \<Rightarrow> hash \<Rightarrow> hash list" where
  "staged_lists ens L h = (case map_of ens h of Some en \<Rightarrow> se_set en | None \<Rightarrow> L h)"

lemma commit_entries_ok:
  assumes env: "reach_env_ok e"
  shows "drs_ok e s (pending kv db b) L \<Longrightarrow> distinct (map fst ens) \<Longrightarrow> (\<forall>(h, en) \<in> set ens. entry_ok (set (L h)) en) \<Longrightarrow>
    fold (commit_staging_entry e) ens (s, b) = (s', b') \<Longrightarrow>
    drs_ok e s' (pending kv db b') (staged_lists ens L) \<and> drs_prefix s' = drs_prefix s \<and>
    agree_off (drs_prefix s) (pending kv db b) (pending kv db b')"
proof (induction ens arbitrary: s b L)
  case Nil
  then show ?case by (simp add: staged_lists_def)
next
  case (Cons he ens)
  obtain h en where he: "he = (h, en)" by force
  obtain s1 b1 where r: "commit_staging_entry e (h, en) (s, b) = (s1, b1)" by force
  have en: "entry_ok (set (L h)) en" using Cons.prems(3) by (simp add: he)
  note one = commit_entry_ok [OF env Cons.prems(1) en r]
  have rest: "\<forall>(x, en') \<in> set ens. entry_ok (set ((L(h := se_set en)) x)) en'"
    using Cons.prems(2,3) by (force simp: he)
  have run: "fold (commit_staging_entry e) ens (s1, b1) = (s', b')" using Cons.prems(4) by (simp add: he r)
  have "map_of ens h = None" using Cons.prems(2) by (simp add: he map_of_eq_None_iff)
  then have lists: "staged_lists ens (L(h := se_set en)) = staged_lists (he # ens) L"
    by (auto simp: staged_lists_def he fun_eq_iff split: option.splits)
  from Cons.IH [OF one [THEN conjunct1] _ rest run] Cons.prems(2) one show ?case
    unfolding lists by (auto intro: agree_off_trans)
qed

lemma drs_delete_ok:
  assumes env: "reach_env_ok e" and s: "drs_ok e s (pending kv db b) L" and p: "list_ex (\<lambda>x. x \<noteq> 0xff) (drs_prefix s)"
  shows "\<exists>s' b'. drs_delete e s b h = Inr (s', b') \<and> drs_ok e s' (pending kv db b') (L(h := [])) \<and>
    drs_prefix s' = drs_prefix s \<and> agree_off (drs_prefix s) (pending kv db b) (pending kv db b')"
proof -
  let ?env = "set_env e" and ?p = "drs_prefix s" and ?m = "pending kv db b"
  let ?b = "b @ [WDeleteRange (?p @ ae_key ?env h)]"
  let ?s = "s\<lparr>drs_cache := cache_remove (re_list_size e) (drs_cache s) h\<rparr>"
  note eok = reach_envD(2) [OF env]
  have m: "pending kv db ?b = ?m |` {key. \<not> prefix (?p @ ae_key ?env h) key}" by (simp add: pending_def)
  have run: "drs_delete e s b h = Inr (?s, ?b)"
    using p by (simp add: drs_delete_def set_delete_bucket_def batch_delete_range_def)
  have bucket: "bucket ?env ?p (pending kv db ?b) = (\<lambda>x. set ((L(h := [])) x))"
    using s unfolding m bucket_update(3) [OF eok] by (intro ext) (simp add: drs_ok_def)
  have bok: "buckets_ok ?env ?p (pending kv db ?b)"
    using s unfolding m by (simp add: drs_ok_def bucket_update(5) [OF eok])
  have coh: "lossy.coherent (re_list_size e) (cache_remove (re_list_size e) (drs_cache s) h) (\<lambda>x. Some ((L(h := [])) x))"
    using s lossy.coherent_forget [of "re_list_size e" "drs_cache s" "\<lambda>x. Some (L x)" h "Some []"]
    by (simp add: drs_ok_def fun_upd_def if_distrib cong: if_cong)
  have ag: "agree_off ?p ?m (pending kv db ?b)" unfolding m by simp
  show ?thesis using run bucket bok coh ag by (auto simp: drs_ok_def)
qed

lemma commit_delete_sets:
  assumes env: "reach_env_ok e"
  shows "content e s (pending kv db b) D K F R \<Longrightarrow>
    \<exists>cs fs b'. rfold (delete_sets e) ((rdb_children s, rdb_fcs s), b) hs = Inr ((cs, fs), b') \<and>
      content e (s\<lparr>rdb_children := cs, rdb_fcs := fs\<rparr>) (pending kv db b') D
        (\<lambda>h. if h \<in> set hs then [] else K h) (\<lambda>h. if h \<in> set hs then [] else F h) R"
proof (induction hs arbitrary: s b K F)
  case Nil
  then show ?case by (auto simp: content_def prefixes_ok_def)
next
  case (Cons h hs)
  have pre: "list_ex (\<lambda>x. x \<noteq> 0xff) (drs_prefix (rdb_children s))" "list_ex (\<lambda>x. x \<noteq> 0xff) (drs_prefix (rdb_fcs s))"
    using Cons.prems by (auto simp: content_def prefixes_ok_def)
  have "drs_ok e (rdb_children s) (pending kv db b) K" using Cons.prems by (simp add: content_def)
  from drs_delete_ok [OF env this pre(1), of h] obtain cs b1 where
    cs: "drs_delete e (rdb_children s) b h = Inr (cs, b1)" "drs_ok e cs (pending kv db b1) (K(h := []))"
      "drs_prefix cs = drs_prefix (rdb_children s)" "agree_off (drs_prefix (rdb_children s)) (pending kv db b) (pending kv db b1)" by blast
  from content_children [OF Cons.prems cs(2-4)]
  have c1: "content e (s\<lparr>rdb_children := cs\<rparr>) (pending kv db b1) D (K(h := [])) F R" .
  then have "drs_ok e (rdb_fcs s) (pending kv db b1) F" by (simp add: content_def)
  from drs_delete_ok [OF env this pre(2), of h] obtain fs b2 where
    fs: "drs_delete e (rdb_fcs s) b1 h = Inr (fs, b2)" "drs_ok e fs (pending kv db b2) (F(h := []))"
      "drs_prefix fs = drs_prefix (rdb_fcs s)" "agree_off (drs_prefix (rdb_fcs s)) (pending kv db b1) (pending kv db b2)" by blast
  have c2: "content e (s\<lparr>rdb_children := cs, rdb_fcs := fs\<rparr>) (pending kv db b2) D (K(h := [])) (F(h := [])) R"
    using content_fcs [OF c1, of fs "pending kv db b2" "F(h := [])"] fs(2-4) by simp
  have lists: "(\<lambda>x. if x \<in> set hs then [] else (L(h := [])) x) = (\<lambda>x. if x \<in> set (h # hs) then [] else L x)" for L :: "hash \<Rightarrow> hash list"
    by (rule ext) simp
  from Cons.IH [OF c2] show ?case
    unfolding lists by (simp add: delete_sets_def cs(1) fs(1))
qed

lemma fold_put_map: "distinct (map fst ws) \<Longrightarrow> fold (\<lambda>(h, d) D. D(h \<mapsto> d)) ws D h = (case map_of ws h of Some d \<Rightarrow> Some d | None \<Rightarrow> D h)"
proof (induction ws arbitrary: D)
  case (Cons w ws)
  obtain k d where w: "w = (k, d)" by force
  have "map_of ws k = None" using Cons.prems by (simp add: w map_of_eq_None_iff)
  then show ?case using Cons.IH [of "D(k \<mapsto> d)"] Cons.prems by (simp add: w split: option.splits)
qed simp

lemma fold_delete_map: "fold (\<lambda>h D. D(h := None)) hs D h = (if h \<in> set hs then None else D h)"
  by (induction hs arbitrary: D) auto

lemma staged_views:
  assumes rel: "stg_rel e sg M0 M"
  shows "fold (\<lambda>h D. D(h := None)) (sg_deletions sg) (fold (\<lambda>(h, d) D. D(h \<mapsto> d)) (sg_writes sg) (stripped M0)) = stripped M"
    and "(\<lambda>h. if h \<in> set (sg_deletions sg) then [] else staged_lists (sg_children sg) (kid_lists M0) h) = kid_lists M"
    and "(\<lambda>h. if h \<in> set (sg_deletions sg) then [] else staged_lists (sg_fcs sg) (fcs_lists M0) h) = fcs_lists M"
proof -
  show "fold (\<lambda>h D. D(h := None)) (sg_deletions sg) (fold (\<lambda>(h, d) D. D(h \<mapsto> d)) (sg_writes sg) (stripped M0)) = stripped M"
    using rel by (intro ext) (simp add: fold_delete_map fold_put_map stg_rel_def)
  have dead: "h \<in> set (sg_deletions sg) \<Longrightarrow> kid_lists M h = [] \<and> fcs_lists M h = []" for h
    using stg_relD(2) [OF rel, of h] by (auto simp: kid_lists_def fcs_lists_def domIff split: option.splits)
  have unknown: "map_of (sg_children sg) h = None \<and> map_of (sg_fcs sg) h = None \<and> kid_lists M0 h = [] \<and> fcs_lists M0 h = [] \<and>
      kid_lists M h = [] \<and> fcs_lists M h = []" if "h \<notin> blocks M" "h \<notin> set (sg_deletions sg)" for h
  proof -
    have "h \<notin> blocks M0" using stg_relD(5) [OF rel that] by blast
    moreover have "map_of (sg_children sg) h = None" "map_of (sg_fcs sg) h = None"
      using rel that unfolding stg_rel_def stage_ok_def by (meson UnE not_None_eq)+
    ultimately show ?thesis using that(1) by (auto simp: kid_lists_def fcs_lists_def domIff)
  qed
  have known: "kid_lists M h = staged_lists (sg_children sg) (kid_lists M0) h" "fcs_lists M h = staged_lists (sg_fcs sg) (fcs_lists M0) h"
    if "h \<in> blocks M" for h
    using rel that by (auto simp: stg_rel_def stage_ok_def staged_lists_def)
  show "(\<lambda>h. if h \<in> set (sg_deletions sg) then [] else staged_lists (sg_children sg) (kid_lists M0) h) = kid_lists M"
  proof
    fix h show "(if h \<in> set (sg_deletions sg) then [] else staged_lists (sg_children sg) (kid_lists M0) h) = kid_lists M h"
      using dead [of h] unknown [of h] known(1) [of h] by (cases "h \<in> blocks M") (auto simp: staged_lists_def)
  qed
  show "(\<lambda>h. if h \<in> set (sg_deletions sg) then [] else staged_lists (sg_fcs sg) (fcs_lists M0) h) = fcs_lists M"
  proof
    fix h show "(if h \<in> set (sg_deletions sg) then [] else staged_lists (sg_fcs sg) (fcs_lists M0) h) = fcs_lists M h"
      using dead [of h] unknown [of h] known(2) [of h] by (cases "h \<in> blocks M") (auto simp: staged_lists_def)
  qed
qed

lemma stage_entries:
  assumes "stage_ok ens L0 L alive D"
  shows "distinct (map fst ens)" "\<forall>(h, en) \<in> set ens. entry_ok (set (L0 h)) en"
  using assms by (auto simp: stage_ok_def)

lemma staging_commit_ok:
  assumes env: "reach_env_ok e" and rel: "stg_rel e sg M0 M" and sorted: "store_sorted M"
  shows "\<exists>s b. staging_commit e sg [] = Inr (s, b) \<and> db_rel e (rdb_flush e s b) M"
proof -
  let ?st = "sg_store sg" and ?kv = "re_kv e"
  let ?db = "rdb_db ?st"
  have c0: "content e ?st (pending ?kv ?db []) (stripped M0) (kid_lists M0) (fcs_lists M0) (rs_reindex_root M0)"
    using stg_relD(1) [OF rel] by (simp add: db_rel_def db_content_iff)
  obtain a1 b1 where r1: "fold (\<lambda>(h, d) (a, b). access_write (data_env e) a b h d) (sg_writes sg) (rdb_access ?st, []) = (a1, b1)" by force
  from commit_writes [OF env c0 r1]
  have c1: "content e (?st\<lparr>rdb_access := a1\<rparr>) (pending ?kv ?db b1) (fold (\<lambda>(h, d) D. D(h \<mapsto> d)) (sg_writes sg) (stripped M0))
      (kid_lists M0) (fcs_lists M0) (rs_reindex_root M0)" .
  have ch: "stage_ok (sg_children sg) (kid_lists M0) (kid_lists M) (blocks M) (set (sg_deletions sg))"
    and fc: "stage_ok (sg_fcs sg) (fcs_lists M0) (fcs_lists M) (blocks M) (set (sg_deletions sg))"
    using rel by (simp_all add: stg_rel_def)
  obtain cs2 b2 where r2: "fold (commit_staging_entry e) (sg_children sg) (rdb_children ?st, b1) = (cs2, b2)" by force
  have "drs_ok e (rdb_children ?st) (pending ?kv ?db b1) (kid_lists M0)" using c1 by (simp add: content_def)
  note k2 = commit_entries_ok [OF env this stage_entries [OF ch] r2]
  from content_children [OF c1, of cs2 "pending ?kv ?db b2" "staged_lists (sg_children sg) (kid_lists M0)"] k2
  have c2: "content e (?st\<lparr>rdb_access := a1, rdb_children := cs2\<rparr>) (pending ?kv ?db b2)
      (fold (\<lambda>(h, d) D. D(h \<mapsto> d)) (sg_writes sg) (stripped M0)) (staged_lists (sg_children sg) (kid_lists M0)) (fcs_lists M0)
      (rs_reindex_root M0)" by simp
  obtain fs3 b3 where r3: "fold (commit_staging_entry e) (sg_fcs sg) (rdb_fcs ?st, b2) = (fs3, b3)" by force
  have "drs_ok e (rdb_fcs ?st) (pending ?kv ?db b2) (fcs_lists M0)" using c2 by (simp add: content_def)
  note k3 = commit_entries_ok [OF env this stage_entries [OF fc] r3]
  from content_fcs [OF c2, of fs3 "pending ?kv ?db b3" "staged_lists (sg_fcs sg) (fcs_lists M0)"] k3
  have c3: "content e (?st\<lparr>rdb_access := a1, rdb_children := cs2, rdb_fcs := fs3\<rparr>) (pending ?kv ?db b3)
      (fold (\<lambda>(h, d) D. D(h \<mapsto> d)) (sg_writes sg) (stripped M0)) (staged_lists (sg_children sg) (kid_lists M0))
      (staged_lists (sg_fcs sg) (fcs_lists M0)) (rs_reindex_root M0)" by simp
  obtain a4 b4 where r4: "access_delete_many (data_env e) a1 b3 (sg_deletions sg) = (a4, b4)" by force
  from commit_deletes [OF env c3, of "sg_deletions sg" a4 b4] r4
  have c4: "content e (?st\<lparr>rdb_access := a4, rdb_children := cs2, rdb_fcs := fs3\<rparr>) (pending ?kv ?db b4) (stripped M)
      (staged_lists (sg_children sg) (kid_lists M0)) (staged_lists (sg_fcs sg) (fcs_lists M0)) (rs_reindex_root M0)"
    by (simp add: staged_views(1) [OF rel] content_def prefixes_ok_def)
  from commit_delete_sets [OF env c4, of "sg_deletions sg"] obtain cs5 fs5 b5 where
    r5: "rfold (delete_sets e) ((cs2, fs3), b4) (sg_deletions sg) = Inr ((cs5, fs5), b5)"
    and c5: "content e (?st\<lparr>rdb_access := a4, rdb_children := cs5, rdb_fcs := fs5\<rparr>) (pending ?kv ?db b5) (stripped M)
      (kid_lists M) (fcs_lists M) (rs_reindex_root M0)"
    by (auto simp: staged_views(2,3) [OF rel])
  obtain it b6 where r6: "(case sg_root sg of None \<Rightarrow> (rdb_root ?st, b5) | Some r \<Rightarrow> item_write (root_env e) (rdb_root ?st) b5 r) = (it, b6)" by force
  let ?s = "?st\<lparr>rdb_access := a4, rdb_children := cs5, rdb_fcs := fs5, rdb_root := it\<rparr>"
  have c6: "content e ?s (pending ?kv ?db b6) (stripped M) (kid_lists M) (fcs_lists M) (rs_reindex_root M)"
  proof (cases "sg_root sg")
    case None
    then show ?thesis using c5 r6 rel by (auto simp: content_def stg_rel_def prefixes_ok_def)
  next
    case (Some r)
    then have root: "rs_reindex_root M = Some r" using rel by (simp add: stg_rel_def)
    have w: "item_write (root_env e) (rdb_root ?st) b5 r = (it, b6)" using r6 Some by simp
    from content_root [OF c5, of r it b6] w show ?thesis by (simp add: root)
  qed
  have run: "staging_commit e sg [] = Inr (?s, b6)"
    using r1 r2 r3 r4 r5 r6 by (simp add: staging_commit_def Let_def)
  have "db_rel e (rdb_flush e ?s b6) M"
    using c6 sorted kv_write_pending [OF reach_envD(4) [OF env], of ?db b6]
    by (simp add: db_rel_def db_content_iff rdb_flush_def content_def prefixes_ok_def)
  with run show ?thesis by blast
qed

section \<open>Reads through the staging area\<close>

lemma stripped_cases: "stripped M h = (case rs_map M h of None \<Rightarrow> None | Some d \<Rightarrow> Some (strip d))"
  by (simp add: stripped_def split: option.splits)

lemma staging_read_ok:
  assumes rel: "stg_rel e sg M0 M"
  shows "fst (staging_read e sg h f) = rbind (get_data M h) (\<lambda>d. Inr (f (strip d)))"
proof -
  have str: "stripped M h = (if h \<in> set (sg_deletions sg) then None
        else case map_of (sg_writes sg) h of Some d \<Rightarrow> Some d | None \<Rightarrow> stripped M0 h)"
    using rel by (simp add: stg_rel_def)
  have mem: "rbind (get_data M h) (\<lambda>d. Inr (f (strip d))) =
      (case stripped M h of None \<Rightarrow> Inl (Err (StoreError (KeyNotFound h))) | Some d \<Rightarrow> Inr (f d))"
    by (simp add: get_data_def stripped_cases ok_or_def split: option.splits)
  obtain st where rd: "rdb_read e (sg_store sg) h =
      (map_err key_error (case stripped M0 h of None \<Rightarrow> Inl (Err (KeyMissing h)) | Some d \<Rightarrow> Inr d), st)"
    using rdb_read_ok [OF stg_relD(1) [OF rel]] by blast
  show ?thesis unfolding mem str
    by (simp add: staging_read_def check_not_in_deletions_def rd read_field_def map_err_def split: option.splits)
qed

lemma staging_getters:
  assumes env: "reach_env_ok e" and rel: "stg_rel e sg M0 M"
  shows "fst (staging_get_interval e sg h) = get_interval M h" "fst (staging_get_parent e sg h) = get_parent M h"
    "fst (staging_get_height e sg h) = get_height M h" "staging_has e sg h = store_has M h"
    "store_has M h \<Longrightarrow> fst (staging_get_children e sg h) = get_children M h"
    "store_has M h \<Longrightarrow> fst (staging_get_future_covering_set e sg h) = get_future_covering_set M h"
    "fst (staging_get_reindex_root e sg) = get_reindex_root M"
proof -
  show "fst (staging_get_interval e sg h) = get_interval M h" "fst (staging_get_parent e sg h) = get_parent M h"
    "fst (staging_get_height e sg h) = get_height M h"
    by (simp_all add: staging_get_interval_def staging_get_parent_def staging_get_height_def staging_read_ok [OF rel]
        get_interval_def get_parent_def get_height_def strip_def)
  show "staging_has e sg h = store_has M h"
  proof (cases "h \<in> blocks M")
    case True
    with stg_relD(2,3) [OF rel True] rdb_has_ok [OF stg_relD(1) [OF rel], of h] show ?thesis
      by (auto simp: staging_has_def store_has_def)
  next
    case False
    with stg_relD(5) [OF rel False] rdb_has_ok [OF stg_relD(1) [OF rel], of h] show ?thesis
      by (auto simp: staging_has_def store_has_def)
  qed
  have ch: "stage_ok (sg_children sg) (kid_lists M0) (kid_lists M) (blocks M) (set (sg_deletions sg))"
    and fc: "stage_ok (sg_fcs sg) (fcs_lists M0) (fcs_lists M) (blocks M) (set (sg_deletions sg))"
    using rel by (simp_all add: stg_rel_def)
  show "fst (staging_get_children e sg h) = get_children M h" if "store_has M h"
  proof -
    have h: "h \<in> blocks M" using that by (auto simp: store_has_def)
    obtain st where "rdb_get_children e (sg_store sg) h = (Inr (kid_lists M0 h), st)"
      using rdb_get_children_ok [OF env stg_relD(1) [OF rel]] by blast
    moreover have "kids M h = (case map_of (sg_children sg) h of Some en \<Rightarrow> se_set en | None \<Rightarrow> kid_lists M0 h)"
      using ch h in_views(2) [OF h] by (simp add: stage_ok_def)
    ultimately show ?thesis using stg_relD(2) [OF rel h] getters_in(3) [OF h]
      by (simp add: staging_get_children_def check_not_in_deletions_def split: option.splits)
  qed
  show "fst (staging_get_future_covering_set e sg h) = get_future_covering_set M h" if "store_has M h"
  proof -
    have h: "h \<in> blocks M" using that by (auto simp: store_has_def)
    obtain st where "rdb_get_future_covering_set e (sg_store sg) h = (Inr (fcs_lists M0 h), st)"
      using rdb_get_future_covering_set_ok [OF env stg_relD(1) [OF rel]] by blast
    moreover have "fcs M h = (case map_of (sg_fcs sg) h of Some en \<Rightarrow> se_set en | None \<Rightarrow> fcs_lists M0 h)"
      using fc h in_views(3) [OF h] by (simp add: stage_ok_def)
    ultimately show ?thesis using stg_relD(2) [OF rel h] getters_in(5) [OF h]
      by (simp add: staging_get_future_covering_set_def check_not_in_deletions_def split: option.splits)
  qed
  obtain st where root: "rdb_get_reindex_root e (sg_store sg) = (get_reindex_root M0, st)"
    using rdb_get_reindex_root_ok [OF env stg_relD(1) [OF rel]] by blast
  have "rs_reindex_root M = (case sg_root sg of Some r \<Rightarrow> Some r | None \<Rightarrow> rs_reindex_root M0)"
    using rel by (simp add: stg_rel_def)
  with root show "fst (staging_get_reindex_root e sg) = get_reindex_root M"
    by (simp add: staging_get_reindex_root_def get_reindex_root_def split: option.splits)
qed

lemma rdb_getters:
  assumes env: "reach_env_ok e" and rel: "db_rel e s M"
  shows "rdb_has e s h = store_has M h" "fst (rdb_get_interval e s h) = get_interval M h"
    "fst (rdb_get_parent e s h) = get_parent M h" "fst (rdb_get_height e s h) = get_height M h"
    "store_has M h \<Longrightarrow> fst (rdb_get_children e s h) = get_children M h"
    "store_has M h \<Longrightarrow> fst (rdb_get_future_covering_set e s h) = get_future_covering_set M h"
    "fst (rdb_get_reindex_root e s) = get_reindex_root M"
proof -
  note rel' = staging_new_rel [OF rel]
  note g = staging_getters(1-6) [OF env rel', of h]
  have defs: "staging_new s = \<lparr>sg_store = s, sg_writes = [], sg_children = [], sg_fcs = [], sg_deletions = [], sg_root = None\<rparr>"
    by (rule staging_new_def)
  have "fst (staging_read e (staging_new s) h f) = read_field f (fst (rdb_read e s h))" for f :: "db_reach_data \<Rightarrow> 'x"
    by (simp add: staging_read_def check_not_in_deletions_def defs split_beta)
  with g(1-3) show "fst (rdb_get_interval e s h) = get_interval M h" "fst (rdb_get_parent e s h) = get_parent M h"
    "fst (rdb_get_height e s h) = get_height M h"
    by (simp_all add: staging_get_interval_def staging_get_parent_def staging_get_height_def
        rdb_get_interval_def rdb_get_parent_def rdb_get_height_def split_beta staging_read_def check_not_in_deletions_def defs)
  show "rdb_has e s h = store_has M h" using g(4) by (simp add: staging_has_def defs)
  show "store_has M h \<Longrightarrow> fst (rdb_get_children e s h) = get_children M h"
    using g(5) by (simp add: staging_get_children_def check_not_in_deletions_def defs split_beta)
  show "store_has M h \<Longrightarrow> fst (rdb_get_future_covering_set e s h) = get_future_covering_set M h"
    using g(6) by (simp add: staging_get_future_covering_set_def check_not_in_deletions_def defs split_beta)
  show "fst (rdb_get_reindex_root e s) = get_reindex_root M"
    using staging_getters(7) [OF env rel'] by (simp add: staging_get_reindex_root_def defs split_beta)
qed

fun legal_ops :: "reach_store \<Rightarrow> hash set \<Rightarrow> store_op list \<Rightarrow> bool" where
  "legal_ops M D [] \<longleftrightarrow> True"
| "legal_ops M D (oper # ops) \<longleftrightarrow> op_legal M D oper \<and>
     (case mem_step M oper of Inr M' \<Rightarrow> legal_ops M' (op_deletes oper \<union> D) ops | Inl _ \<Rightarrow> False)"

lemma staging_run:
  assumes env: "reach_env_ok e"
  shows "stg_rel e sg M0 M \<Longrightarrow> legal_ops M (set (sg_deletions sg)) ops \<Longrightarrow>
    \<exists>sg' M'. rfold (staging_step e) sg ops = Inr sg' \<and> rfold mem_step M ops = Inr M' \<and> stg_rel e sg' M0 M'"
proof (induction ops arbitrary: sg M)
  case (Cons oper ops)
  have "op_legal M (set (sg_deletions sg)) oper" using Cons.prems(2) by simp
  from staging_step_simulates [OF env Cons.prems(1) this] obtain sg1 M1 where
    s: "staging_step e sg oper = Inr sg1" "mem_step M oper = Inr M1" "stg_rel e sg1 M0 M1"
      "set (sg_deletions sg1) = op_deletes oper \<union> set (sg_deletions sg)" by blast
  have "legal_ops M1 (set (sg_deletions sg1)) ops" using Cons.prems(2) s(2,4) by simp
  from Cons.IH [OF s(3) this] s(1,2) show ?case by simp
qed simp

lemma reach_db_new_rel:
  assumes "\<And>k. kv_get (re_kv e) db (15 # SEPARATOR # k) = None" "\<And>k. kv_get (re_kv e) db (30 # SEPARATOR # k) = None"
    "\<And>k. kv_get (re_kv e) db (31 # SEPARATOR # k) = None" "kv_get (re_kv e) db [16, SEPARATOR] = None"
  shows "db_rel e (reach_db_new db policy sets_policy draws) reach_store_new"
proof -
  have views: "stripped reach_store_new = Map.empty" "kid_lists reach_store_new = (\<lambda>_. [])" "fcs_lists reach_store_new = (\<lambda>_. [])"
    "rs_reindex_root reach_store_new = None"
    by (simp_all add: stripped_def kid_lists_def fcs_lists_def reach_store_new_def fun_eq_iff)
  have nones: "bucket env [c, SEPARATOR] (kv_get (re_kv e) db) = (\<lambda>_. {})" "buckets_ok env [c, SEPARATOR] (kv_get (re_kv e) db)"
    if "\<And>k. kv_get (re_kv e) db (c # SEPARATOR # k) = None" for c and env :: "('a, hash, hash) acc_env"
    using that by (auto simp: bucket_def buckets_ok_def prefix_def)
  have drs: "drs_ok e \<lparr>drs_prefix = [c, SEPARATOR], drs_cache = cache_new sets_policy draws\<rparr> (kv_get (re_kv e) db) (\<lambda>_. [])"
    if "\<And>k. kv_get (re_kv e) db (c # SEPARATOR # k) = None" for c
    using nones [OF that] by (simp add: drs_ok_def lossy.coherent_def cache_new_inv)
  show ?thesis
    unfolding db_rel_def db_content_def views reach_db_new_def with_prefix_end_def PREFIX_REACHABILITY_def PREFIX_REINDEX_ROOT_def
      PREFIX_TREE_CHILDREN_def PREFIX_FUTURE_COVERING_SET_def
    using assms drs [of 30] drs [of 31]
    by (auto simp: access_ok_def access_new_def lossy.coherent_def cache_new_inv typed_def well_typed_def item_ok_def prefixes_ok_def
        store_sorted_def sorted_in_def views)
qed

end
