(* ===== verification/ReachDbProps.thy ===== *)
theory ReachDbProps
  imports ReachDbRefine ReachSession
begin

text \<open>
  Properties of the database-backed reachability store: the staging area refines the
  map-backed store, and a commit makes the staged state durable.
\<close>

section \<open>States of the service are ordered\<close>

lemma ordered_sorted_in:
  assumes tree: "tree_inv r M" and ord: "ordered M hs"
  shows "sorted_in (stripped M) hs"
proof -
  have sub: "set hs \<subseteq> blocks M" using ord by (simp add: ordered_def)
  have key: "dr_interval (the (stripped M h)) = ivl M h" if "h \<in> set hs" for h
  proof -
    have "h \<in> blocks M" using sub that by blast
    from in_views(1) [OF this] show ?thesis by (simp add: strip_def)
  qed
  have "sorted_wrt (\<lambda>a b. iv_start (ivl M a) < iv_start (ivl M b)) hs"
    using ordered_starts [OF tree ord] by (simp add: sorted_wrt_map)
  then have "sorted_wrt (\<lambda>a b. interval_key (dr_interval (the (stripped M a))) < interval_key (dr_interval (the (stripped M b)))) hs"
    by (rule sorted_wrt_mono_rel [rotated]) (simp add: key interval_key_def)
  then show ?thesis using sub by (simp add: sorted_in_def sorted_wrt_map)
qed

lemma service_store_sorted:
  assumes "tree_inv r M" and "covering_inv G M"
  shows "store_sorted M"
  unfolding store_sorted_def
proof (intro allI conjI)
  fix h
  have nil: "sorted_in (stripped M) []" by (simp add: sorted_in_def)
  show "sorted_in (stripped M) (kid_lists M h)"
    using ordered_sorted_in [OF assms(1) ordered_kids [OF assms(1)]] in_views(2) [of h M] nil
    by (cases "h \<in> blocks M") (auto simp: kid_lists_def domIff split: option.splits)
  show "sorted_in (stripped M) (fcs_lists M h)"
    using ordered_sorted_in [OF assms(1) covering_invD(2) [OF assms(2)]] in_views(3) [of h M] nil
    by (cases "h \<in> blocks M") (auto simp: fcs_lists_def domIff split: option.splits)
qed

section \<open>Properties\<close>


text \<open>
  C6: committing a staged session is atomic and faithful: when the resulting store is
  a valid reachability tree with ordered covering sets, the commit succeeds, and
  once its batch is written the database store represents exactly the new state:
  every read returns what the map-backed store returns, also after any evictions.
\<close>

theorem staging_commit_refines:
  assumes "reach_env_ok e" and "db_rel e s M0" and "legal_ops M0 {} ops" and "rfold mem_step M0 ops = Inr M"
    and "tree_inv r M" and "covering_inv G M"
  shows "\<exists>sg s' b. rfold (staging_step e) (staging_new s) ops = Inr sg \<and> staging_commit e sg [] = Inr (s', b) \<and>
    db_rel e (rdb_flush e s' b) M \<and>
    (\<forall>h. rdb_has e (rdb_flush e s' b) h = store_has M h \<and> fst (rdb_get_interval e (rdb_flush e s' b) h) = get_interval M h \<and>
      (store_has M h \<longrightarrow> fst (rdb_get_children e (rdb_flush e s' b) h) = get_children M h \<and>
        fst (rdb_get_future_covering_set e (rdb_flush e s' b) h) = get_future_covering_set M h)) \<and>
    fst (rdb_get_reindex_root e (rdb_flush e s' b)) = get_reindex_root M"
proof -
  have "set (sg_deletions (staging_new s)) = {}" by (simp add: staging_new_def)
  with staging_run [OF assms(1) staging_new_rel [OF assms(2)], of ops] assms(3,4) obtain sg where
    r: "rfold (staging_step e) (staging_new s) ops = Inr sg" "stg_rel e sg M0 M" by auto
  from staging_commit_ok [OF assms(1) r(2) service_store_sorted [OF assms(5,6)]] obtain s' b where
    c: "staging_commit e sg [] = Inr (s', b)" "db_rel e (rdb_flush e s' b) M" by blast
  with r(1) rdb_getters [OF assms(1) c(2)] show ?thesis by blast
qed

section \<open>A concrete session\<close>

text \<open>An encoding of the data over the database in memory, with numbers in unary.\<close>

definition ser_nat :: "nat \<Rightarrow> bytes" where
  "ser_nat n = replicate n 1 @ [0]"

definition de_nat :: "bytes \<Rightarrow> nat \<times> bytes" where
  "de_nat bs = (let n = length (takeWhile (\<lambda>b. b = 1) bs) in (n, drop (Suc n) bs))"

lemma de_ser_nat: "de_nat (ser_nat n @ rest) = (n, rest)"
proof -
  have "takeWhile (\<lambda>b. b = 1) (replicate n 1 @ (0 :: byte) # rest) = replicate n 1" by (induction n) simp_all
  then show ?thesis by (simp add: de_nat_def ser_nat_def Let_def)
qed

definition ex_reach_env :: "(bytes \<times> bytes) list reach_env" where
  "ex_reach_env = \<lparr>re_kv = alist_kv,
     re_ser_data = (\<lambda>d. hash_bytes (dr_parent d) @ ser_nat (iv_start (dr_interval d)) @ ser_nat (iv_end (dr_interval d)) @
       ser_nat (dr_height d)),
     re_de_data = (\<lambda>bs. case de_nat (drop 32 bs) of (a, bs1) \<Rightarrow> case de_nat bs1 of (b, bs2) \<Rightarrow>
       Some \<lparr>dr_parent = hash_of_bytes (take 32 bs), dr_interval = interval_new a b, dr_height = fst (de_nat bs2)\<rparr>),
     re_ser_hash = hash_bytes, re_de_hash = (\<lambda>bs. Some (hash_of_bytes bs)), re_data_size = (\<lambda>_ _. 1), re_list_size = (\<lambda>_ hs. length hs)\<rparr>"

lemma ex_reach_env_ok: "reach_env_ok ex_reach_env"
proof -
  have "re_de_data ex_reach_env (re_ser_data ex_reach_env d) = Some d" for d
    using de_ser_nat [of "dr_height d" "[]"]
    by (simp add: ex_reach_env_def de_ser_nat length_hash_bytes hash_of_hash_bytes interval_eq_iff)
  then show ?thesis using alist_kv_ok by (simp add: reach_env_ok_def) (simp add: ex_reach_env_def hash_of_hash_bytes)
qed

definition ex_db :: "(bytes \<times> bytes) list reach_db" where
  "ex_db = reach_db_new [] (CacheCount 1) (CacheTracked 1 0 MemUnits) (\<lambda>_. 0)"

lemma ex_db_rel: "db_rel ex_reach_env ex_db reach_store_new"
  unfolding ex_db_def by (rule reach_db_new_rel) (simp_all add: ex_reach_env_def alist_kv_def)

definition ex_ops :: "store_op list" where
  "ex_ops = [StInsert ORIGIN NONE (interval_new 1 100) 0, StSetRoot ORIGIN,
     StInsert 1 ORIGIN (interval_new 1 50) 1, StAppendChild ORIGIN 1,
     StInsert 2 1 (interval_new 1 25) 2, StAppendChild 1 2,
     StInsert 3 1 (interval_new 26 37) 2, StAppendChild 1 3,
     StInsert 4 2 (interval_new 1 12) 3, StAppendChild 2 4, StInsertFci 3 4 0]"

lemmas mem_ops = store_insert_def append_child_def insert_future_covering_item_def update_data_def get_data_def ok_or_def
  set_reindex_root_def reach_data_new_def reach_store_new_def the_data_def vec_insert_def

lemma ex_ops_run: "rfold mem_step reach_store_new ex_ops = Inr ex_store"
  by (simp add: ex_ops_def mem_ops ex_store_def fun_eq_iff)

lemma ex_ops_legal: "legal_ops reach_store_new {} ex_ops"
  by (simp add: ex_ops_def mem_ops)


theorem staging_commit_refines_witness:
  "\<exists>sg s' b. rfold (staging_step ex_reach_env) (staging_new ex_db) ex_ops = Inr sg \<and>
     staging_commit ex_reach_env sg [] = Inr (s', b) \<and> fst (rdb_get_children ex_reach_env (rdb_flush ex_reach_env s' b) 1) = Inr [2, 3]"
proof -
  have "store_has ex_store 1" "get_children ex_store 1 = Inr [2, 3]"
    by (simp_all add: store_has_def ex_store_def get_children_def get_data_def ok_or_def)
  then show ?thesis
    using staging_commit_refines [OF ex_reach_env_ok ex_db_rel ex_ops_legal ex_ops_run ex_tree ex_covering] by metis
qed

end
