(* ===== verification/BTree.thy ===== *)
theory BTree
  imports Prelude
begin

text \<open>
  \<^verbatim>\<open>std::collections::BTreeMap\<close>: a map whose iteration is in key order, as the list of
  its entries in ascending key order.  The interface locale states the laws of a map;
  the sorted lists implement it, and two of them with the same content are equal.
\<close>

section \<open>The interface of a map\<close>

locale map_interface =
  fixes inv :: "'m \<Rightarrow> bool"
    and lookup :: "'m \<Rightarrow> 'k \<Rightarrow> 'v option"
    and put :: "'k \<Rightarrow> 'v \<Rightarrow> 'm \<Rightarrow> 'm"
    and del :: "'k \<Rightarrow> 'm \<Rightarrow> 'm"
  assumes inv_put: "inv m \<Longrightarrow> inv (put k v m)"
    and inv_del: "inv m \<Longrightarrow> inv (del k m)"
    and lookup_put: "inv m \<Longrightarrow> lookup (put k v m) = (lookup m)(k \<mapsto> v)"
    and lookup_del: "inv m \<Longrightarrow> lookup (del k m) = (lookup m)(k := None)"
    and lookup_ext: "inv m \<Longrightarrow> inv m' \<Longrightarrow> lookup m = lookup m' \<Longrightarrow> m = m'"
begin

lemma put_many:
  assumes "inv m" and "distinct (map fst kvs)"
  shows "inv (fold (\<lambda>(k, v). put k v) kvs m) \<and> lookup (fold (\<lambda>(k, v). put k v) kvs m) = lookup m ++ map_of kvs"
  using assms
proof (induction kvs arbitrary: m)
  case (Cons kv kvs)
  obtain k v where kv: "kv = (k, v)" by force
  have "map_of kvs k = None" using Cons.prems(2) by (simp add: kv map_of_eq_None_iff)
  then have "(lookup m)(k \<mapsto> v) ++ map_of kvs = lookup m ++ (map_of kvs)(k \<mapsto> v)"
    by (auto simp: map_add_def fun_eq_iff split: option.splits)
  moreover have "distinct (map fst kvs)" using Cons.prems(2) by simp
  note Cons.IH [OF inv_put [OF Cons.prems(1), of k v] this, unfolded lookup_put [OF Cons.prems(1)]]
  ultimately show ?case by (simp only: kv fold.simps comp_apply prod.case map_of.simps fst_conv snd_conv)
qed simp

lemma del_many:
  assumes "inv m"
  shows "inv (fold del ks m) \<and> lookup (fold del ks m) = lookup m |` (- set ks)"
  using assms
proof (induction ks arbitrary: m)
  case (Cons k ks)
  have "(lookup m)(k := None) |` (- set ks) = lookup m |` (- set (k # ks))"
    by (auto simp: restrict_map_def fun_eq_iff)
  with Cons.IH [OF inv_del [OF Cons.prems, of k], unfolded lookup_del [OF Cons.prems]] show ?case
    by (simp only: fold.simps comp_apply)
qed (simp add: restrict_map_def)

lemma put_del: "inv m \<Longrightarrow> lookup m k = None \<Longrightarrow> del k (put k v m) = m"
  by (rule lookup_ext) (simp_all add: inv_put inv_del lookup_put lookup_del fun_upd_idem)

end

section \<open>Sorted entry lists\<close>

type_synonym ('k, 'v) btree = "('k \<times> 'v) list"

fun bt_insert :: "'k::linorder \<Rightarrow> 'v \<Rightarrow> ('k, 'v) btree \<Rightarrow> ('k, 'v) btree" where
  "bt_insert k v [] = [(k, v)]"
| "bt_insert k v ((k', v') # t) = (if k < k' then (k, v) # (k', v') # t
     else if k = k' then (k, v) # t else (k', v') # bt_insert k v t)"

fun bt_remove :: "'k \<Rightarrow> ('k, 'v) btree \<Rightarrow> ('k, 'v) btree" where
  "bt_remove k [] = []"
| "bt_remove k ((k', v') # t) = (if k = k' then t else (k', v') # bt_remove k t)"

definition bt_get :: "('k, 'v) btree \<Rightarrow> 'k \<Rightarrow> 'v option" where
  "bt_get t k = map_of t k"

definition bt_contains_key :: "('k, 'v) btree \<Rightarrow> 'k \<Rightarrow> bool" where
  "bt_contains_key t k \<longleftrightarrow> map_of t k \<noteq> None"

text \<open>\<^verbatim>\<open>entry(k).or_default()\<close> followed by an update of the value in place.\<close>

definition bt_update_default :: "'k::linorder \<Rightarrow> 'v \<Rightarrow> ('v \<Rightarrow> 'v) \<Rightarrow> ('k, 'v) btree \<Rightarrow> ('k, 'v) btree" where
  "bt_update_default k d f t = bt_insert k (f (case bt_get t k of None \<Rightarrow> d | Some v \<Rightarrow> v)) t"

definition bt_inv :: "('k::linorder, 'v) btree \<Rightarrow> bool" where
  "bt_inv t \<longleftrightarrow> sorted_wrt (<) (map fst t)"

lemma bt_inv_simps [simp]:
  "bt_inv []" "bt_inv ((k, v) # t) \<longleftrightarrow> (\<forall>k' \<in> fst ` set t. k < k') \<and> bt_inv t"
  by (auto simp: bt_inv_def)

lemma bt_inv_distinct: "bt_inv t \<Longrightarrow> distinct (map fst t)"
  by (simp add: bt_inv_def strict_sorted_iff)

lemma set_bt_insert: "fst ` set (bt_insert k v t) = insert k (fst ` set t)"
  by (induction k v t rule: bt_insert.induct) auto

lemma bt_inv_insert: "bt_inv t \<Longrightarrow> bt_inv (bt_insert k v t)"
  by (induction k v t rule: bt_insert.induct) (auto simp: set_bt_insert)

lemma set_bt_remove: "fst ` set (bt_remove k t) \<subseteq> fst ` set t"
  by (induction k t rule: bt_remove.induct) auto

lemma bt_inv_remove: "bt_inv t \<Longrightarrow> bt_inv (bt_remove k t)"
  by (induction k t rule: bt_remove.induct) (use set_bt_remove in fastforce)+

lemma map_of_bt_insert: "bt_inv t \<Longrightarrow> map_of (bt_insert k v t) = (map_of t)(k \<mapsto> v)"
  by (induction k v t rule: bt_insert.induct) auto

lemma map_of_bt_remove: "bt_inv t \<Longrightarrow> map_of (bt_remove k t) = (map_of t)(k := None)"
proof (induction k t rule: bt_remove.induct)
  case (2 k k' v' t)
  have "k \<notin> fst ` set t" if "k = k'" using 2 that by auto
  then have "map_of t k = None" if "k = k'" using that by (simp add: map_of_eq_None_iff)
  then show ?case using 2 by (auto simp: fun_eq_iff)
qed simp

lemma bt_ext:
  assumes "bt_inv s" and "bt_inv t" and "map_of s = map_of t"
  shows "s = t"
proof -
  have d: "distinct (map fst s)" "distinct (map fst t)" using assms(1,2) by (simp_all add: bt_inv_distinct)
  with assms(3) have st: "set s = set t" by (simp add: map_of_inject_set)
  have "inj_on fst (set s \<union> set t)" using d(1) st by (simp add: distinct_map)
  with d assms(1,2) st show ?thesis
    by (intro map_sorted_distinct_set_unique [where f = fst]) (auto simp: bt_inv_def strict_sorted_iff)
qed

interpretation bt: map_interface bt_inv map_of bt_insert bt_remove
  by unfold_locales (simp_all add: bt_inv_insert bt_inv_remove map_of_bt_insert map_of_bt_remove bt_ext)

lemma bt_update_default_ok:
  assumes "bt_inv t"
  shows "bt_inv (bt_update_default k d f t)"
    "map_of (bt_update_default k d f t) = (map_of t)(k \<mapsto> f (case map_of t k of None \<Rightarrow> d | Some v \<Rightarrow> v))"
  using assms by (simp_all add: bt_update_default_def bt_get_def bt_inv_insert map_of_bt_insert)

lemma bt_keys_distinct: "bt_inv t \<Longrightarrow> distinct (map fst t)"
  by (rule bt_inv_distinct)

lemma bt_inv_filter: "bt_inv t \<Longrightarrow> bt_inv (filter P t)"
  by (auto simp: bt_inv_def sorted_wrt_map sorted_wrt_filter)

lemma map_of_filter_bt:
  assumes "bt_inv t"
  shows "map_of (filter (\<lambda>e. P (fst e) (snd e)) t) k = (case map_of t k of Some v \<Rightarrow> (if P k v then Some v else None) | None \<Rightarrow> None)"
  using assms
proof (induction t)
  case (Cons e t)
  obtain k' v where e: "e = (k', v)" by force
  show ?case
  proof (cases "k = k'")
    case True
    have "k' \<notin> fst ` set t" using Cons.prems by (auto simp: e)
    then have "map_of t k' = None" by (simp add: map_of_eq_None_iff)
    then show ?thesis using Cons True by (simp add: e)
  next
    case False
    then show ?thesis using Cons by (simp add: e)
  qed
qed simp

end
