(* ===== verification/CellDiff.thy ===== *)
theory CellDiff
  imports BTree CellTypes "HOL-Library.Product_Lexorder"
begin

text \<open>
  Cell state differences: \<^verbatim>\<open>consensus/core/src/cell_diff.rs\<close>.  A collection is a
  \<^verbatim>\<open>BTreeMap\<close> keyed by out points; a diff holds the created and the consumed cells.
  \<^verbatim>\<open>with_diff_in_place\<close> changes the diff while it runs and may fail half way, so the
  model returns the outcome together with the diff it leaves behind.
\<close>

section \<open>The order of out points\<close>

instantiation out_point_ext :: (linorder) linorder
begin

definition less_eq_out_point_ext :: "'a out_point_ext \<Rightarrow> 'a out_point_ext \<Rightarrow> bool" where
  "less_eq_out_point_ext a b \<longleftrightarrow>
     (op_tx_hash a, op_index a, out_point.more a) \<le> (op_tx_hash b, op_index b, out_point.more b)"

definition less_out_point_ext :: "'a out_point_ext \<Rightarrow> 'a out_point_ext \<Rightarrow> bool" where
  "less_out_point_ext a b \<longleftrightarrow>
     (op_tx_hash a, op_index a, out_point.more a) < (op_tx_hash b, op_index b, out_point.more b)"

instance
  by standard (auto simp: less_eq_out_point_ext_def less_out_point_ext_def intro: out_point.equality)

end

section \<open>Cells and diffs\<close>

record cell_meta =
  cm_out_point :: out_point
  cm_capacity :: "64 word"
  cm_data_bytes :: "64 word"
  cm_lock_hash :: byte32
  cm_type_hash :: "byte32 option"
  cm_data_hash :: byte32
  cm_block_daa_score :: "64 word"
  cm_is_cellbase :: bool
  cm_lock_script :: "script option"
  cm_type_script :: "script option"
  cm_data :: "bytes option"

type_synonym cell_collection = "(out_point, cell_meta) btree"

record cell_diff =
  cd_add :: cell_collection
  cd_remove :: cell_collection

definition meta_occupied_capacity :: "cell_meta \<Rightarrow> ('e, nat) res" where
  "meta_occupied_capacity c =
     add64 (8 + 32 + (if cm_type_hash c = None then 0 else 32) + 32) (unat (cm_data_bytes c))"

definition meta_verify_capacity :: "cell_meta \<Rightarrow> (capacity_error, unit) res" where
  "meta_verify_capacity c = rbind (meta_occupied_capacity c) (\<lambda>occupied.
     if unat (cm_capacity c) < occupied then Inl (Err (InsufficientCapacity occupied (unat (cm_capacity c)))) else Inr ())"

definition from_cell_metadata :: "64 word \<Rightarrow> 64 word \<Rightarrow> byte32 \<Rightarrow> byte32 option \<Rightarrow> byte32 \<Rightarrow> 64 word \<Rightarrow> bool \<Rightarrow> cell_meta" where
  "from_cell_metadata capacity data_bytes lock_hash type_hash data_hash block_daa_score cellbase =
     \<lparr>cm_out_point = out_point_new 0 0, cm_capacity = capacity, cm_data_bytes = data_bytes, cm_lock_hash = lock_hash,
      cm_type_hash = type_hash, cm_data_hash = data_hash, cm_block_daa_score = block_daa_score,
      cm_is_cellbase = cellbase, cm_lock_script = None, cm_type_script = None, cm_data = None\<rparr>"

definition with_resolved_metadata :: "cell_meta \<Rightarrow> script option \<Rightarrow> script option \<Rightarrow> bytes option \<Rightarrow> cell_meta" where
  "with_resolved_metadata c l t d = c\<lparr>cm_lock_script := l, cm_type_script := t, cm_data := d\<rparr>"

definition cell_diff_new :: cell_diff where
  "cell_diff_new = \<lparr>cd_add = [], cd_remove = []\<rparr>"

definition add_cell :: "cell_diff \<Rightarrow> out_point \<Rightarrow> cell_meta \<Rightarrow> cell_diff" where
  "add_cell d p c = d\<lparr>cd_add := bt_insert p c (cd_add d)\<rparr>"

definition remove_cell :: "cell_diff \<Rightarrow> out_point \<Rightarrow> cell_meta \<Rightarrow> cell_diff" where
  "remove_cell d p c = d\<lparr>cd_remove := bt_insert p c (cd_remove d)\<rparr>"

definition diff_is_empty :: "cell_diff \<Rightarrow> bool" where
  "diff_is_empty d \<longleftrightarrow> cd_add d = [] \<and> cd_remove d = []"

definition num_added :: "cell_diff \<Rightarrow> nat" where
  "num_added d = length (cd_add d)"

definition num_removed :: "cell_diff \<Rightarrow> nat" where
  "num_removed d = length (cd_remove d)"

definition reverse_diff :: "cell_diff \<Rightarrow> cell_diff" where
  "reverse_diff d = \<lparr>cd_add = cd_remove d, cd_remove = cd_add d\<rparr>"

definition as_reversed :: "cell_diff \<Rightarrow> cell_diff" where
  "as_reversed d = \<lparr>cd_add = cd_remove d, cd_remove = cd_add d\<rparr>"

definition apply_to :: "cell_diff \<Rightarrow> cell_collection \<Rightarrow> cell_collection" where
  "apply_to d base = fold (\<lambda>(p, c). bt_insert p c) (cd_add d) (fold bt_remove (map fst (cd_remove d)) base)"

datatype diff_error = RemovedTwice out_point | AddedTwice out_point

text \<open>The two loops of \<^verbatim>\<open>with_diff_in_place\<close>.\<close>

fun compose_removals :: "(out_point \<times> cell_meta) list \<Rightarrow> cell_diff \<Rightarrow> (diff_error, unit) res \<times> cell_diff" where
  "compose_removals [] d = (Inr (), d)"
| "compose_removals ((p, c) # es) d =
     (if bt_contains_key (cd_add d) p then compose_removals es (d\<lparr>cd_add := bt_remove p (cd_add d)\<rparr>)
      else if bt_contains_key (cd_remove d) p then (Inl (Err (RemovedTwice p)), d)
      else compose_removals es (d\<lparr>cd_remove := bt_insert p c (cd_remove d)\<rparr>))"

fun compose_additions :: "(out_point \<times> cell_meta) list \<Rightarrow> cell_diff \<Rightarrow> (diff_error, unit) res \<times> cell_diff" where
  "compose_additions [] d = (Inr (), d)"
| "compose_additions ((p, c) # es) d =
     (if bt_contains_key (cd_remove d) p then compose_additions es (d\<lparr>cd_remove := bt_remove p (cd_remove d)\<rparr>)
      else if bt_contains_key (cd_add d) p then (Inl (Err (AddedTwice p)), d)
      else compose_additions es (d\<lparr>cd_add := bt_insert p c (cd_add d)\<rparr>))"

definition with_diff_in_place :: "cell_diff \<Rightarrow> cell_diff \<Rightarrow> (diff_error, unit) res \<times> cell_diff" where
  "with_diff_in_place d other = (case compose_removals (cd_remove other) d of
     (Inl e, d') \<Rightarrow> (Inl e, d')
   | (Inr _, d') \<Rightarrow> compose_additions (cd_add other) d')"

definition merge_diff :: "cell_diff \<Rightarrow> cell_diff \<Rightarrow> (diff_error, cell_diff) res" where
  "merge_diff d other = (case with_diff_in_place d other of (Inr _, d') \<Rightarrow> Inr d' | (Inl _, _) \<Rightarrow> Inl Panic)"

text \<open>The sums are of \<^verbatim>\<open>u64\<close>, the casts reinterpret the bits, the subtraction is checked.\<close>

definition capacity_delta :: "cell_diff \<Rightarrow> ('e, int) res" where
  "capacity_delta d =
     rbind (sum64 (map (\<lambda>e. unat (cm_capacity (snd e))) (cd_add d))) (\<lambda>added.
     rbind (sum64 (map (\<lambda>e. unat (cm_capacity (snd e))) (cd_remove d))) (\<lambda>removed.
     let delta = sint (of_nat added :: 64 word) - sint (of_nat removed :: 64 word) in
     rbind (rassert (- (2 ^ 63) \<le> delta \<and> delta < 2 ^ 63)) (\<lambda>_. Inr delta)))"

definition from_collections :: "cell_collection \<Rightarrow> cell_collection \<Rightarrow> cell_diff" where
  "from_collections old new =
     (let d = fold (\<lambda>(p, c) d. if bt_contains_key new p then d else remove_cell d p c) old cell_diff_new in
      fold (\<lambda>(p, c) d. if bt_contains_key old p then d else add_cell d p c) new d)"

section \<open>Diffs as maps\<close>

definition diff_inv :: "cell_diff \<Rightarrow> bool" where
  "diff_inv d \<longleftrightarrow> bt_inv (cd_add d) \<and> bt_inv (cd_remove d)"

abbreviation adds :: "cell_diff \<Rightarrow> out_point \<rightharpoonup> cell_meta" where
  "adds d \<equiv> map_of (cd_add d)"

abbreviation removes :: "cell_diff \<Rightarrow> out_point \<rightharpoonup> cell_meta" where
  "removes d \<equiv> map_of (cd_remove d)"

lemma diff_eqI:
  assumes "diff_inv a" and "diff_inv b" and "adds a = adds b" and "removes a = removes b"
  shows "a = b"
proof (rule cell_diff.equality)
  show "cd_add a = cd_add b" using assms(1-3) by (auto simp: diff_inv_def intro: bt_ext)
  show "cd_remove a = cd_remove b" using assms(1,2,4) by (auto simp: diff_inv_def intro: bt_ext)
qed simp

lemma apply_to_ok:
  assumes "diff_inv d" and "bt_inv base"
  shows "bt_inv (apply_to d base)" "map_of (apply_to d base) = (map_of base |` (- dom (removes d))) ++ adds d"
proof -
  note del = bt.del_many [OF assms(2), of "map fst (cd_remove d)"]
  have dist: "distinct (map fst (cd_add d))" using assms(1) by (simp add: diff_inv_def bt_inv_distinct)
  have dom: "set (map fst (cd_remove d)) = dom (removes d)" by (simp add: dom_map_of_conv_image_fst)
  from bt.put_many [OF del [THEN conjunct1] dist] del show "bt_inv (apply_to d base)"
    "map_of (apply_to d base) = (map_of base |` (- dom (removes d))) ++ adds d"
    unfolding apply_to_def dom by auto
qed

text \<open>
  What a loop does: it succeeds exactly when \<open>ok\<close>, leaving the maps \<open>A\<close> and \<open>R\<close>; it
  fails with one of the errors \<open>e p\<close> otherwise.
\<close>

definition outcome :: "bool \<Rightarrow> (out_point \<rightharpoonup> cell_meta) \<Rightarrow> (out_point \<rightharpoonup> cell_meta) \<Rightarrow> (out_point \<Rightarrow> diff_error) \<Rightarrow>
    (diff_error, unit) res \<times> cell_diff \<Rightarrow> bool" where
  "outcome ok A R e r \<longleftrightarrow> diff_inv (snd r) \<and>
     (if ok then fst r = Inr () \<and> adds (snd r) = A \<and> removes (snd r) = R else (\<exists>p. fst r = Inl (Err (e p))))"

lemma compose_removals_outcome:
  assumes "diff_inv d" and "distinct (map fst es)"
  shows "outcome (dom (map_of es) \<inter> dom (removes d) \<subseteq> dom (adds d)) (adds d |` (- dom (map_of es)))
     (removes d ++ (map_of es |` (- dom (adds d)))) RemovedTwice (compose_removals es d)"
  using assms
proof (induction es d rule: compose_removals.induct)
  case (1 d)
  then show ?case by (simp add: outcome_def restrict_map_def)
next
  case (2 p c es d)
  have p: "map_of es p = None" using "2.prems"(2) by (simp add: map_of_eq_None_iff)
  have es: "distinct (map fst es)" using "2.prems"(2) by simp
  have inv: "bt_inv (cd_add d)" "bt_inv (cd_remove d)" using "2.prems"(1) by (simp_all add: diff_inv_def)
  consider (cancel) "bt_contains_key (cd_add d) p" | (twice) "\<not> bt_contains_key (cd_add d) p" "bt_contains_key (cd_remove d) p"
    | (fresh) "\<not> bt_contains_key (cd_add d) p" "\<not> bt_contains_key (cd_remove d) p" by blast
  then show ?case
  proof cases
    case cancel
    let ?d = "d\<lparr>cd_add := bt_remove p (cd_add d)\<rparr>"
    have di: "diff_inv ?d" using inv by (simp add: diff_inv_def bt_inv_remove)
    have m: "adds ?d = (adds d)(p := None)" "removes ?d = removes d" using inv by (simp_all add: map_of_bt_remove)
    have pa: "p \<in> dom (adds d)" using cancel by (auto simp: bt_contains_key_def)
    have step: "compose_removals ((p, c) # es) d = compose_removals es ?d" using cancel by simp
    have A: "(adds d)(p := None) |` (- dom (map_of es)) = adds d |` (- dom (map_of ((p, c) # es)))"
      by (auto simp: restrict_map_def fun_eq_iff)
    have R: "map_of es |` (- dom ((adds d)(p := None))) = map_of ((p, c) # es) |` (- dom (adds d))"
      using p pa by (auto simp: restrict_map_def fun_eq_iff)
    have ok: "(dom (map_of es) \<inter> dom (removes d) \<subseteq> dom ((adds d)(p := None))) =
        (dom (map_of ((p, c) # es)) \<inter> dom (removes d) \<subseteq> dom (adds d))"
      using p pa by auto
    show ?thesis using "2.IH"(1) [OF cancel di es] unfolding m step A R ok .
  next
    case twice
    then show ?thesis using "2.prems"(1) by (auto simp: bt_contains_key_def outcome_def)
  next
    case fresh
    let ?d = "d\<lparr>cd_remove := bt_insert p c (cd_remove d)\<rparr>"
    have di: "diff_inv ?d" using inv by (simp add: diff_inv_def bt_inv_insert)
    have m: "adds ?d = adds d" "removes ?d = (removes d)(p \<mapsto> c)" using inv by (simp_all add: map_of_bt_insert)
    have na: "p \<notin> dom (adds d)" "p \<notin> dom (removes d)" using fresh by (auto simp: bt_contains_key_def)
    have step: "compose_removals ((p, c) # es) d = compose_removals es ?d" using fresh by simp
    have A: "adds d |` (- dom (map_of es)) = adds d |` (- dom (map_of ((p, c) # es)))"
      using na by (auto simp: restrict_map_def fun_eq_iff)
    have R: "(removes d)(p \<mapsto> c) ++ (map_of es |` (- dom (adds d))) = removes d ++ (map_of ((p, c) # es) |` (- dom (adds d)))"
      using p na by (auto simp: restrict_map_def map_add_def fun_eq_iff split: option.splits)
    have ok: "(dom (map_of es) \<inter> dom ((removes d)(p \<mapsto> c)) \<subseteq> dom (adds d)) =
        (dom (map_of ((p, c) # es)) \<inter> dom (removes d) \<subseteq> dom (adds d))"
      using p na by auto
    show ?thesis using "2.IH"(2) [OF fresh di es] unfolding m step A R ok .
  qed
qed

text \<open>The second loop is the first one on the reversed diff.\<close>

lemma compose_additions_reversed:
  "compose_additions es d = (case compose_removals es (as_reversed d) of
     (Inr u, d') \<Rightarrow> (Inr u, as_reversed d')
   | (Inl f, d') \<Rightarrow> (Inl (case f of Err (RemovedTwice p) \<Rightarrow> Err (AddedTwice p) | _ \<Rightarrow> f), as_reversed d'))"
  by (induction es d rule: compose_additions.induct) (simp_all add: as_reversed_def)

lemma compose_additions_outcome:
  assumes "diff_inv d" and "distinct (map fst es)"
  shows "outcome (dom (map_of es) \<inter> dom (adds d) \<subseteq> dom (removes d)) (adds d ++ (map_of es |` (- dom (removes d))))
     (removes d |` (- dom (map_of es))) AddedTwice (compose_additions es d)"
proof -
  have "diff_inv (as_reversed d)" using assms(1) by (simp add: diff_inv_def as_reversed_def)
  from compose_removals_outcome [OF this assms(2)] show ?thesis
    unfolding compose_additions_reversed
    by (auto simp: outcome_def as_reversed_def diff_inv_def split: prod.splits sum.splits if_splits)
qed

text \<open>The whole composition, on maps.\<close>

definition composed_adds :: "cell_diff \<Rightarrow> cell_diff \<Rightarrow> out_point \<rightharpoonup> cell_meta" where
  "composed_adds d d2 = (adds d |` (- dom (removes d2))) ++
     (adds d2 |` (- (dom (removes d) \<union> (dom (removes d2) - dom (adds d)))))"

definition composed_removes :: "cell_diff \<Rightarrow> cell_diff \<Rightarrow> out_point \<rightharpoonup> cell_meta" where
  "composed_removes d d2 = (removes d ++ (removes d2 |` (- dom (adds d)))) |` (- dom (adds d2))"

definition removes_twice :: "cell_diff \<Rightarrow> cell_diff \<Rightarrow> bool" where
  "removes_twice d d2 \<longleftrightarrow> (\<exists>p. p \<in> dom (removes d) \<inter> dom (removes d2) \<and> p \<notin> dom (adds d))"

definition adds_twice :: "cell_diff \<Rightarrow> cell_diff \<Rightarrow> bool" where
  "adds_twice d d2 \<longleftrightarrow> (\<exists>p. p \<in> dom (adds d) \<inter> dom (adds d2) \<and> p \<notin> dom (removes d) \<union> dom (removes d2))"

lemma with_diff_in_place_outcome:
  assumes d: "diff_inv d" and d2: "diff_inv d2"
  shows "diff_inv (snd (with_diff_in_place d d2))"
    "removes_twice d d2 \<Longrightarrow> \<exists>p. fst (with_diff_in_place d d2) = Inl (Err (RemovedTwice p))"
    "\<not> removes_twice d d2 \<Longrightarrow> adds_twice d d2 \<Longrightarrow> \<exists>p. fst (with_diff_in_place d d2) = Inl (Err (AddedTwice p))"
    "\<not> removes_twice d d2 \<Longrightarrow> \<not> adds_twice d d2 \<Longrightarrow> fst (with_diff_in_place d d2) = Inr () \<and>
       adds (snd (with_diff_in_place d d2)) = composed_adds d d2 \<and> removes (snd (with_diff_in_place d d2)) = composed_removes d d2"
proof -
  have dist: "distinct (map fst (cd_remove d2))" "distinct (map fst (cd_add d2))"
    using d2 by (simp_all add: diff_inv_def bt_inv_distinct)
  obtain r d' where r: "compose_removals (cd_remove d2) d = (r, d')" by fastforce
  note o1 = compose_removals_outcome [OF d dist(1), unfolded r outcome_def fst_conv snd_conv]
  note o2 = compose_additions_outcome [OF o1 [THEN conjunct1] dist(2), unfolded outcome_def]
  have ok1: "(dom (removes d2) \<inter> dom (removes d) \<subseteq> dom (adds d)) = (\<not> removes_twice d d2)"
    by (auto simp: removes_twice_def)
  show "diff_inv (snd (with_diff_in_place d d2))"
    using o1 [THEN conjunct1] o2 [THEN conjunct1] by (simp add: with_diff_in_place_def r split: sum.splits)
  show "removes_twice d d2 \<Longrightarrow> \<exists>p. fst (with_diff_in_place d d2) = Inl (Err (RemovedTwice p))"
    using o1 unfolding ok1 by (auto simp: with_diff_in_place_def r)
  assume "\<not> removes_twice d d2"
  then have r2: "with_diff_in_place d d2 = compose_additions (cd_add d2) d'"
    and a: "adds d' = adds d |` (- dom (removes d2))" "removes d' = removes d ++ (removes d2 |` (- dom (adds d)))"
    using o1 unfolding ok1 by (auto simp: with_diff_in_place_def r)
  have ok2: "(dom (adds d2) \<inter> dom (adds d') \<subseteq> dom (removes d')) = (\<not> adds_twice d d2)"
    unfolding a by (auto simp: adds_twice_def)
  have ca: "adds d' ++ (adds d2 |` (- dom (removes d'))) = composed_adds d d2" unfolding a composed_adds_def
    by (rule arg_cong [where f = "\<lambda>S. _ ++ (_ |` S)"]) auto
  have cr: "removes d' |` (- dom (adds d2)) = composed_removes d d2" unfolding a composed_removes_def ..
  note o2' = o2 [unfolded ok2 ca cr, folded r2]
  show "adds_twice d d2 \<Longrightarrow> \<exists>p. fst (with_diff_in_place d d2) = Inl (Err (AddedTwice p))" using o2' by simp
  show "\<not> adds_twice d d2 \<Longrightarrow> fst (with_diff_in_place d d2) = Inr () \<and>
       adds (snd (with_diff_in_place d d2)) = composed_adds d d2 \<and> removes (snd (with_diff_in_place d d2)) = composed_removes d d2"
    using o2' by simp
qed

end
