(* ===== verification/CellDiffProps.thy ===== *)
theory CellDiffProps
  imports CellDiff
begin

text \<open>
  What cell diffs promise.  A diff is valid for a collection when it removes cells the
  collection has and adds cells it does not have.  Composing the diffs of a chain gives
  the diff of the whole chain, as long as an out point keeps its metadata along the
  chain; without that the composition forgets the new metadata.
\<close>

section \<open>Composition\<close>

definition diff_valid :: "cell_collection \<Rightarrow> cell_diff \<Rightarrow> bool" where
  "diff_valid B d \<longleftrightarrow> removes d \<subseteq>\<^sub>m map_of B \<and> dom (adds d) \<inter> dom (map_of B) = {}"

definition same_metadata :: "cell_diff \<Rightarrow> cell_diff \<Rightarrow> bool" where
  "same_metadata d d2 \<longleftrightarrow> (\<forall>p \<in> dom (removes d) \<inter> dom (adds d2). removes d p = adds d2 p)"

primrec valid_chain :: "cell_collection \<Rightarrow> cell_diff list \<Rightarrow> bool" where
  "valid_chain B [] \<longleftrightarrow> True"
| "valid_chain B (d # ds) \<longleftrightarrow> diff_inv d \<and> diff_valid B d \<and> valid_chain (apply_to d B) ds"

lemma diff_validD:
  assumes "diff_valid B d"
  shows "p \<in> dom (removes d) \<Longrightarrow> p \<in> dom (map_of B)" "p \<in> dom (adds d) \<Longrightarrow> p \<notin> dom (map_of B)"
    "removes d p = Some c \<Longrightarrow> map_of B p = Some c"
  using assms by (auto simp: diff_valid_def map_le_def dom_def)

lemma diff_inv_new [simp]: "diff_inv cell_diff_new" and diff_valid_new [simp]: "diff_valid B cell_diff_new"
  by (simp_all add: diff_inv_def cell_diff_new_def diff_valid_def bt_inv_def)

lemma apply_to_new [simp]: "apply_to cell_diff_new B = B"
  by (simp add: apply_to_def cell_diff_new_def)

lemma composed_ok:
  assumes v1: "diff_valid B d1" and v2: "diff_valid B' d2"
    and B': "map_of B' = (map_of B |` (- dom (removes d1))) ++ adds d1"
  shows "composed_removes d1 d2 \<subseteq>\<^sub>m map_of B" "dom (composed_adds d1 d2) \<inter> dom (map_of B) = {}"
    "\<not> removes_twice d1 d2" "\<not> adds_twice d1 d2"
proof -
  have r1: "map_of B p = Some c" if "removes d1 p = Some c" for p c using diff_validD(3) [OF v1 that] .
  have a1: "map_of B p = None" if "adds d1 p = Some c" for p c using diff_validD(2) [OF v1, of p] that by auto
  have r2: "map_of B' p = Some c" if "removes d2 p = Some c" for p c using diff_validD(3) [OF v2 that] .
  have a2: "map_of B' p = None" if "adds d2 p = Some c" for p c using diff_validD(2) [OF v2, of p] that by auto
  note B'p = B' [unfolded fun_eq_iff, rule_format]
  show "\<not> removes_twice d1 d2" unfolding removes_twice_def
  proof
    assume "\<exists>p. p \<in> dom (removes d1) \<inter> dom (removes d2) \<and> p \<notin> dom (adds d1)"
    then obtain p c c2 where "removes d1 p = Some c" "removes d2 p = Some c2" "adds d1 p = None" by auto
    with r2 [of p c2] B'p [of p] show False by (auto simp: map_add_def restrict_map_def split: if_splits)
  qed
  show "\<not> adds_twice d1 d2" unfolding adds_twice_def
  proof
    assume "\<exists>p. p \<in> dom (adds d1) \<inter> dom (adds d2) \<and> p \<notin> dom (removes d1) \<union> dom (removes d2)"
    then obtain p c c2 where "adds d1 p = Some c" "adds d2 p = Some c2" by auto
    with a2 [of p c2] B'p [of p] show False by (auto simp: map_add_def)
  qed
  show "composed_removes d1 d2 \<subseteq>\<^sub>m map_of B"
  proof (unfold map_le_def, intro ballI)
    fix p assume "p \<in> dom (composed_removes d1 d2)"
    then obtain c where c: "composed_removes d1 d2 p = Some c" by auto
    show "composed_removes d1 d2 p = map_of B p"
    proof (cases "removes d2 p")
      case None
      then show ?thesis using c r1 by (auto simp: composed_removes_def restrict_map_def map_add_def split: if_splits)
    next
      case (Some c2)
      with r2 [of p c2] B'p [of p] c r1 show ?thesis
        by (auto simp: composed_removes_def restrict_map_def map_add_def split: if_splits option.splits)
    qed
  qed
  show "dom (composed_adds d1 d2) \<inter> dom (map_of B) = {}"
  proof (rule equals0I)
    fix p assume "p \<in> dom (composed_adds d1 d2) \<inter> dom (map_of B)"
    then obtain c b where c: "composed_adds d1 d2 p = Some c" and b: "map_of B p = Some b" by auto
    from b a1 have n1: "adds d1 p = None" by (cases "adds d1 p") auto
    with c have a: "adds d2 p = Some c" "p \<notin> dom (removes d1)"
      by (auto simp: composed_adds_def map_add_def restrict_map_def split: option.splits if_splits)
    with a2 [OF a(1)] B'p [of p] b n1 show False by (auto simp: map_add_def restrict_map_def)
  qed
qed

lemma composed_apply_iff:
  assumes v1: "diff_valid B d1" and v2: "diff_valid B' d2"
    and B': "map_of B' = (map_of B |` (- dom (removes d1))) ++ adds d1"
  shows "(map_of B |` (- dom (composed_removes d1 d2))) ++ composed_adds d1 d2 = (map_of B' |` (- dom (removes d2))) ++ adds d2 \<longleftrightarrow>
    same_metadata d1 d2" (is "?l = ?r \<longleftrightarrow> _")
proof -
  have "?l p = ?r p \<longleftrightarrow> (p \<in> dom (removes d1) \<inter> dom (adds d2) \<longrightarrow> removes d1 p = adds d2 p)" for p
  proof -
    have r1: "map_of B p = Some c" if "removes d1 p = Some c" for c using diff_validD(3) [OF v1 that] .
    have a1: "map_of B p = None" if "adds d1 p = Some c" for c using diff_validD(2) [OF v1, of p] that by auto
    have r2: "map_of B' p = Some c" if "removes d2 p = Some c" for c using diff_validD(3) [OF v2 that] .
    have a2: "map_of B' p = None" if "adds d2 p = Some c" for c using diff_validD(2) [OF v2, of p] that by auto
    show ?thesis using r1 a1 r2 a2 B' [THEN fun_cong, of p]
      by (cases "removes d1 p"; cases "adds d1 p"; cases "removes d2 p"; cases "adds d2 p")
        (auto simp: composed_adds_def composed_removes_def map_add_def restrict_map_def dom_def)
  qed
  then show ?thesis unfolding fun_eq_iff [of ?l ?r] same_metadata_def by blast
qed

lemma with_diff_in_place_ok:
  assumes B: "bt_inv B" and d1: "diff_inv d1" "diff_valid B d1" and d2: "diff_inv d2" "diff_valid (apply_to d1 B) d2"
  obtains d where "with_diff_in_place d1 d2 = (Inr (), d)" "diff_inv d" "diff_valid B d"
    "(apply_to d B = apply_to d2 (apply_to d1 B)) = same_metadata d1 d2" "adds d = composed_adds d1 d2" "removes d = composed_removes d1 d2"
proof -
  note B' = apply_to_ok [OF d1(1) B]
  note c = composed_ok [OF d1(2) d2(2) B'(2)]
  obtain d where d: "with_diff_in_place d1 d2 = (Inr (), d)" "adds d = composed_adds d1 d2" "removes d = composed_removes d1 d2"
    using with_diff_in_place_outcome(4) [OF d1(1) d2(1) c(3,4)] by (cases "with_diff_in_place d1 d2") auto
  have di: "diff_inv d" using with_diff_in_place_outcome(1) [OF d1(1) d2(1)] by (simp add: d(1))
  have "apply_to d B = apply_to d2 (apply_to d1 B) \<longleftrightarrow> map_of (apply_to d B) = map_of (apply_to d2 (apply_to d1 B))"
    using bt_ext [OF apply_to_ok(1) [OF di B] apply_to_ok(1) [OF d2(1) B'(1)]] by auto
  then have "(apply_to d B = apply_to d2 (apply_to d1 B)) = same_metadata d1 d2"
    unfolding apply_to_ok(2) [OF di B] apply_to_ok(2) [OF d2(1) B'(1)] d(2,3) composed_apply_iff [OF d1(2) d2(2) B'(2)] .
  moreover have "diff_valid B d" unfolding diff_valid_def d(2,3) using c(1,2) by blast
  ultimately show ?thesis using d di that by blast
qed

section \<open>Chains of diffs\<close>

definition metadata_in :: "(out_point \<rightharpoonup> cell_meta) \<Rightarrow> cell_diff \<Rightarrow> bool" where
  "metadata_in m d \<longleftrightarrow> adds d \<subseteq>\<^sub>m m \<and> removes d \<subseteq>\<^sub>m m"

lemma metadata_in_same: "metadata_in m d \<Longrightarrow> metadata_in m d2 \<Longrightarrow> same_metadata d d2"
  by (auto simp: metadata_in_def same_metadata_def map_le_def)

lemma metadata_in_composed:
  assumes "metadata_in m d" and "metadata_in m d2" and "adds d' = composed_adds d d2" and "removes d' = composed_removes d d2"
  shows "metadata_in m d'"
proof -
  have e: "m p = Some c" if "adds d p = Some c \<or> removes d p = Some c \<or> adds d2 p = Some c \<or> removes d2 p = Some c" for p c
    using assms(1,2) that by (auto simp: metadata_in_def map_le_def dom_def)
  have "m p = Some c" if "adds d' p = Some c \<or> removes d' p = Some c" for p c
    using that e [of p c] unfolding assms(3,4)
    by (auto simp: composed_adds_def composed_removes_def restrict_map_def map_add_def split: if_splits option.splits)
  then show ?thesis by (fastforce simp: metadata_in_def map_le_def)
qed

lemma merge_diff_chain:
  assumes "bt_inv B" and "diff_inv d0" and "diff_valid B d0" and "valid_chain (apply_to d0 B) ds"
    and "metadata_in m d0" and "list_all (metadata_in m) ds"
  shows "\<exists>d. rfold merge_diff d0 ds = Inr d \<and> diff_valid B d \<and> apply_to d B = fold apply_to ds (apply_to d0 B)"
  using assms
proof (induction ds arbitrary: d0)
  case (Cons d2 ds)
  from Cons.prems have d2: "diff_inv d2" "diff_valid (apply_to d0 B) d2" "metadata_in m d2"
    and rest: "valid_chain (apply_to d2 (apply_to d0 B)) ds" "list_all (metadata_in m) ds" by simp_all
  obtain d where d: "with_diff_in_place d0 d2 = (Inr (), d)" "diff_inv d" "diff_valid B d"
    "apply_to d B = apply_to d2 (apply_to d0 B)" "adds d = composed_adds d0 d2" "removes d = composed_removes d0 d2"
    using with_diff_in_place_ok [OF Cons.prems(1-3) d2(1,2)] metadata_in_same [OF Cons.prems(5) d2(3)] by metis
  have "metadata_in m d" by (rule metadata_in_composed [OF Cons.prems(5) d2(3) d(5,6)])
  from Cons.IH [OF Cons.prems(1) d(2,3) rest(1) [folded d(4)] this rest(2)] d(1,4)
  show ?case by (simp add: merge_diff_def)
qed simp

lemma reversed_ok:
  assumes "bt_inv B" and "diff_inv d" and "diff_valid B d"
  shows "apply_to (as_reversed d) (apply_to d B) = B" "diff_inv (as_reversed d)" "diff_valid (apply_to d B) (as_reversed d)"
proof -
  note B' = apply_to_ok [OF assms(2,1)]
  show di: "diff_inv (as_reversed d)" using assms(2) by (simp add: diff_inv_def as_reversed_def)
  have r1: "map_of B p = Some c" if "removes d p = Some c" for p c using diff_validD(3) [OF assms(3) that] .
  have a1: "map_of B p = None" if "adds d p = Some c" for p c using diff_validD(2) [OF assms(3), of p] that by auto
  have "map_of (apply_to (as_reversed d) (apply_to d B)) = map_of B"
  proof
    fix p
    show "map_of (apply_to (as_reversed d) (apply_to d B)) p = map_of B p"
      unfolding apply_to_ok(2) [OF di B'(1)] B'(2) using r1 [of p] a1 [of p]
      by (cases "removes d p"; cases "adds d p") (auto simp: as_reversed_def map_add_def restrict_map_def)
  qed
  then show "apply_to (as_reversed d) (apply_to d B) = B" by (rule bt_ext [OF apply_to_ok(1) [OF di B'(1)] assms(1)])
  have "removes (as_reversed d) p = map_of (apply_to d B) p" if "p \<in> dom (removes (as_reversed d))" for p
    using that unfolding B'(2) by (auto simp: as_reversed_def map_add_def)
  moreover have "p \<notin> dom (map_of (apply_to d B))" if "p \<in> dom (adds (as_reversed d))" for p
    using that r1 [of p] a1 [of p] unfolding B'(2)
    by (cases "adds d p") (auto simp: as_reversed_def map_add_def restrict_map_def split: if_splits)
  ultimately show "diff_valid (apply_to d B) (as_reversed d)" by (auto simp: diff_valid_def map_le_def)
qed

section \<open>Differences of collections\<close>

lemma fold_remove_cell:
  "fold (\<lambda>(p, c) d. if Q p then d else remove_cell d p c) xs d =
     d\<lparr>cd_remove := fold (\<lambda>(p, c). bt_insert p c) (filter (\<lambda>e. \<not> Q (fst e)) xs) (cd_remove d)\<rparr>"
  by (induction xs arbitrary: d) (auto simp: remove_cell_def)

lemma fold_add_cell:
  "fold (\<lambda>(p, c) d. if Q p then d else add_cell d p c) xs d =
     d\<lparr>cd_add := fold (\<lambda>(p, c). bt_insert p c) (filter (\<lambda>e. \<not> Q (fst e)) xs) (cd_add d)\<rparr>"
  by (induction xs arbitrary: d) (auto simp: add_cell_def)

lemma fold_bt_insert_filter:
  assumes "bt_inv t"
  shows "bt_inv (fold (\<lambda>(p, c). bt_insert p c) (filter (\<lambda>e. P (fst e)) t) [])"
    "map_of (fold (\<lambda>(p, c). bt_insert p c) (filter (\<lambda>e. P (fst e)) t) []) = map_of t |` Collect P"
proof -
  have "distinct (map fst (filter (\<lambda>e. P (fst e)) t))" using bt_inv_filter [OF assms] by (rule bt_inv_distinct)
  note pm = bt.put_many [OF _ this, of "[]"]
  moreover have "map_of (filter (\<lambda>e. P (fst e)) t) = map_of t |` Collect P"
    using map_of_filter_bt [OF assms, of "\<lambda>k _. P k"] by (auto simp: fun_eq_iff restrict_map_def split: option.splits)
  ultimately show "bt_inv (fold (\<lambda>(p, c). bt_insert p c) (filter (\<lambda>e. P (fst e)) t) [])"
    "map_of (fold (\<lambda>(p, c). bt_insert p c) (filter (\<lambda>e. P (fst e)) t) []) = map_of t |` Collect P" by simp_all
qed

lemma from_collections_ok:
  assumes "bt_inv old" and "bt_inv new"
  shows "diff_inv (from_collections old new)" "diff_valid old (from_collections old new)"
    "adds (from_collections old new) = map_of new |` (- dom (map_of old))"
    "removes (from_collections old new) = map_of old |` (- dom (map_of new))"
proof -
  have Q: "Collect (\<lambda>p. \<not> bt_contains_key t p) = - dom (map_of t)" for t :: cell_collection
    by (auto simp: bt_contains_key_def)
  have f: "from_collections old new =
     \<lparr>cd_add = fold (\<lambda>(p, c). bt_insert p c) (filter (\<lambda>e. \<not> bt_contains_key old (fst e)) new) [],
      cd_remove = fold (\<lambda>(p, c). bt_insert p c) (filter (\<lambda>e. \<not> bt_contains_key new (fst e)) old) []\<rparr>"
    unfolding from_collections_def Let_def fold_remove_cell fold_add_cell by (simp add: cell_diff_new_def)
  note n = fold_bt_insert_filter [OF assms(2), of "\<lambda>p. \<not> bt_contains_key old p", unfolded Q]
    and o = fold_bt_insert_filter [OF assms(1), of "\<lambda>p. \<not> bt_contains_key new p", unfolded Q]
  show "diff_inv (from_collections old new)" "adds (from_collections old new) = map_of new |` (- dom (map_of old))"
    "removes (from_collections old new) = map_of old |` (- dom (map_of new))" using n o by (simp_all add: diff_inv_def f)
  then show "diff_valid old (from_collections old new)" by (auto simp: diff_valid_def map_le_def)
qed

section \<open>Capacity\<close>

definition total_capacity :: "cell_collection \<Rightarrow> nat" where
  "total_capacity B = sum_list (map (\<lambda>e. unat (cm_capacity (snd e))) B)"

lemma total_capacity_sum:
  assumes "bt_inv B"
  shows "total_capacity B = (\<Sum>p \<in> dom (map_of B). unat (cm_capacity (the (map_of B p))))"
proof -
  have d: "distinct (map fst B)" using assms by (rule bt_inv_distinct)
  have "sum_list (map (\<lambda>e. unat (cm_capacity (snd e))) B) = (\<Sum>e \<in> set B. unat (cm_capacity (snd e)))"
    using d by (simp add: sum_list_distinct_conv_sum_set distinct_map)
  also have "\<dots> = (\<Sum>p \<in> fst ` set B. unat (cm_capacity (the (map_of B p))))"
    using d by (subst sum.reindex) (auto simp: distinct_map map_of_is_SomeI intro!: sum.cong)
  finally show ?thesis by (simp add: total_capacity_def dom_map_of_conv_image_fst)
qed

lemma total_capacity_apply:
  assumes B: "bt_inv B" and d: "diff_inv d" and v: "diff_valid B d"
  shows "total_capacity (apply_to d B) + total_capacity (cd_remove d) = total_capacity B + total_capacity (cd_add d)"
proof -
  let ?f = "\<lambda>m p. unat (cm_capacity (the (m p)))"
  note B' = apply_to_ok [OF d B]
  have R: "dom (removes d) \<subseteq> dom (map_of B)" and A: "dom (adds d) \<inter> dom (map_of B) = {}"
    using diff_validD [OF v] by auto
  have dB': "dom (map_of (apply_to d B)) = (dom (map_of B) - dom (removes d)) \<union> dom (adds d)" unfolding B'(2) by auto
  have "total_capacity (apply_to d B) = (\<Sum>p \<in> (dom (map_of B) - dom (removes d)) \<union> dom (adds d). ?f (map_of (apply_to d B)) p)"
    unfolding total_capacity_sum [OF B'(1)] dB' ..
  also have "\<dots> = (\<Sum>p \<in> dom (map_of B) - dom (removes d). ?f (map_of (apply_to d B)) p) + (\<Sum>p \<in> dom (adds d). ?f (map_of (apply_to d B)) p)"
    using A by (intro sum.union_disjoint) (auto simp: finite_dom_map_of)
  also have "(\<Sum>p \<in> dom (adds d). ?f (map_of (apply_to d B)) p) = total_capacity (cd_add d)"
    unfolding B'(2) using d by (auto simp: total_capacity_sum diff_inv_def intro!: sum.cong)
  also have "(\<Sum>p \<in> dom (map_of B) - dom (removes d). ?f (map_of (apply_to d B)) p) = (\<Sum>p \<in> dom (map_of B) - dom (removes d). ?f (map_of B) p)"
    unfolding B'(2) using A by (intro sum.cong) (auto simp: map_add_def restrict_map_def split: option.splits)
  finally have 1: "total_capacity (apply_to d B) = (\<Sum>p \<in> dom (map_of B) - dom (removes d). ?f (map_of B) p) + total_capacity (cd_add d)" .
  have "(\<Sum>p \<in> dom (removes d). ?f (map_of B) p) = total_capacity (cd_remove d)"
    using d diff_validD(3) [OF v] by (auto simp: total_capacity_sum diff_inv_def intro!: sum.cong)
  moreover have "total_capacity B = (\<Sum>p \<in> dom (map_of B) - dom (removes d). ?f (map_of B) p) + (\<Sum>p \<in> dom (removes d). ?f (map_of B) p)"
    unfolding total_capacity_sum [OF B] by (rule sum.subset_diff [OF R]) (simp add: finite_dom_map_of)
  ultimately show ?thesis using 1 by linarith
qed

lemma capacity_delta_small:
  assumes "total_capacity (cd_add d) < 2 ^ 63" and "total_capacity (cd_remove d) < 2 ^ 63"
  shows "capacity_delta d = Inr (int (total_capacity (cd_add d)) - int (total_capacity (cd_remove d)))"
proof -
  have s: "sint (of_nat n :: 64 word) = int n" if "n < 2 ^ 63" for n :: nat
    using that by (simp add: sint_uint unsigned_of_nat take_bit_nat_eq_self signed_take_bit_int_eq_self take_bit_int_eq_self)
  show ?thesis using assms by (simp add: capacity_delta_def s rassert_def flip: total_capacity_def)
qed

section \<open>Properties\<close>

text \<open>
  C14: the diffs of a chain that is valid from \<open>B\<close> on, in which every out point always carries the
  same metadata, compose: \<^verbatim>\<open>merge\<close> never panics, and applying the composed diff to \<open>B\<close> gives
  the collection that applying the diffs one after the other gives.
\<close>

theorem diff_chain_replay:
  assumes "bt_inv B" and "valid_chain B ds" and "list_all (metadata_in m) ds"
  shows "\<exists>d. rfold merge_diff cell_diff_new ds = Inr d \<and> diff_valid B d \<and> apply_to d B = fold apply_to ds B"
proof -
  have "metadata_in m cell_diff_new" by (simp add: metadata_in_def cell_diff_new_def)
  from merge_diff_chain [OF assms(1) diff_inv_new diff_valid_new _ this assms(3)] assms(2) show ?thesis by simp
qed

text \<open>The sample cells of the witnesses.\<close>

definition sample_cell :: "nat \<Rightarrow> cell_meta" where
  "sample_cell daa = from_cell_metadata 100 0 0 None 0 (of_nat daa) False"

abbreviation p1 :: out_point where "p1 \<equiv> out_point_new 1 0"
abbreviation p2 :: out_point where "p2 \<equiv> out_point_new 2 0"

definition spend_create :: cell_diff where
  "spend_create = add_cell (remove_cell cell_diff_new p1 (sample_cell 1)) p2 (sample_cell 2)"

definition spend_recreate :: cell_diff where
  "spend_recreate = add_cell (remove_cell cell_diff_new p2 (sample_cell 2)) p1 (sample_cell 1)"

lemmas sample_defs = spend_create_def spend_recreate_def sample_cell_def from_cell_metadata_def out_point_new_def add_cell_def
  remove_cell_def cell_diff_new_def diff_inv_def diff_valid_def bt_inv_def map_le_def apply_to_def metadata_in_def same_metadata_def

theorem diff_chain_replay_witness:
  "\<exists>d. rfold merge_diff cell_diff_new [spend_create, spend_recreate] = Inr d \<and> diff_valid [(p1, sample_cell 1)] d \<and>
     apply_to d [(p1, sample_cell 1)] = fold apply_to [spend_create, spend_recreate] [(p1, sample_cell 1)]"
  by (rule diff_chain_replay [where m = "[p1 \<mapsto> sample_cell 1, p2 \<mapsto> sample_cell 2]"]) (simp_all add: sample_defs)

text \<open>
  C15: composing two diffs that are valid one after the other always succeeds, but the composed
  diff has the effect of the two exactly when every cell that the first one removes and the
  second one adds again comes back with the metadata it had.
\<close>

theorem compose_exact_iff:
  assumes "bt_inv B" and "diff_inv d1" and "diff_valid B d1" and "diff_inv d2" and "diff_valid (apply_to d1 B) d2"
  shows "\<exists>d. with_diff_in_place d1 d2 = (Inr (), d) \<and>
    (apply_to d B = apply_to d2 (apply_to d1 B) \<longleftrightarrow> same_metadata d1 d2)"
  by (rule with_diff_in_place_ok [OF assms]) blast

theorem compose_exact_iff_witness:
  "\<exists>d. with_diff_in_place (remove_cell cell_diff_new p1 (sample_cell 1)) (add_cell cell_diff_new p1 (sample_cell 2)) = (Inr (), d) \<and>
    apply_to d [(p1, sample_cell 1)] \<noteq> [(p1, sample_cell 2)]"
  using compose_exact_iff [of "[(p1, sample_cell 1)]" "remove_cell cell_diff_new p1 (sample_cell 1)" "add_cell cell_diff_new p1 (sample_cell 2)"]
  by (simp add: sample_defs)

text \<open>
  C16: walking a valid chain of diffs backwards with the reversed diffs restores the collection it
  started from.
\<close>

theorem reverse_chain_roundtrip:
  assumes "bt_inv B" and "valid_chain B ds"
  shows "fold apply_to (map as_reversed (rev ds)) (fold apply_to ds B) = B"
  using assms
proof (induction ds arbitrary: B)
  case (Cons d ds)
  then have "bt_inv (apply_to d B)" by (simp add: apply_to_ok)
  with Cons reversed_ok(1) [of B d] show ?case by simp
qed simp

theorem reverse_chain_roundtrip_witness:
  "fold apply_to (map as_reversed (rev [spend_create, spend_recreate])) (fold apply_to [spend_create, spend_recreate] [(p1, sample_cell 1)]) =
    [(p1, sample_cell 1)]"
  by (rule reverse_chain_roundtrip) (simp_all add: sample_defs)

text \<open>
  C17: composing fails exactly when an out point is removed twice, or added twice without a removal
  in between, and the error names which of the two it was.
\<close>

theorem compose_error_exact:
  assumes "diff_inv d1" and "diff_inv d2"
  shows "case fst (with_diff_in_place d1 d2) of
      Inr _ \<Rightarrow> \<not> removes_twice d1 d2 \<and> \<not> adds_twice d1 d2
    | Inl (Err (RemovedTwice p)) \<Rightarrow> removes_twice d1 d2
    | Inl (Err (AddedTwice p)) \<Rightarrow> \<not> removes_twice d1 d2 \<and> adds_twice d1 d2
    | Inl _ \<Rightarrow> False"
  using with_diff_in_place_outcome [OF assms] by (cases "removes_twice d1 d2"; cases "adds_twice d1 d2") auto

theorem compose_error_exact_witness:
  "fst (with_diff_in_place spend_create spend_create) = Inl (Err (RemovedTwice p1)) \<and> removes_twice spend_create spend_create"
proof -
  have w: "fst (with_diff_in_place spend_create spend_create) = Inl (Err (RemovedTwice p1))"
    by (simp add: with_diff_in_place_def sample_defs bt_contains_key_def)
  have "diff_inv spend_create" by (simp add: sample_defs)
  from compose_error_exact [OF this this] show ?thesis by (simp add: w)
qed


text \<open>
  C19: the diff computed from two collections leads from the first to the second exactly when the
  out points they share have the same metadata in both.
\<close>

theorem from_collections_exact_iff:
  assumes "bt_inv old" and "bt_inv new"
  shows "apply_to (from_collections old new) old = new \<longleftrightarrow>
    (\<forall>p \<in> dom (map_of old) \<inter> dom (map_of new). map_of old p = map_of new p)"
proof -
  note f = from_collections_ok [OF assms]
  note a = apply_to_ok [OF f(1) assms(1), unfolded f(3,4)]
  have "apply_to (from_collections old new) old = new \<longleftrightarrow> map_of (apply_to (from_collections old new) old) = map_of new"
    using bt_ext [OF a(1) assms(2)] by auto
  also have "\<dots> \<longleftrightarrow> (\<forall>p. (p \<in> dom (map_of old) \<inter> dom (map_of new) \<longrightarrow> map_of old p = map_of new p))"
    unfolding a(2) fun_eq_iff by (intro all_cong1) (auto simp: map_add_def restrict_map_def split: option.splits if_splits)
  finally show ?thesis by blast
qed

theorem from_collections_exact_iff_witness:
  "apply_to (from_collections [(p1, sample_cell 1)] [(p1, sample_cell 1), (p2, sample_cell 2)]) [(p1, sample_cell 1)] =
     [(p1, sample_cell 1), (p2, sample_cell 2)]"
  using from_collections_exact_iff [of "[(p1, sample_cell 1)]" "[(p1, sample_cell 1), (p2, sample_cell 2)]"]
  by (simp add: sample_defs less_out_point_ext_def)

text \<open>
  C20: the signed capacity delta of a valid diff is the change of the total capacity of the
  collection it is applied to, while the totals stay below \<open>2 ^ 63\<close>.
\<close>

theorem capacity_delta_correct:
  assumes "bt_inv B" and "diff_inv d" and "diff_valid B d"
    and "total_capacity (cd_add d) < 2 ^ 63" and "total_capacity (cd_remove d) < 2 ^ 63"
  shows "capacity_delta d = Inr (int (total_capacity (apply_to d B)) - int (total_capacity B))"
  unfolding capacity_delta_small [OF assms(4,5)] using total_capacity_apply [OF assms(1-3)] by simp

theorem capacity_delta_correct_witness:
  "capacity_delta spend_create =
     Inr (int (total_capacity (apply_to spend_create [(p1, sample_cell 1)])) - int (total_capacity [(p1, sample_cell 1)]))"
  by (rule capacity_delta_correct) (simp_all add: sample_defs total_capacity_def)

end
