(* ===== verification/Sighash.thy ===== *)
theory Sighash
  imports CellTypes
begin

text \<open>
  Transaction identifiers and signature hashes: \<^verbatim>\<open>exec/src/celltx/sighash.rs\<close>, with the
  sighash flags and the cache of shared sub-hashes of
  \<^verbatim>\<open>consensus/core/src/hashing\<close> and the domain-separated hashers of
  \<^verbatim>\<open>crypto/hashes/src/hashers.rs\<close>.  BLAKE3 and SHA-256 are parameters; a hasher is the
  string of the bytes it was fed.
\<close>

section \<open>Self-delimiting encodings\<close>

text \<open>Strings that start with the encodings of two good values agree on the value and on the rest.\<close>

locale self_delimiting =
  fixes enc :: "'a \<Rightarrow> bytes" and good :: "'a \<Rightarrow> bool"
  assumes uniq: "good a \<Longrightarrow> good b \<Longrightarrow> enc a @ x = enc b @ y \<Longrightarrow> a = b \<and> x = y"
begin

lemma list_uniq:
  "length as = length bs \<Longrightarrow> list_all good as \<Longrightarrow> list_all good bs \<Longrightarrow>
     concat (map enc as) @ x = concat (map enc bs) @ y \<Longrightarrow> as = bs \<and> x = y"
proof (induction as bs rule: list_induct2)
  case (Cons a as b bs)
  from Cons.prems have "enc a @ concat (map enc as) @ x = enc b @ concat (map enc bs) @ y" "good a" "good b" by simp_all
  from uniq [OF this(2,3,1)] Cons show ?case by simp
qed simp

lemma counted_uniq:
  assumes "length as < 2 ^ 32" and "length bs < 2 ^ 32" and "list_all good as" and "list_all good bs"
    and "len32 (length as) @ concat (map enc as) @ x = len32 (length bs) @ concat (map enc bs) @ y"
  shows "as = bs \<and> x = y"
proof -
  from assms(5) have "len32 (length as) = len32 (length bs)" and r: "concat (map enc as) @ x = concat (map enc bs) @ y"
    by simp_all
  then have "length as = length bs" using assms(1,2) by (simp add: len32_inject)
  from list_uniq [OF this assms(3,4) r] show ?thesis .
qed

lemma concat_uniq:
  assumes "\<And>a. enc a \<noteq> []"
  shows "list_all good as \<Longrightarrow> list_all good bs \<Longrightarrow> concat (map enc as) = concat (map enc bs) \<Longrightarrow> as = bs"
proof (induction as arbitrary: bs)
  case Nil
  from Nil.prems(3) show ?case by (cases bs) (auto simp: assms)
next
  case (Cons a as)
  from Cons.prems(3) obtain b bs' where b: "bs = b # bs'" by (cases bs) (auto simp: assms)
  have e: "enc a @ concat (map enc as) = enc b @ concat (map enc bs')" and g: "good a" "good b" "list_all good as" "list_all good bs'"
    using Cons.prems by (simp_all add: b)
  note u = uniq [OF g(1,2) e]
  from Cons.IH [OF g(3,4)] u show ?case by (simp add: b)
qed

end

section \<open>The bytes of a transaction\<close>

definition CELL_TXID_DOMAIN :: bytes where "CELL_TXID_DOMAIN = ascii ''spora-cell/txid''"
definition CELL_WTXID_DOMAIN :: bytes where "CELL_WTXID_DOMAIN = ascii ''spora-cell/wtxid''"
definition CELL_SIG_DOMAIN :: bytes where "CELL_SIG_DOMAIN = ascii ''spora-cell/sig''"

definition bytes32 :: "bytes \<Rightarrow> bytes" where
  "bytes32 bs = len32 (length bs) @ bs"

definition input_bytes :: "cell_input \<Rightarrow> bytes" where
  "input_bytes i = hash_bytes (op_tx_hash (ci_previous_output i)) @ le32 (op_index (ci_previous_output i)) @ le64 (ci_since i)"

definition dep_bytes :: "cell_dep \<Rightarrow> bytes" where
  "dep_bytes d = hash_bytes (op_tx_hash (cd_out_point d)) @ le32 (op_index (cd_out_point d)) @ [dep_type_byte (cd_dep_type d)]"

definition script_bytes :: "script \<Rightarrow> bytes" where
  "script_bytes s = hash_bytes (sc_code_hash s) @ [sc_hash_type s] @ bytes32 (sc_args s)"

definition output_bytes :: "cell_output \<Rightarrow> bytes" where
  "output_bytes out = script_bytes (co_lock out) @
     (case co_type out of Some t \<Rightarrow> [1] @ script_bytes t | None \<Rightarrow> [0]) @ le64 (co_capacity out)"

definition tx_body :: "cell_tx \<Rightarrow> bytes" where
  "tx_body tx = le32 (tx_version tx) @
     len32 (length (tx_inputs tx)) @ concat (map input_bytes (tx_inputs tx)) @
     len32 (length (tx_cell_deps tx)) @ concat (map dep_bytes (tx_cell_deps tx)) @
     len32 (length (tx_header_deps tx)) @ concat (map hash_bytes (tx_header_deps tx)) @
     len32 (length (tx_outputs tx)) @ concat (map output_bytes (tx_outputs tx)) @
     concat (map bytes32 (tx_outputs_data tx))"

definition coinbase_fallback :: "cell_tx \<Rightarrow> bytes" where
  "coinbase_fallback tx = (if is_coinbase tx \<and> tx_outputs tx = [] then
     (case tx_witnesses tx of p # _ \<Rightarrow> ascii ''coinbase-payload-fallback'' @ bytes32 p | [] \<Rightarrow> []) else [])"

definition txid_preimage :: "cell_tx \<Rightarrow> bytes" where
  "txid_preimage tx = CELL_TXID_DOMAIN @ tx_body tx @ coinbase_fallback tx"

definition compute_txid :: "(bytes \<Rightarrow> byte32) \<Rightarrow> cell_tx \<Rightarrow> byte32" where
  "compute_txid blake3 tx = blake3 (txid_preimage tx)"

definition wtxid_preimage :: "cell_tx \<Rightarrow> bytes" where
  "wtxid_preimage tx = CELL_WTXID_DOMAIN @ tx_body tx @ coinbase_fallback tx @
     len32 (length (tx_witnesses tx)) @ concat (map bytes32 (tx_witnesses tx))"

definition compute_wtxid :: "(bytes \<Rightarrow> byte32) \<Rightarrow> cell_tx \<Rightarrow> byte32" where
  "compute_wtxid blake3 tx = blake3 (wtxid_preimage tx)"

definition rw_bound_preimage :: "byte32 \<Rightarrow> 32 word \<Rightarrow> 32 word \<Rightarrow> byte32 \<Rightarrow> bytes" where
  "rw_bound_preimage wtxid input_index network_id rw_commitment =
     CELL_SIG_DOMAIN @ le32 network_id @ hash_bytes wtxid @ le32 input_index @ hash_bytes rw_commitment"

definition compute_rw_bound_sighash :: "(bytes \<Rightarrow> byte32) \<Rightarrow> cell_tx \<Rightarrow> 32 word \<Rightarrow> 32 word \<Rightarrow> byte32 \<Rightarrow> byte32" where
  "compute_rw_bound_sighash blake3 tx input_index network_id rw_commitment =
     blake3 (rw_bound_preimage (compute_wtxid blake3 tx) input_index network_id rw_commitment)"

definition pubkey_hash :: "(bytes \<Rightarrow> byte32) \<Rightarrow> bytes \<Rightarrow> bytes" where
  "pubkey_hash blake3 pubkey = take 20 (hash_bytes (blake3 pubkey))"

definition empty_rw_commitment :: "(bytes \<Rightarrow> byte32) \<Rightarrow> byte32" where
  "empty_rw_commitment blake3 = blake3 (ascii ''empty-rw-set'')"

section \<open>Standard signature hashes\<close>

subsection \<open>Hashers\<close>

definition cell_tx_signing_hash :: "(bytes \<Rightarrow> byte32) \<Rightarrow> bytes \<Rightarrow> byte32" where
  "cell_tx_signing_hash blake3 bs = blake3 (ascii ''TransactionSigningHash'' @ bs)"

definition cell_tx_signing_hash_ecdsa :: "(bytes \<Rightarrow> byte32) \<Rightarrow> bytes \<Rightarrow> byte32" where
  "cell_tx_signing_hash_ecdsa blake3 bs = blake3 (ascii ''TransactionSigningHashECDSA'' @ bs)"

definition schnorr_signing_hash :: "(bytes \<Rightarrow> byte32) \<Rightarrow> bytes \<Rightarrow> byte32" where
  "schnorr_signing_hash sha256 bs = sha256 (ascii ''SchnorrSigningHash'' @ bs)"

definition write_len :: "nat \<Rightarrow> bytes" where
  "write_len n = le64 (word_of_nat n)"

definition write_bool :: "bool \<Rightarrow> bytes" where
  "write_bool b = (if b then [1] else [0])"

definition write_var_bytes :: "bytes \<Rightarrow> bytes" where
  "write_var_bytes bs = write_len (length bs) @ bs"

subsection \<open>Flags\<close>

type_synonym sig_hash_type = byte

definition SIG_HASH_ALL :: sig_hash_type where "SIG_HASH_ALL = 1"
definition SIG_HASH_NONE :: sig_hash_type where "SIG_HASH_NONE = 2"
definition SIG_HASH_SINGLE :: sig_hash_type where "SIG_HASH_SINGLE = 4"
definition SIG_HASH_ANY_ONE_CAN_PAY :: sig_hash_type where "SIG_HASH_ANY_ONE_CAN_PAY = 128"
definition SIG_HASH_MASK :: byte where "SIG_HASH_MASK = 7"

definition ALLOWED_SIG_HASH_TYPES_VALUES :: "byte list" where
  "ALLOWED_SIG_HASH_TYPES_VALUES = [SIG_HASH_ALL, SIG_HASH_NONE, SIG_HASH_SINGLE,
     SIG_HASH_ALL OR SIG_HASH_ANY_ONE_CAN_PAY, SIG_HASH_NONE OR SIG_HASH_ANY_ONE_CAN_PAY,
     SIG_HASH_SINGLE OR SIG_HASH_ANY_ONE_CAN_PAY]"

definition is_sighash_all :: "sig_hash_type \<Rightarrow> bool" where
  "is_sighash_all t \<longleftrightarrow> t AND SIG_HASH_MASK = SIG_HASH_ALL"

definition is_sighash_none :: "sig_hash_type \<Rightarrow> bool" where
  "is_sighash_none t \<longleftrightarrow> t AND SIG_HASH_MASK = SIG_HASH_NONE"

definition is_sighash_single :: "sig_hash_type \<Rightarrow> bool" where
  "is_sighash_single t \<longleftrightarrow> t AND SIG_HASH_MASK = SIG_HASH_SINGLE"

definition is_sighash_anyone_can_pay :: "sig_hash_type \<Rightarrow> bool" where
  "is_sighash_anyone_can_pay t \<longleftrightarrow> t AND SIG_HASH_ANY_ONE_CAN_PAY = SIG_HASH_ANY_ONE_CAN_PAY"

definition sig_hash_type_from_u8 :: "byte \<Rightarrow> (unit, sig_hash_type) res" where
  "sig_hash_type_from_u8 v = (if v \<notin> set ALLOWED_SIG_HASH_TYPES_VALUES then Inl (Err ()) else Inr v)"

subsection \<open>Reused values\<close>

record reused_values =
  rv_previous_outputs_hash :: "byte32 option"
  rv_sequences_hash :: "byte32 option"
  rv_sig_op_counts_hash :: "byte32 option"
  rv_outputs_hash :: "byte32 option"
  rv_payload_hash :: "byte32 option"

definition reused_new :: reused_values where
  "reused_new = \<lparr>rv_previous_outputs_hash = None, rv_sequences_hash = None, rv_sig_op_counts_hash = None,
     rv_outputs_hash = None, rv_payload_hash = None\<rparr>"

text \<open>The closures that compute the values are pure, so their value is passed.\<close>

definition reuse_previous_outputs_hash :: "reused_values \<Rightarrow> byte32 \<Rightarrow> byte32 \<times> reused_values" where
  "reuse_previous_outputs_hash r h = (case rv_previous_outputs_hash r of Some v \<Rightarrow> (v, r)
     | None \<Rightarrow> (h, r\<lparr>rv_previous_outputs_hash := Some h\<rparr>))"

definition reuse_sequences_hash :: "reused_values \<Rightarrow> byte32 \<Rightarrow> byte32 \<times> reused_values" where
  "reuse_sequences_hash r h = (case rv_sequences_hash r of Some v \<Rightarrow> (v, r)
     | None \<Rightarrow> (h, r\<lparr>rv_sequences_hash := Some h\<rparr>))"

definition reuse_sig_op_counts_hash :: "reused_values \<Rightarrow> byte32 \<Rightarrow> byte32 \<times> reused_values" where
  "reuse_sig_op_counts_hash r h = (case rv_sig_op_counts_hash r of Some v \<Rightarrow> (v, r)
     | None \<Rightarrow> (h, r\<lparr>rv_sig_op_counts_hash := Some h\<rparr>))"

definition reuse_outputs_hash :: "reused_values \<Rightarrow> byte32 \<Rightarrow> byte32 \<times> reused_values" where
  "reuse_outputs_hash r h = (case rv_outputs_hash r of Some v \<Rightarrow> (v, r)
     | None \<Rightarrow> (h, r\<lparr>rv_outputs_hash := Some h\<rparr>))"

definition reuse_payload_hash :: "reused_values \<Rightarrow> byte32 \<Rightarrow> byte32 \<times> reused_values" where
  "reuse_payload_hash r h = (case rv_payload_hash r of Some v \<Rightarrow> (v, r)
     | None \<Rightarrow> (h, r\<lparr>rv_payload_hash := Some h\<rparr>))"

subsection \<open>The parts of the message\<close>

definition ZERO_HASH :: byte32 where "ZERO_HASH = 0"

record standard_signing_input =
  si_lock_hash :: byte32
  si_type_hash :: "byte32 option"
  si_data_hash :: byte32
  si_data_bytes :: "64 word"
  si_capacity :: "64 word"

definition hash_outpoint :: "out_point \<Rightarrow> bytes" where
  "hash_outpoint op = hash_bytes (op_tx_hash op) @ le32 (op_index op)"

definition hash_signing_script :: "script \<Rightarrow> bytes" where
  "hash_signing_script s = hash_bytes (sc_code_hash s) @ [sc_hash_type s] @ write_var_bytes (sc_args s)"

definition hash_cell_output :: "cell_output \<Rightarrow> bytes \<Rightarrow> bytes" where
  "hash_cell_output out data = le64 (co_capacity out) @ hash_signing_script (co_lock out) @
     write_bool (co_type out \<noteq> None) @ (case co_type out of Some t \<Rightarrow> hash_signing_script t | None \<Rightarrow> []) @
     write_var_bytes data"

definition hash_standard_signing_input :: "standard_signing_input \<Rightarrow> bytes" where
  "hash_standard_signing_input si = hash_bytes (si_lock_hash si) @ write_bool (si_type_hash si \<noteq> None) @
     (case si_type_hash si of Some h \<Rightarrow> hash_bytes h | None \<Rightarrow> []) @ hash_bytes (si_data_hash si) @ le64 (si_data_bytes si)"

definition output_data :: "cell_tx \<Rightarrow> nat \<Rightarrow> bytes" where
  "output_data tx i = (if i < length (tx_outputs_data tx) then tx_outputs_data tx ! i else [])"

definition previous_outputs_message :: "cell_tx \<Rightarrow> bytes" where
  "previous_outputs_message tx = concat (map (\<lambda>i. hash_outpoint (ci_previous_output i)) (tx_inputs tx))"

definition sequences_message :: "cell_tx \<Rightarrow> bytes" where
  "sequences_message tx = concat (map (\<lambda>i. le64 (ci_since i)) (tx_inputs tx))"

definition sig_op_counts_message :: "cell_tx \<Rightarrow> bytes" where
  "sig_op_counts_message tx = map (\<lambda>_. 1) (tx_inputs tx)"

definition outputs_message :: "cell_tx \<Rightarrow> bytes" where
  "outputs_message tx = concat (map (\<lambda>(i, out). hash_cell_output out (output_data tx i)) (enumerate 0 (tx_outputs tx)))"

definition payload_bytes :: "cell_tx \<Rightarrow> bytes" where
  "payload_bytes tx = (case payload tx of Some p \<Rightarrow> p | None \<Rightarrow> [])"

definition standard_previous_outputs_hash ::
  "(bytes \<Rightarrow> byte32) \<Rightarrow> cell_tx \<Rightarrow> sig_hash_type \<Rightarrow> reused_values \<Rightarrow> byte32 \<times> reused_values" where
  "standard_previous_outputs_hash blake3 tx t r = (if is_sighash_anyone_can_pay t then (ZERO_HASH, r)
     else reuse_previous_outputs_hash r (cell_tx_signing_hash blake3 (previous_outputs_message tx)))"

definition standard_sequences_hash ::
  "(bytes \<Rightarrow> byte32) \<Rightarrow> cell_tx \<Rightarrow> sig_hash_type \<Rightarrow> reused_values \<Rightarrow> byte32 \<times> reused_values" where
  "standard_sequences_hash blake3 tx t r =
     (if is_sighash_single t \<or> is_sighash_anyone_can_pay t \<or> is_sighash_none t then (ZERO_HASH, r)
      else reuse_sequences_hash r (cell_tx_signing_hash blake3 (sequences_message tx)))"

definition standard_sig_op_counts_hash ::
  "(bytes \<Rightarrow> byte32) \<Rightarrow> cell_tx \<Rightarrow> sig_hash_type \<Rightarrow> reused_values \<Rightarrow> byte32 \<times> reused_values" where
  "standard_sig_op_counts_hash blake3 tx t r = (if is_sighash_anyone_can_pay t then (ZERO_HASH, r)
     else reuse_sig_op_counts_hash r (cell_tx_signing_hash blake3 (sig_op_counts_message tx)))"

definition standard_payload_hash :: "(bytes \<Rightarrow> byte32) \<Rightarrow> cell_tx \<Rightarrow> reused_values \<Rightarrow> byte32 \<times> reused_values" where
  "standard_payload_hash blake3 tx r = (if \<not> is_coinbase tx \<and> payload_bytes tx = [] then (ZERO_HASH, r)
     else reuse_payload_hash r (cell_tx_signing_hash blake3 (write_var_bytes (payload_bytes tx))))"

definition standard_outputs_hash ::
  "(bytes \<Rightarrow> byte32) \<Rightarrow> cell_tx \<Rightarrow> sig_hash_type \<Rightarrow> reused_values \<Rightarrow> nat \<Rightarrow> byte32 \<times> reused_values" where
  "standard_outputs_hash blake3 tx t r input_index =
     (if is_sighash_none t then (ZERO_HASH, r)
      else if is_sighash_single t then
        (if input_index \<ge> length (tx_outputs tx) then (ZERO_HASH, r)
         else (cell_tx_signing_hash blake3 (hash_cell_output (tx_outputs tx ! input_index) (output_data tx input_index)), r))
      else reuse_outputs_hash r (cell_tx_signing_hash blake3 (outputs_message tx)))"

definition calc_standard_signature_hash ::
  "(bytes \<Rightarrow> byte32) \<Rightarrow> (bytes \<Rightarrow> byte32) \<Rightarrow> cell_tx \<Rightarrow> nat \<Rightarrow> sig_hash_type \<Rightarrow> standard_signing_input \<Rightarrow> reused_values \<Rightarrow>
     (unit, byte32 \<times> reused_values) res" where
  "calc_standard_signature_hash blake3 sha256 tx input_index t si r =
     rbind (idx (tx_inputs tx) input_index) (\<lambda>input.
     let (previous, r) = standard_previous_outputs_hash blake3 tx t r;
         (sequences, r) = standard_sequences_hash blake3 tx t r;
         (sig_ops, r) = standard_sig_op_counts_hash blake3 tx t r;
         (outputs, r) = standard_outputs_hash blake3 tx t r input_index;
         (pay, r) = standard_payload_hash blake3 tx r in
     Inr (schnorr_signing_hash sha256
       (le32 (tx_version tx) @ hash_bytes previous @ hash_bytes sequences @ hash_bytes sig_ops @
        hash_outpoint (ci_previous_output input) @ hash_standard_signing_input si @ le64 (si_capacity si) @
        le64 (ci_since input) @ [1] @ hash_bytes outputs @ le64 0 @ hash_bytes pay @ [t]), r))"

definition calc_standard_ecdsa_signature_hash ::
  "(bytes \<Rightarrow> byte32) \<Rightarrow> (bytes \<Rightarrow> byte32) \<Rightarrow> cell_tx \<Rightarrow> nat \<Rightarrow> sig_hash_type \<Rightarrow> standard_signing_input \<Rightarrow> reused_values \<Rightarrow>
     (unit, byte32 \<times> reused_values) res" where
  "calc_standard_ecdsa_signature_hash blake3 sha256 tx input_index t si r =
     rbind (calc_standard_signature_hash blake3 sha256 tx input_index t si r) (\<lambda>(h, r).
     Inr (cell_tx_signing_hash_ecdsa blake3 (hash_bytes h), r))"

end
