(* ===== verification/SchedDag.thy ===== *)
theory SchedDag
  imports BTree Sighash CellDiff
begin

text \<open>
  The transaction scheduler: the dependency graph of \<^verbatim>\<open>exec/src/scheduler/dag.rs\<close>, the
  executor of \<^verbatim>\<open>executor.rs\<close>, and the rejection of conflicting transactions of the block
  template (\<^verbatim>\<open>prefilter_conflicting_template_transactions\<close> of
  \<^verbatim>\<open>virtual_processor/processor.rs\<close>, from the conflicts on).  Ordered maps are sorted
  entry lists; the two work-list loops and the layering loop have termination proofs.
\<close>

section \<open>The dependency graph\<close>

type_synonym node_id = nat

datatype dag_edge = Dependency | ReadDep

type_synonym edge_map = "(node_id, (node_id \<times> dag_edge) list) btree"
type_synonym reverse_map = "(node_id, node_id list) btree"

record cell_dag =
  dg_node_count :: nat
  dg_edges :: edge_map
  dg_reverse_edges :: reverse_map
  dg_conflicts :: "(out_point, node_id list) btree"
  dg_layers :: "node_id list list"

datatype dag_error = CycleDetected | OutOfBounds node_id | ZeroTooEarly node_id

text \<open>\<^verbatim>\<open>entry(k).or_default().push(x)\<close>.\<close>

definition bt_push :: "'k::linorder \<Rightarrow> 'v \<Rightarrow> ('k, 'v list) btree \<Rightarrow> ('k, 'v list) btree" where
  "bt_push k x t = bt_update_default k [] (\<lambda>xs. xs @ [x]) t"

definition add_producers :: "(bytes \<Rightarrow> byte32) \<Rightarrow> node_id \<times> cell_tx \<Rightarrow> (out_point, node_id) btree \<Rightarrow> (out_point, node_id) btree" where
  "add_producers blake3 = (\<lambda>(node_id, tx) ps.
     let tx_hash = compute_wtxid blake3 tx in
     fold (\<lambda>(i, _). bt_insert (out_point_new tx_hash (word_of_nat i)) node_id) (enumerate 0 (tx_outputs tx)) ps)"

definition producers :: "(bytes \<Rightarrow> byte32) \<Rightarrow> cell_tx list \<Rightarrow> (out_point, node_id) btree" where
  "producers blake3 txs = fold (add_producers blake3) (enumerate 0 txs) []"

record links =
  lk_edges :: edge_map
  lk_reverse_edges :: reverse_map
  lk_conflicts :: "(out_point, node_id list) btree"

definition link :: "(out_point, node_id) btree \<Rightarrow> node_id \<Rightarrow> dag_edge \<Rightarrow> out_point \<Rightarrow> links \<Rightarrow> links" where
  "link ps consumer kind op l = (case bt_get ps op of
     Some producer \<Rightarrow> l\<lparr>lk_edges := bt_push producer (consumer, kind) (lk_edges l),
       lk_reverse_edges := bt_push consumer producer (lk_reverse_edges l)\<rparr>
   | None \<Rightarrow> l)"

definition link_input :: "(out_point, node_id) btree \<Rightarrow> node_id \<Rightarrow> cell_input \<Rightarrow> links \<Rightarrow> links" where
  "link_input ps consumer input l = (let l = link ps consumer Dependency (ci_previous_output input) l in
     l\<lparr>lk_conflicts := bt_push (ci_previous_output input) consumer (lk_conflicts l)\<rparr>)"

definition link_dep :: "(out_point, node_id) btree \<Rightarrow> node_id \<Rightarrow> cell_dep \<Rightarrow> links \<Rightarrow> links" where
  "link_dep ps consumer dep l = link ps consumer ReadDep (cd_out_point dep) l"

definition link_tx :: "(out_point, node_id) btree \<Rightarrow> node_id \<times> cell_tx \<Rightarrow> links \<Rightarrow> links" where
  "link_tx ps = (\<lambda>(consumer, tx) l.
     fold (link_dep ps consumer) (tx_cell_deps tx) (fold (link_input ps consumer) (tx_inputs tx) l))"

subsection \<open>Layers\<close>

definition successors :: "edge_map \<Rightarrow> node_id \<Rightarrow> (node_id \<times> dag_edge) list option" where
  "successors edges n = bt_get edges n"

definition predecessors :: "reverse_map \<Rightarrow> node_id \<Rightarrow> node_id list option" where
  "predecessors rev_edges n = bt_get rev_edges n"

definition targets :: "edge_map \<Rightarrow> node_id \<Rightarrow> node_id list" where
  "targets edges n = (case bt_get edges n of Some ss \<Rightarrow> map fst ss | None \<Rightarrow> [])"

definition release :: "nat list \<times> node_id list \<Rightarrow> node_id \<Rightarrow> (dag_error, nat list \<times> node_id list) res" where
  "release = (\<lambda>(in_degree, next_layer) successor.
     if successor \<ge> length in_degree then Inl (Err (OutOfBounds successor))
     else if in_degree ! successor = 0 then Inl (Err (ZeroTooEarly successor))
     else let degree = in_degree ! successor - 1 in
       Inr (in_degree[successor := degree], if degree = 0 then next_layer @ [successor] else next_layer))"

definition release_layer :: "edge_map \<Rightarrow> nat list \<Rightarrow> node_id list \<Rightarrow> (dag_error, nat list \<times> node_id list) res" where
  "release_layer edges in_degree current =
     rfold (\<lambda>st node. rfold release st (targets edges node)) (in_degree, []) current"

lemma release_sum:
  assumes "release (ds, ns) v = Inr (ds', ns')"
  shows "sum_list ds' + length ns' \<le> sum_list ds + length ns"
proof -
  from assms have v: "v < length ds" "ds ! v \<noteq> 0" and eq: "ds' = ds[v := ds ! v - 1]" "length ns' \<le> Suc (length ns)"
    by (auto simp: release_def Let_def split: if_splits)
  have "ds ! v \<le> sum_list ds" using v(1) by (simp add: member_le_sum_list)
  then have "sum_list ds' = sum_list ds - 1" using v by (simp add: eq(1) sum_list_update)
  moreover have "0 < sum_list ds" using v \<open>ds ! v \<le> sum_list ds\<close> by linarith
  ultimately show ?thesis using eq(2) by linarith
qed

lemma release_layer_sum:
  assumes "release_layer edges ds cur = Inr (ds', ns')"
  shows "sum_list ds' + length ns' \<le> sum_list ds"
proof -
  let ?P = "\<lambda>st. sum_list (fst st) + length (snd st) \<le> sum_list ds"
  have one: "?P st'" if "?P st" "release st v = Inr st'" for st st' v
    using that release_sum [of "fst st" "snd st" v "fst st'" "snd st'"] by simp
  have inner: "?P st'" if "?P st" "rfold release st vs = Inr st'" for st st' vs
    by (rule rfold_inv [where P = ?P, OF that(2,1)]) (use one in blast)
  have "?P (ds', ns')"
    by (rule rfold_inv [where P = ?P, OF assms [unfolded release_layer_def]]) (simp, use inner in blast)
  then show ?thesis by simp
qed

function layers_loop :: "edge_map \<Rightarrow> nat list \<Rightarrow> node_id list \<Rightarrow> node_id list list \<Rightarrow> nat \<Rightarrow> (dag_error, node_id list list \<times> nat) res" where
  "layers_loop edges in_degree current layers processed =
     (if current = [] then Inr (layers, processed)
      else let layer = sort current in
        rbind (release_layer edges in_degree layer) (\<lambda>(in_degree', next_layer).
        layers_loop edges in_degree' next_layer (layers @ [layer]) (processed + length layer)))"
  by pat_completeness auto

termination
proof (relation "measure (\<lambda>(_, ds, cur, _, _). 2 * sum_list ds + length cur)")
  fix edges :: edge_map and ds cur layer :: "nat list" and layers processed y ds' ns'
  assume ne: "cur \<noteq> []" and run: "release_layer edges ds layer = Inr y" and y: "(ds', ns') = y"
  from release_layer_sum [of edges ds layer ds' ns'] run y have "sum_list ds' + length ns' \<le> sum_list ds" by simp
  moreover have "0 < length cur" using ne by simp
  ultimately have "2 * sum_list ds' + length ns' < 2 * sum_list ds + length cur" by linarith
  then show "((edges, ds', ns', layers @ [layer], processed + length layer), edges, ds, cur, layers, processed)
      \<in> measure (\<lambda>(_, ds, cur, _, _). 2 * sum_list ds + length cur)" by simp
qed simp

declare layers_loop.simps [simp del]

definition compute_layers :: "nat \<Rightarrow> edge_map \<Rightarrow> reverse_map \<Rightarrow> (dag_error, node_id list list) res" where
  "compute_layers node_count edges rev_edges =
     (if node_count = 0 then Inr []
      else let in_degree = map (\<lambda>n. case bt_get rev_edges n of Some ps \<Rightarrow> length ps | None \<Rightarrow> 0) [0..<node_count];
               current = filter (\<lambda>n. in_degree ! n = 0) [0..<node_count] in
        rbind (layers_loop edges in_degree current [] 0) (\<lambda>(layers, processed).
        if processed \<noteq> node_count then Inl (Err CycleDetected) else Inr layers))"

definition dag_build :: "(bytes \<Rightarrow> byte32) \<Rightarrow> cell_tx list \<Rightarrow> (dag_error, cell_dag) res" where
  "dag_build blake3 txs =
     (let ps = producers blake3 txs;
          l = fold (link_tx ps) (enumerate 0 txs) \<lparr>lk_edges = [], lk_reverse_edges = [], lk_conflicts = []\<rparr>;
          conflicts = filter (\<lambda>(_, consumers). length consumers > 1) (lk_conflicts l) in
      rbind (compute_layers (length txs) (lk_edges l) (lk_reverse_edges l)) (\<lambda>layers.
      Inr \<lparr>dg_node_count = length txs, dg_edges = lk_edges l, dg_reverse_edges = lk_reverse_edges l,
        dg_conflicts = conflicts, dg_layers = layers\<rparr>))"

definition get_conflicts :: "cell_dag \<Rightarrow> (out_point \<times> node_id list) list" where
  "get_conflicts dag = dg_conflicts dag"

subsection \<open>Paths\<close>

lemma targets_outside: "n \<notin> fst ` set edges \<Longrightarrow> targets edges n = []"
  using map_of_eq_None_iff [of edges n] by (simp add: targets_def bt_get_def)

text \<open>The stack is kept with its top first.\<close>

function path_loop :: "edge_map \<Rightarrow> node_id \<Rightarrow> node_id list \<Rightarrow> node_id list \<Rightarrow> bool" where
  "path_loop edges goal visited [] = False"
| "path_loop edges goal visited (node # stack) =
     (if node = goal then True
      else if node \<in> set visited then path_loop edges goal visited stack
      else path_loop edges goal (node # visited) (rev (targets edges node) @ stack))"
  by pat_completeness auto

termination
proof (relation "inv_image (less_than <*lex*> less_than) (\<lambda>(edges, _, visited, stack). (card (fst ` set edges - set visited), length stack))")
  fix edges :: edge_map and goal node :: node_id and visited stack
  assume n: "node \<notin> set visited"
  show "((edges, goal, node # visited, rev (targets edges node) @ stack), edges, goal, visited, node # stack)
      \<in> inv_image (less_than <*lex*> less_than) (\<lambda>(edges, _, visited, stack). (card (fst ` set edges - set visited), length stack))"
  proof (cases "node \<in> fst ` set edges")
    case True
    with n have "card (fst ` set edges - set (node # visited)) < card (fst ` set edges - set visited)"
      by (intro psubset_card_mono) auto
    then show ?thesis by simp
  next
    case False
    then have "fst ` set edges - set (node # visited) = fst ` set edges - set visited" by auto
    then show ?thesis using False by (simp add: targets_outside)
  qed
qed auto

definition has_path :: "cell_dag \<Rightarrow> node_id \<Rightarrow> node_id \<Rightarrow> bool" where
  "has_path dag from goal = (if from = goal then True else path_loop (dg_edges dag) goal [] [from])"

section \<open>Rejecting conflicts\<close>

text \<open>Inserting into the set of rejected nodes; a node that was not in it enters the queue.\<close>

definition reject :: "node_id \<Rightarrow> node_id list \<times> node_id list \<Rightarrow> node_id list \<times> node_id list" where
  "reject n = (\<lambda>(rejected, queue). if n \<in> set rejected then (rejected, queue) else (n # rejected, queue @ [n]))"

lemma reject_fold:
  "set (fst (fold reject ns (r, q))) = set r \<union> set ns"
  "\<exists>new. snd (fold reject ns (r, q)) = q @ new \<and> set new = set ns - set r \<and> distinct new"
proof -
  have "set (fst (fold reject ns (r, q))) = set r \<union> set ns \<and>
      (\<exists>new. snd (fold reject ns (r, q)) = q @ new \<and> set new = set ns - set r \<and> distinct new)"
  proof (induction ns arbitrary: r q)
    case (Cons n ns)
    show ?case
    proof (cases "n \<in> set r")
      case True
      then show ?thesis using Cons.IH [of r q] by (auto simp: reject_def)
    next
      case False
      from Cons.IH [of "n # r" "q @ [n]"] obtain new where
        1: "set (fst (fold reject ns (n # r, q @ [n]))) = set (n # r) \<union> set ns"
        and 2: "snd (fold reject ns (n # r, q @ [n])) = (q @ [n]) @ new" "set new = set ns - set (n # r)" "distinct new" by blast
      from 2 False have "snd (fold reject (n # ns) (r, q)) = q @ (n # new) \<and> set (n # new) = set (n # ns) - set r \<and> distinct (n # new)"
        by (auto simp: reject_def)
      moreover from 1 False have "set (fst (fold reject (n # ns) (r, q))) = set r \<union> set (n # ns)" by (auto simp: reject_def)
      ultimately show ?thesis by blast
    qed
  qed simp
  then show "set (fst (fold reject ns (r, q))) = set r \<union> set ns"
    "\<exists>new. snd (fold reject ns (r, q)) = q @ new \<and> set new = set ns - set r \<and> distinct new" by blast+
qed

definition all_targets :: "edge_map \<Rightarrow> node_id set" where
  "all_targets edges = (\<Union>n \<in> fst ` set edges. set (targets edges n))"

lemma targets_all: "set (targets edges n) \<subseteq> all_targets edges"
proof (cases "n \<in> fst ` set edges")
  case True
  then show ?thesis unfolding all_targets_def by blast
next
  case False
  then show ?thesis by (simp add: targets_outside)
qed

lemma finite_all_targets [simp]: "finite (all_targets edges)"
  by (simp add: all_targets_def)

function reject_loop :: "edge_map \<Rightarrow> node_id list \<Rightarrow> node_id list \<Rightarrow> node_id list" where
  "reject_loop edges rejected [] = rejected"
| "reject_loop edges rejected (node # queue) =
     (case fold reject (targets edges node) (rejected, queue) of (rejected', queue') \<Rightarrow> reject_loop edges rejected' queue')"
  by pat_completeness auto

termination
proof (relation "inv_image (less_than <*lex*> less_than) (\<lambda>(edges, rejected, queue). (card (all_targets edges - set rejected), length queue))")
  fix edges :: edge_map and rejected queue r' q' and node :: node_id
  assume x: "(r', q') = fold reject (targets edges node) (rejected, queue)"
  let ?T = "set (targets edges node)"
  from x have run: "fold reject (targets edges node) (rejected, queue) = (r', q')" by simp
  have r: "set r' = set rejected \<union> ?T" using reject_fold(1) [of "targets edges node" rejected queue] by (simp add: run)
  obtain new where q: "q' = queue @ new" "set new = ?T - set rejected"
    using reject_fold(2) [of "targets edges node" rejected queue] by (auto simp: run)
  show "((edges, r', q'), edges, rejected, node # queue)
      \<in> inv_image (less_than <*lex*> less_than) (\<lambda>(edges, rejected, queue). (card (all_targets edges - set rejected), length queue))"
  proof (cases "?T \<subseteq> set rejected")
    case True
    then have "all_targets edges - set r' = all_targets edges - set rejected" using r by auto
    moreover have "new = []" using True q(2) by (simp only: Diff_eq_empty_iff [symmetric] set_empty)
    ultimately show ?thesis by (simp add: q(1))
  next
    case False
    then obtain t where "t \<in> ?T" "t \<notin> set rejected" by blast
    then have "all_targets edges - set r' \<subset> all_targets edges - set rejected"
      unfolding r using targets_all [of edges node] by blast
    then have "card (all_targets edges - set r') < card (all_targets edges - set rejected)" by (simp add: psubset_card_mono)
    then show ?thesis by simp
  qed
qed (auto intro!: wf_inv_image wf_lex_prod)

text \<open>The first consumer of each contested out point stays; later ones and what depends on them go.\<close>

definition conflict_rejections :: "cell_dag \<Rightarrow> node_id list" where
  "conflict_rejections dag = (case fold (\<lambda>(_, consumers). fold reject (drop 1 consumers)) (dg_conflicts dag) ([], []) of
     (rejected, queue) \<Rightarrow> reject_loop (dg_edges dag) rejected queue)"

definition kept_transactions :: "cell_dag \<Rightarrow> cell_tx list \<Rightarrow> cell_tx list" where
  "kept_transactions dag txs = map snd (filter (\<lambda>(node_id, _). node_id \<notin> set (conflict_rejections dag)) (enumerate 0 txs))"

end
