(* ===== verification/SchedDagInv.thy ===== *)
theory SchedDagInv
  imports SchedDag
begin

text \<open>
  Correctness of the layering: Kahn's algorithm on a graph whose reverse map counts the
  edges into every node.  The loop keeps, for every node, the number of edges into it
  from nodes that are not yet placed.
\<close>

section \<open>Graphs\<close>

definition edge_rel :: "edge_map \<Rightarrow> (node_id \<times> node_id) set" where
  "edge_rel edges = {(u, v). v \<in> set (targets edges u)}"

definition in_edges :: "reverse_map \<Rightarrow> node_id \<Rightarrow> nat" where
  "in_edges rev_edges v = (case bt_get rev_edges v of Some ps \<Rightarrow> length ps | None \<Rightarrow> 0)"

definition graph_ok :: "nat \<Rightarrow> edge_map \<Rightarrow> reverse_map \<Rightarrow> bool" where
  "graph_ok n edges rev_edges \<longleftrightarrow> edge_rel edges \<subseteq> {..<n} \<times> {..<n} \<and>
     (\<forall>v < n. in_edges rev_edges v = (\<Sum>u<n. count_list (targets edges u) v))"

text \<open>
  Layers are numbered from 0.  All predecessors of a node are in earlier layers, and a
  node that is not in layer 0 has one in the layer just before.
\<close>

definition layered :: "(node_id \<times> node_id) set \<Rightarrow> node_id list list \<Rightarrow> bool" where
  "layered E ls \<longleftrightarrow> (\<forall>j < length ls. \<forall>v \<in> set (ls ! j). \<forall>u. (u, v) \<in> E \<longrightarrow> (\<exists>i < j. u \<in> set (ls ! i)))"

definition tight :: "(node_id \<times> node_id) set \<Rightarrow> node_id list list \<Rightarrow> bool" where
  "tight E ls \<longleftrightarrow> (\<forall>j. Suc j < length ls \<longrightarrow> (\<forall>v \<in> set (ls ! Suc j). \<exists>u \<in> set (ls ! j). (u, v) \<in> E))"

section \<open>Releasing successors\<close>

lemma rfold_concat: "rfold (\<lambda>st x. rfold f st (g x)) s xs = rfold f s (concat (map g xs))"
  by (induction xs arbitrary: s) (simp_all add: rfold_append)

lemma count_list_pos_iff: "0 < count_list xs x \<longleftrightarrow> x \<in> set xs"
  by (induction xs) auto

lemma release_list:
  assumes "\<And>v. count_list ts v \<le> (if v < length ds then ds ! v else 0)"
  shows "\<exists>ds' new. rfold release (ds, ns) ts = Inr (ds', ns @ new) \<and> length ds' = length ds \<and>
    (\<forall>v < length ds. ds' ! v = ds ! v - count_list ts v) \<and> set new = {v \<in> set ts. count_list ts v = ds ! v} \<and> distinct new"
  using assms
proof (induction ts arbitrary: ds ns)
  case (Cons t ts)
  from Cons.prems [of t] have t: "t < length ds" "0 < ds ! t" by (auto split: if_splits)
  define ds1 where "ds1 = ds[t := ds ! t - 1]"
  define ns1 where "ns1 = (if ds ! t - 1 = 0 then ns @ [t] else ns)"
  have step: "rfold release (ds, ns) (t # ts) = rfold release (ds1, ns1) ts"
    using t by (simp add: release_def ds1_def ns1_def Let_def)
  have nth: "ds1 ! v = (if v = t then ds ! t - 1 else ds ! v)" for v using t by (simp add: ds1_def)
  have len: "length ds1 = length ds" by (simp add: ds1_def)
  have pre: "count_list ts v \<le> (if v < length ds1 then ds1 ! v else 0)" for v
    using Cons.prems [of v] t by (auto simp: nth len split: if_splits)
  from Cons.IH [OF pre, of ns1] obtain ds' new where
    IH: "rfold release (ds1, ns1) ts = Inr (ds', ns1 @ new)" "length ds' = length ds1"
      "\<forall>v < length ds1. ds' ! v = ds1 ! v - count_list ts v" "set new = {v \<in> set ts. count_list ts v = ds1 ! v}" "distinct new" by blast
  have nthds': "\<forall>v < length ds. ds' ! v = ds ! v - count_list (t # ts) v" using IH(3) t by (auto simp: nth len)
  show ?case
  proof (cases "ds ! t = 1")
    case True
    with pre [of t] t have c: "count_list ts t = 0" by (simp add: nth len)
    then have "t \<notin> set ts" using count_list_pos_iff [of ts t] by simp
    show ?thesis
    proof (intro exI conjI)
      show "rfold release (ds, ns) (t # ts) = Inr (ds', ns @ (t # new))" unfolding step IH(1) using True by (simp add: ns1_def)
      show "length ds' = length ds" using IH(2) len by simp
      show "set (t # new) = {v \<in> set (t # ts). count_list (t # ts) v = ds ! v}"
        unfolding set_simps IH(4) using True c \<open>t \<notin> set ts\<close> by (auto simp: nth)
      show "distinct (t # new)" using IH(4,5) \<open>t \<notin> set ts\<close> by simp
    qed (fact nthds')
  next
    case False
    show ?thesis
    proof (intro exI conjI)
      show "rfold release (ds, ns) (t # ts) = Inr (ds', ns @ new)" unfolding step IH(1) using False t by (simp add: ns1_def)
      show "length ds' = length ds" using IH(2) len by simp
      show "set new = {v \<in> set (t # ts). count_list (t # ts) v = ds ! v}"
      proof (rule set_eqI)
        fix v
        show "v \<in> set new \<longleftrightarrow> v \<in> {v \<in> set (t # ts). count_list (t # ts) v = ds ! v}"
          unfolding IH(4) using False t count_list_pos_iff [of ts t] by (cases "v = t") (auto simp: nth)
      qed
    qed (fact nthds', fact IH(5))
  qed
qed simp

lemma count_list_concat_map:
  "distinct xs \<Longrightarrow> count_list (concat (map f xs)) v = (\<Sum>x \<in> set xs. count_list (f x) v)"
  by (induction xs) (simp_all add: count_list_append)

section \<open>The layering loop\<close>

definition kahn_inv :: "nat \<Rightarrow> edge_map \<Rightarrow> nat list \<Rightarrow> node_id list \<Rightarrow> node_id list list \<Rightarrow> bool" where
  "kahn_inv n edges ds cur layers \<longleftrightarrow>
     edge_rel edges \<subseteq> {..<n} \<times> {..<n} \<and> length ds = n \<and>
     (\<forall>v < n. ds ! v = (\<Sum>u \<in> {..<n} - set (concat layers). count_list (targets edges u) v)) \<and>
     distinct cur \<and> set cur = {v. v < n \<and> v \<notin> set (concat layers) \<and> ds ! v = 0} \<and>
     distinct (concat layers) \<and> set (concat layers) \<subseteq> {..<n} \<and>
     layered (edge_rel edges) layers \<and> tight (edge_rel edges) layers \<and>
     (layers \<noteq> [] \<longrightarrow> (\<forall>v \<in> set cur. \<exists>u \<in> set (last layers). (u, v) \<in> edge_rel edges)) \<and>
     list_all (\<lambda>l. sorted l \<and> l \<noteq> []) layers"

lemma in_concat_nth: "v \<in> set (concat ls) \<longleftrightarrow> (\<exists>j < length ls. v \<in> set (ls ! j))"
  unfolding set_concat by (simp add: set_conv_nth [of ls]) blast

lemma layered_snoc:
  assumes "layered E ls" and "\<And>v u. v \<in> set l \<Longrightarrow> (u, v) \<in> E \<Longrightarrow> u \<in> set (concat ls)"
  shows "layered E (ls @ [l])"
proof -
  have "\<exists>i < j. u \<in> set ((ls @ [l]) ! i)" if j: "j < length (ls @ [l])" and v: "v \<in> set ((ls @ [l]) ! j)" and uv: "(u, v) \<in> E" for j u v
  proof (cases "j < length ls")
    case True
    with v have "v \<in> set (ls ! j)" by (simp add: nth_append)
    with True uv assms(1) obtain i where "i < j" "u \<in> set (ls ! i)" unfolding layered_def by blast
    with True show ?thesis by (intro exI [of _ i]) (simp add: nth_append)
  next
    case False
    with j have jl: "j = length ls" by simp
    with v have "v \<in> set l" by simp
    from assms(2) [OF this uv] obtain i where "i < length ls" "u \<in> set (ls ! i)" unfolding in_concat_nth by blast
    then show ?thesis by (intro exI [of _ i]) (simp add: jl nth_append)
  qed
  then show ?thesis by (simp only: layered_def) blast
qed

lemma tight_snoc:
  assumes "tight E ls" and "ls \<noteq> [] \<longrightarrow> (\<forall>v \<in> set l. \<exists>u \<in> set (last ls). (u, v) \<in> E)"
  shows "tight E (ls @ [l])"
proof -
  have "\<exists>u \<in> set ((ls @ [l]) ! j). (u, v) \<in> E" if j: "Suc j < length (ls @ [l])" and v: "v \<in> set ((ls @ [l]) ! Suc j)" for j v
  proof (cases "Suc j < length ls")
    case True
    then show ?thesis using assms(1) v by (auto simp: tight_def nth_append)
  next
    case False
    with j have "Suc j = length ls" by simp
    then have "ls \<noteq> []" "length ls - 1 = j" "v \<in> set l" "(ls @ [l]) ! j = ls ! j" using v by (auto simp: nth_append)
    then have "ls \<noteq> []" "last ls = ls ! j" "v \<in> set l" "(ls @ [l]) ! j = ls ! j" by (simp_all add: last_conv_nth)
    with assms(2) show ?thesis by simp
  qed
  then show ?thesis by (simp only: tight_def) blast
qed

lemma kahn_invD:
  assumes "kahn_inv n edges ds cur layers"
  shows "edge_rel edges \<subseteq> {..<n} \<times> {..<n}" "length ds = n"
    "v < n \<Longrightarrow> ds ! v = (\<Sum>u \<in> {..<n} - set (concat layers). count_list (targets edges u) v)"
    "distinct cur" "set cur = {v. v < n \<and> v \<notin> set (concat layers) \<and> ds ! v = 0}"
    "distinct (concat layers)" "set (concat layers) \<subseteq> {..<n}"
    "layered (edge_rel edges) layers" "tight (edge_rel edges) layers"
    "layers \<noteq> [] \<longrightarrow> (\<forall>v \<in> set cur. \<exists>u \<in> set (last layers). (u, v) \<in> edge_rel edges)"
    "list_all (\<lambda>l. sorted l \<and> l \<noteq> []) layers"
  using assms unfolding kahn_inv_def by blast+

lemma kahn_preds_placed:
  assumes inv: "kahn_inv n edges ds cur layers" and v: "v \<in> set cur" and uv: "(u, v) \<in> edge_rel edges"
  shows "u \<in> set (concat layers)"
proof (rule ccontr)
  assume u: "u \<notin> set (concat layers)"
  have n: "v < n" and z: "ds ! v = 0" using v unfolding kahn_invD(5) [OF inv] by blast+
  have "u < n" using kahn_invD(1) [OF inv] uv by blast
  with z u have "count_list (targets edges u) v = 0" unfolding kahn_invD(3) [OF inv n] by simp
  with uv count_list_pos_iff [of "targets edges u" v] show False by (simp add: edge_rel_def)
qed

lemma layered_closed:
  assumes "layered E ls" and "v \<in> set (concat ls)" and "(u, v) \<in> E"
  shows "u \<in> set (concat ls)"
proof -
  from assms(2) obtain j where j: "j < length ls" "v \<in> set (ls ! j)" unfolding in_concat_nth by blast
  with assms(1,3) obtain i where "i < j" "u \<in> set (ls ! i)" unfolding layered_def by blast
  with j show ?thesis unfolding in_concat_nth by (meson less_trans)
qed

lemma kahn_release:
  assumes inv: "kahn_inv n edges ds cur layers" and D': "D' = set (concat layers) \<union> set cur"
  shows "\<exists>ds' nxt. release_layer edges ds (sort cur) = Inr (ds', nxt) \<and> length ds' = n \<and> distinct nxt \<and>
    (\<forall>v < n. ds' ! v = (\<Sum>u \<in> {..<n} - D'. count_list (targets edges u) v)) \<and>
    set nxt = {v. v < n \<and> v \<notin> D' \<and> ds' ! v = 0} \<and> (\<forall>v \<in> set nxt. \<exists>u \<in> set cur. (u, v) \<in> edge_rel edges)"
proof -
  let ?D = "set (concat layers)" and ?ts = "concat (map (targets edges) (sort cur))"
  note i = kahn_invD [OF inv]
  have cn: "set cur \<subseteq> {..<n} - ?D" unfolding i(5) by blast
  have cts: "count_list ?ts v = (\<Sum>u \<in> set cur. count_list (targets edges u) v)" for v
    using count_list_concat_map [of "sort cur" "targets edges" v] i(4) by simp
  have dd: "{..<n} - ?D - set cur = {..<n} - D'" unfolding D' by blast
  have ds: "ds ! v = (\<Sum>u \<in> {..<n} - D'. count_list (targets edges u) v) + count_list ?ts v" if "v < n" for v
    unfolding i(3) [OF that] cts dd [symmetric] by (rule sum.subset_diff [OF cn]) simp
  have src: "\<exists>u \<in> set cur. (u, v) \<in> edge_rel edges" if "v \<in> set ?ts" for v using that by (auto simp: edge_rel_def)
  have tsn: "v < n" if "v \<in> set ?ts" for v using src [OF that] i(1) by blast
  have "count_list ?ts v \<le> (if v < length ds then ds ! v else 0)" for v
    using ds [of v] tsn [of v] count_list_pos_iff [of ?ts v] i(2) by (cases "v < n") auto
  from release_list [OF this, of "[]"] obtain ds' nxt where
    r: "rfold release (ds, []) ?ts = Inr (ds', nxt)" "length ds' = n" "\<forall>v < n. ds' ! v = ds ! v - count_list ?ts v"
      "set nxt = {v \<in> set ?ts. count_list ?ts v = ds ! v}" "distinct nxt" unfolding i(2) by auto
  have ds': "ds' ! v = (\<Sum>u \<in> {..<n} - D'. count_list (targets edges u) v)" if "v < n" for v
    using r(3) ds [OF that] that by simp
  have "v \<in> set nxt \<longleftrightarrow> v < n \<and> v \<notin> D' \<and> ds' ! v = 0" for v
  proof
    assume "v \<in> set nxt"
    with r(4) have vts: "v \<in> set ?ts" "count_list ?ts v = ds ! v" by auto
    have n: "v < n" by (rule tsn [OF vts(1)])
    have pos: "0 < ds ! v" using vts count_list_pos_iff [of ?ts v] by simp
    obtain u where u: "u \<in> set cur" "(u, v) \<in> edge_rel edges" using src [OF vts(1)] by blast
    have "v \<notin> ?D" using layered_closed [OF i(8) _ u(2)] u(1) cn by blast
    moreover have "v \<notin> set cur" using pos unfolding i(5) by simp
    moreover have "ds' ! v = 0" using r(3) vts(2) n by simp
    ultimately show "v < n \<and> v \<notin> D' \<and> ds' ! v = 0" using n unfolding D' by blast
  next
    assume v: "v < n \<and> v \<notin> D' \<and> ds' ! v = 0"
    then have "ds ! v \<noteq> 0" unfolding D' i(5) by auto
    moreover have "count_list ?ts v = ds ! v" using v ds' [of v] ds [of v] by linarith
    ultimately show "v \<in> set nxt" using count_list_pos_iff [of ?ts v] unfolding r(4) by simp
  qed
  then have "set nxt = {v. v < n \<and> v \<notin> D' \<and> ds' ! v = 0}" by blast
  moreover have "\<forall>v \<in> set nxt. \<exists>u \<in> set cur. (u, v) \<in> edge_rel edges" using src unfolding r(4) by blast
  moreover have "release_layer edges ds (sort cur) = Inr (ds', nxt)" unfolding release_layer_def rfold_concat by (rule r(1))
  ultimately show ?thesis using r(2,5) ds' by blast
qed

lemma kahn_step:
  assumes inv: "kahn_inv n edges ds cur layers" and ne: "cur \<noteq> []"
  shows "\<exists>ds' nxt. release_layer edges ds (sort cur) = Inr (ds', nxt) \<and> kahn_inv n edges ds' nxt (layers @ [sort cur])"
proof -
  note i = kahn_invD [OF inv]
  have D': "set (concat (layers @ [sort cur])) = set (concat layers) \<union> set cur" by simp
  obtain ds' nxt where r: "release_layer edges ds (sort cur) = Inr (ds', nxt)" "length ds' = n" "distinct nxt"
    "\<forall>v < n. ds' ! v = (\<Sum>u \<in> {..<n} - set (concat (layers @ [sort cur])). count_list (targets edges u) v)"
    "set nxt = {v. v < n \<and> v \<notin> set (concat (layers @ [sort cur])) \<and> ds' ! v = 0}"
    "\<forall>v \<in> set nxt. \<exists>u \<in> set cur. (u, v) \<in> edge_rel edges"
    using kahn_release [OF inv D'] by blast
  have "layered (edge_rel edges) (layers @ [sort cur])"
    by (rule layered_snoc [OF i(8)]) (use kahn_preds_placed [OF inv] in simp)
  moreover have "tight (edge_rel edges) (layers @ [sort cur])"
    by (rule tight_snoc [OF i(9)]) (use i(10) in simp)
  moreover have "distinct (concat (layers @ [sort cur]))"
  proof -
    have "set (concat layers) \<inter> set cur = {}" unfolding i(5) by blast
    then show ?thesis using i(4,6) by simp
  qed
  moreover have "set (concat (layers @ [sort cur])) \<subseteq> {..<n}" unfolding D' i(5) using i(7) by blast
  moreover have "list_all (\<lambda>l. sorted l \<and> l \<noteq> []) (layers @ [sort cur])"
  proof -
    have "sort cur \<noteq> []" using ne by (metis set_empty set_sort)
    then show ?thesis using i(11) by simp
  qed
  moreover have "layers @ [sort cur] \<noteq> [] \<longrightarrow> (\<forall>v \<in> set nxt. \<exists>u \<in> set (last (layers @ [sort cur])). (u, v) \<in> edge_rel edges)"
    using r(6) by simp
  ultimately have "kahn_inv n edges ds' nxt (layers @ [sort cur])"
    unfolding kahn_inv_def using i(1) r(2-5) by blast
  with r(1) show ?thesis by blast
qed

lemma kahn_loop:
  assumes "kahn_inv n edges ds cur layers" and "processed = length (concat layers)"
  shows "\<exists>ds' layers'. layers_loop edges ds cur layers processed = Inr (layers', length (concat layers')) \<and> kahn_inv n edges ds' [] layers'"
  using assms
proof (induction edges ds cur layers processed rule: layers_loop.induct)
  case (1 edges ds cur layers processed)
  show ?case
  proof (cases "cur = []")
    case True
    then show ?thesis using 1(2,3) by (subst layers_loop.simps) auto
  next
    case False
    from kahn_step [OF 1(2) False] obtain ds' nxt where
      s: "release_layer edges ds (sort cur) = Inr (ds', nxt)" "kahn_inv n edges ds' nxt (layers @ [sort cur])" by blast
    from 1(1) [OF False refl s(1) refl s(2)] 1(3) False s(1) show ?thesis
      by (subst layers_loop.simps) simp
  qed
qed

section \<open>Layers are exact\<close>

definition layers_ok :: "nat \<Rightarrow> (node_id \<times> node_id) set \<Rightarrow> node_id list list \<Rightarrow> bool" where
  "layers_ok n E ls \<longleftrightarrow> distinct (concat ls) \<and> set (concat ls) = {..<n} \<and> layered E ls \<and> tight E ls \<and>
     list_all (\<lambda>l. sorted l \<and> l \<noteq> []) ls"

lemma kahn_init:
  assumes "graph_ok n edges rev_edges"
  shows "kahn_inv n edges (map (in_edges rev_edges) [0..<n]) (filter (\<lambda>v. map (in_edges rev_edges) [0..<n] ! v = 0) [0..<n]) []"
  using assms by (auto simp: kahn_inv_def graph_ok_def layered_def tight_def)

lemma kahn_stuck:
  assumes inv: "kahn_inv n edges ds [] layers" and E: "acyclic (edge_rel edges)"
  shows "set (concat layers) = {..<n}"
proof (rule ccontr)
  note i = kahn_invD [OF inv]
  let ?S = "{..<n} - set (concat layers)"
  assume "set (concat layers) \<noteq> {..<n}"
  with i(7) have ne: "?S \<noteq> {}" by blast
  have "finite (edge_rel edges)" using i(1) by (rule finite_subset) simp
  with E have "wf (edge_rel edges)" by (simp add: finite_acyclic_wf)
  then obtain v where v: "v \<in> ?S" "\<And>u. (u, v) \<in> edge_rel edges \<Longrightarrow> u \<notin> ?S" using ne wfE_min by (metis ex_in_conv)
  then have "ds ! v \<noteq> 0" using i(5) by auto
  moreover have "v < n" using v(1) by blast
  ultimately have "(\<Sum>u \<in> ?S. count_list (targets edges u) v) \<noteq> 0" using i(3) [of v] by linarith
  then obtain u where "u \<in> ?S" "count_list (targets edges u) v \<noteq> 0" by (rule sum.not_neutral_contains_not_neutral)
  with v(2) [of u] count_list_pos_iff [of "targets edges u" v] show False by (simp add: edge_rel_def)
qed

lemma layered_acyclic:
  assumes "distinct (concat ls)" and "layered E ls" and "\<And>u v. (u, v) \<in> E \<Longrightarrow> v \<in> set (concat ls)"
  shows "acyclic E"
proof -
  define lay where "lay v = (LEAST j. j < length ls \<and> v \<in> set (ls ! j))" for v
  have lay: "lay v < length ls \<and> v \<in> set (ls ! lay v)" if "v \<in> set (concat ls)" for v
  proof -
    from that obtain j where "j < length ls \<and> v \<in> set (ls ! j)" unfolding in_concat_nth by blast
    then show ?thesis unfolding lay_def by (rule LeastI)
  qed
  have "lay u < lay v" if uv: "(u, v) \<in> E" for u v
  proof -
    from lay [OF assms(3) [OF uv]] assms(2) uv obtain i where i: "i < lay v" "u \<in> set (ls ! i)" unfolding layered_def by blast
    moreover have "i < length ls" using i(1) lay [OF assms(3) [OF uv]] by simp
    ultimately have "lay u \<le> i" unfolding lay_def [of u] by (intro Least_le) simp
    with i(1) show ?thesis by simp
  qed
  then have "E \<subseteq> measure lay" by auto
  then show ?thesis using wf_measure wf_subset wf_acyclic by blast
qed

lemma compute_layers_exact:
  assumes g: "graph_ok n edges rev_edges"
  shows "if acyclic (edge_rel edges) then \<exists>ls. compute_layers n edges rev_edges = Inr ls \<and> layers_ok n (edge_rel edges) ls
    else compute_layers n edges rev_edges = Inl (Err CycleDetected)"
proof (cases "n = 0")
  case True
  then have "edge_rel edges = {}" using g by (simp add: graph_ok_def)
  then show ?thesis using True by (simp add: compute_layers_def layers_ok_def layered_def tight_def acyclic_def)
next
  case False
  let ?d = "map (in_edges rev_edges) [0..<n]"
  from kahn_loop [OF kahn_init [OF g]] obtain ds ls where
    run: "layers_loop edges ?d (filter (\<lambda>v. ?d ! v = 0) [0..<n]) [] 0 = Inr (ls, length (concat ls))" and inv: "kahn_inv n edges ds [] ls"
    by auto
  have len: "length (concat ls) = card (set (concat ls))" by (rule distinct_card [OF kahn_invD(6) [OF inv], symmetric])
  have res: "compute_layers n edges rev_edges = (if set (concat ls) = {..<n} then Inr ls else Inl (Err CycleDetected))"
  proof -
    have "length (concat ls) = n \<longleftrightarrow> set (concat ls) = {..<n}"
      using kahn_invD(7) [OF inv] unfolding len by (metis card_lessThan card_subset_eq finite_lessThan)
    then show ?thesis using False run by (simp add: compute_layers_def Let_def in_edges_def [abs_def])
  qed
  show ?thesis
  proof (cases "acyclic (edge_rel edges)")
    case True
    then have "set (concat ls) = {..<n}" by (rule kahn_stuck [OF inv])
    moreover from this have "layers_ok n (edge_rel edges) ls" using kahn_invD(6,8,9,11) [OF inv] unfolding layers_ok_def by blast
    ultimately show ?thesis using True res by simp
  next
    case cyc: False
    have "set (concat ls) \<noteq> {..<n}"
    proof
      assume "set (concat ls) = {..<n}"
      then have "acyclic (edge_rel edges)" using kahn_invD(1) [OF inv] by (intro layered_acyclic [OF kahn_invD(6,8) [OF inv]]) auto
      with cyc show False ..
    qed
    with cyc res show ?thesis by simp
  qed
qed

section \<open>Searching\<close>

lemma leave_visited:
  assumes "(x, g) \<in> E\<^sup>*" and "x \<in> V" and "g \<notin> V" and "\<And>u v. u \<in> V \<Longrightarrow> (u, v) \<in> E \<Longrightarrow> v \<in> V \<union> S"
  shows "\<exists>s \<in> S. (s, g) \<in> E\<^sup>*"
  using assms(1,2)
proof (induction rule: converse_rtrancl_induct)
  case base
  with assms(3) show ?case by blast
next
  case (step y z)
  from assms(4) [OF step.prems step.hyps(1)] step.IH step.hyps(2) show ?case by blast
qed

lemma path_loop_exact:
  assumes "\<And>u. u \<in> set visited \<Longrightarrow> u \<noteq> goal \<and> set (targets edges u) \<subseteq> set visited \<union> set stack"
  shows "path_loop edges goal visited stack \<longleftrightarrow> (\<exists>s \<in> set stack. (s, goal) \<in> (edge_rel edges)\<^sup>*)"
  using assms
proof (induction edges goal visited stack rule: path_loop.induct)
  case (2 edges goal visited node stack)
  let ?E = "edge_rel edges"
  consider "node = goal" | (old) "node \<noteq> goal" "node \<in> set visited" | (new) "node \<noteq> goal" "node \<notin> set visited" by blast
  then show ?case
  proof cases
    case old
    have "\<And>u. u \<in> set visited \<Longrightarrow> u \<noteq> goal \<and> set (targets edges u) \<subseteq> set visited \<union> set stack" using "2.prems" old(2) by auto
    note IH = "2.IH"(1) [OF old this]
    have "\<exists>s \<in> set stack. (s, goal) \<in> ?E\<^sup>*" if "(node, goal) \<in> ?E\<^sup>*"
      by (rule leave_visited [OF that old(2)]) (use "2.prems" old(2) in \<open>auto simp: edge_rel_def\<close>)
    then show ?thesis using IH old by auto
  next
    case new
    have "\<And>u. u \<in> set (node # visited) \<Longrightarrow> u \<noteq> goal \<and>
        set (targets edges u) \<subseteq> set (node # visited) \<union> set (rev (targets edges node) @ stack)"
      using "2.prems" new(1) by auto
    note IH = "2.IH"(2) [OF new this]
    have "(node, goal) \<in> ?E\<^sup>* \<longleftrightarrow> (\<exists>s \<in> set (targets edges node). (s, goal) \<in> ?E\<^sup>*)"
      using new(1) by (auto simp: edge_rel_def elim: converse_rtranclE intro: converse_rtrancl_into_rtrancl)
    then show ?thesis using IH new by auto
  qed simp
qed simp

lemma reject_loop_exact:
  assumes "set queue \<subseteq> set rejected" and "\<And>u. u \<in> set rejected - set queue \<Longrightarrow> set (targets edges u) \<subseteq> set rejected"
  shows "set (reject_loop edges rejected queue) = (edge_rel edges)\<^sup>* `` set rejected"
  using assms
proof (induction edges rejected queue rule: reject_loop.induct)
  case (1 edges rejected)
  then have "edge_rel edges `` set rejected \<subseteq> set rejected" by (auto simp: edge_rel_def)
  then show ?case by (simp add: Image_closed_trancl)
next
  case (2 edges rejected node queue)
  let ?E = "edge_rel edges" and ?T = "set (targets edges node)"
  obtain r q where rq: "fold reject (targets edges node) (rejected, queue) = (r, q)" by fastforce
  have r: "set r = set rejected \<union> ?T" using reject_fold(1) [of "targets edges node" rejected queue] by (simp add: rq)
  obtain new where q: "q = queue @ new" "set new = ?T - set rejected"
    using reject_fold(2) [of "targets edges node" rejected queue] by (auto simp: rq)
  have 1: "set q \<subseteq> set r" using "2.prems"(1) unfolding q(1) r by (auto simp: q(2))
  have 2: "set (targets edges u) \<subseteq> set r" if u: "u \<in> set r - set q" for u
  proof (cases "u = node")
    case False
    have "u \<in> set rejected - set (node # queue)" using u False unfolding r q(1) by (auto simp: q(2))
    then show ?thesis using "2.prems"(2) [of u] unfolding r by blast
  qed (simp add: r)
  have "?E\<^sup>* `` set r = ?E\<^sup>* `` set rejected"
  proof -
    have "?T = ?E `` {node}" by (auto simp: edge_rel_def)
    moreover have "node \<in> set rejected" using "2.prems"(1) by simp
    ultimately show ?thesis unfolding r by (auto intro: converse_rtrancl_into_rtrancl)
  qed
  with "2.IH" [OF rq [symmetric] 1 2] show ?case by (simp add: rq)
qed

end
