(* ===== verification/Executor.thy ===== *)
theory Executor
  imports SchedDagInv
begin

text \<open>
  Executing a scheduled set of transactions layer by layer
  (\<^verbatim>\<open>exec/src/scheduler/executor.rs\<close>) and choosing between conflicting ones
  (\<^verbatim>\<open>exec/src/scheduler/conflict.rs\<close>).  The parallel map over a layer collects its
  results in the order of the layer, so it is a map.  Floating-point numbers are the
  rationals they denote; the cycles per byte of a resolver is a finite, positive number.
\<close>

section \<open>Execution\<close>

record execution_receipt =
  er_cycles :: "64 word"
  er_gas_used :: "64 word"
  er_logs :: "string list"

datatype execution_result = Success node_id nat execution_receipt | Failed node_id nat string

datatype execution_error = TxCountMismatch nat nat | MissingResult

fun result_node_id :: "execution_result \<Rightarrow> node_id" where
  "result_node_id (Success node_id _ _) = node_id"
| "result_node_id (Failed node_id _ _) = node_id"

fun is_success :: "execution_result \<Rightarrow> bool" where
  "is_success (Success _ _ _) = True"
| "is_success (Failed _ _ _) = False"

fun result_layer :: "execution_result \<Rightarrow> nat" where
  "result_layer (Success _ layer _) = layer"
| "result_layer (Failed _ layer _) = layer"

definition execution_result_of :: "node_id \<Rightarrow> nat \<Rightarrow> string + execution_receipt \<Rightarrow> execution_result" where
  "execution_result_of node_id layer r = (case r of Inr receipt \<Rightarrow> Success node_id layer receipt | Inl e \<Rightarrow> Failed node_id layer e)"

type_synonym executor_fn = "cell_tx \<Rightarrow> node_id \<Rightarrow> string + execution_receipt"

definition run_layer :: "cell_tx list \<Rightarrow> executor_fn \<Rightarrow> node_id list \<Rightarrow> (execution_error, (node_id \<times> (string + execution_receipt)) list) res" where
  "run_layer txs f layer = rmap (\<lambda>node_id. rbind (idx txs node_id) (\<lambda>tx. Inr (node_id, f tx node_id))) layer"

definition store_results :: "nat \<Rightarrow> execution_result option list \<Rightarrow> (node_id \<times> (string + execution_receipt)) list \<Rightarrow>
    (execution_error, execution_result option list) res" where
  "store_results layer_idx results rs = rfold (\<lambda>results (node_id, r).
     rbind (idx results node_id) (\<lambda>_. Inr (results[node_id := Some (execution_result_of node_id layer_idx r)]))) results rs"

definition execute :: "cell_dag \<Rightarrow> cell_tx list \<Rightarrow> executor_fn \<Rightarrow> (execution_error, execution_result list) res" where
  "execute dag txs f =
     (if length txs \<noteq> dg_node_count dag then Inl (Err (TxCountMismatch (dg_node_count dag) (length txs)))
      else rbind (rfold (\<lambda>results (layer_idx, layer). rbind (run_layer txs f layer) (store_results layer_idx results))
          (replicate (length txs) None) (enumerate 0 (dg_layers dag))) (\<lambda>results.
        rmap (\<lambda>r. ok_or r MissingResult) results))"

definition execute_sequential :: "cell_tx list \<Rightarrow> executor_fn \<Rightarrow> (execution_error, execution_result list) res" where
  "execute_sequential txs f = Inr (map (\<lambda>(node_id, tx). execution_result_of node_id 0 (f tx node_id)) (enumerate 0 txs))"

record execution_stats =
  es_total_txs :: nat
  es_successful_txs :: nat
  es_failed_txs :: nat
  es_max_layer_depth :: nat

definition get_stats :: "execution_result list \<Rightarrow> execution_stats" where
  "get_stats results =
     (let total = length results; successful = length (filter is_success results);
          max_layer = (if results = [] then 0 else Max (set (map result_layer results))) in
      \<lparr>es_total_txs = total, es_successful_txs = successful, es_failed_txs = total - successful, es_max_layer_depth = max_layer + 1\<rparr>)"

section \<open>Conflict resolution\<close>

record conflict_key =
  ck_fee_density :: rat
  ck_blue_preference :: "64 word"
  ck_wtxid :: byte32

datatype ordering = OrdLess | OrdEqual | OrdGreater

definition cmp :: "'a::linorder \<Rightarrow> 'a \<Rightarrow> ordering" where
  "cmp a b = (if a < b then OrdLess else if a = b then OrdEqual else OrdGreater)"

definition ord_then :: "ordering \<Rightarrow> ordering \<Rightarrow> ordering" where
  "ord_then a b = (case a of OrdEqual \<Rightarrow> b | _ \<Rightarrow> a)"

definition key_cmp :: "conflict_key \<Rightarrow> conflict_key \<Rightarrow> ordering" where
  "key_cmp k k' = ord_then (ord_then (cmp (ck_fee_density k') (ck_fee_density k))
     (cmp (ck_blue_preference k') (ck_blue_preference k))) (cmp (ck_wtxid k) (ck_wtxid k'))"

definition compute_key :: "(bytes \<Rightarrow> byte32) \<Rightarrow> rat \<Rightarrow> cell_tx \<Rightarrow> 64 word \<Rightarrow> 64 word \<Rightarrow> 64 word option \<Rightarrow> conflict_key" where
  "compute_key blake3 cycles_per_byte tx fee_amount cycles blue_score =
     (let size = f64 (of_nat (serialized_size tx));
          cycles_size = f64 (f64 (of_nat (unat cycles)) / cycles_per_byte);
          effective_size = max size cycles_size;
          fee_density = (if effective_size > 0 then f64 (f64 (of_nat (unat fee_amount)) / effective_size) else 0) in
      \<lparr>ck_fee_density = fee_density, ck_blue_preference = (case blue_score of Some b \<Rightarrow> b | None \<Rightarrow> 0),
       ck_wtxid = compute_wtxid blake3 tx\<rparr>)"

datatype conflict_resolution = KeepFirst | KeepSecond

type_synonym candidate = "cell_tx \<times> 64 word \<times> 64 word \<times> 64 word option"

definition candidate_key :: "(bytes \<Rightarrow> byte32) \<Rightarrow> rat \<Rightarrow> candidate \<Rightarrow> conflict_key" where
  "candidate_key blake3 cpb = (\<lambda>(tx, fee_amount, cycles, blue). compute_key blake3 cpb tx fee_amount cycles blue)"

definition resolve :: "(bytes \<Rightarrow> byte32) \<Rightarrow> rat \<Rightarrow> candidate \<Rightarrow> candidate \<Rightarrow> conflict_resolution" where
  "resolve blake3 cpb a b = (case key_cmp (candidate_key blake3 cpb a) (candidate_key blake3 cpb b) of
     OrdLess \<Rightarrow> KeepFirst | OrdGreater \<Rightarrow> KeepSecond | OrdEqual \<Rightarrow> KeepFirst)"

text \<open>A stable sort with a comparison function.\<close>

primrec insert_by :: "('a \<Rightarrow> 'a \<Rightarrow> ordering) \<Rightarrow> 'a \<Rightarrow> 'a list \<Rightarrow> 'a list" where
  "insert_by c x [] = [x]"
| "insert_by c x (y # ys) = (if c x y = OrdGreater then y # insert_by c x ys else x # y # ys)"

definition sort_by :: "('a \<Rightarrow> 'a \<Rightarrow> ordering) \<Rightarrow> 'a list \<Rightarrow> 'a list" where
  "sort_by c xs = foldr (insert_by c) xs []"

definition select_winners :: "(bytes \<Rightarrow> byte32) \<Rightarrow> rat \<Rightarrow> candidate list \<Rightarrow> nat list" where
  "select_winners blake3 cpb txs =
     map fst (sort_by (\<lambda>(_, k1) (_, k2). key_cmp k1 k2) (map (\<lambda>(i, t). (i, candidate_key blake3 cpb t)) (enumerate 0 txs)))"

section \<open>Execution fills every slot\<close>

lemma store_results_ok:
  assumes "\<forall>v \<in> set layer. v < length results"
  shows "\<exists>results'. store_results k results (map (\<lambda>v. (v, g v)) layer) = Inr results' \<and> length results' = length results \<and>
    (\<forall>i < length results. results' ! i = (if i \<in> set layer then Some (execution_result_of i k (g i)) else results ! i))"
  using assms
proof (induction layer arbitrary: results)
  case (Cons v layer)
  let ?r = "results[v := Some (execution_result_of v k (g v))]"
  from Cons.IH [of ?r] Cons.prems obtain results' where
    IH: "store_results k ?r (map (\<lambda>v. (v, g v)) layer) = Inr results'" "length results' = length results"
      "\<forall>i < length results. results' ! i = (if i \<in> set layer then Some (execution_result_of i k (g i)) else ?r ! i)" by auto
  have "store_results k results (map (\<lambda>v. (v, g v)) (v # layer)) = Inr results'"
    using IH(1) Cons.prems by (simp add: store_results_def)
  then show ?case using IH(2,3) Cons.prems by (intro exI [of _ results']) (auto simp: nth_list_update)
qed (simp add: store_results_def)

lemma execute_layers:
  assumes "set (concat ls) \<subseteq> {..<length txs}" and "distinct (concat ls)"
  shows "\<exists>results. rfold (\<lambda>results (layer_idx, layer). rbind (run_layer txs f layer) (store_results layer_idx results))
      (replicate (length txs) None) (enumerate 0 ls) = Inr results \<and> length results = length txs \<and>
    (\<forall>i < length txs. if i \<in> set (concat ls) then \<exists>j < length ls. i \<in> set (ls ! j) \<and> results ! i = Some (execution_result_of i j (f (txs ! i) i))
       else results ! i = None)"
  using assms
proof (induction ls rule: rev_induct)
  case (snoc l ls)
  let ?step = "\<lambda>results (layer_idx, layer). rbind (run_layer txs f layer) (store_results layer_idx results)"
  from snoc obtain results where r: "rfold ?step (replicate (length txs) None) (enumerate 0 ls) = Inr results" "length results = length txs"
    "\<forall>i < length txs. if i \<in> set (concat ls) then \<exists>j < length ls. i \<in> set (ls ! j) \<and> results ! i = Some (execution_result_of i j (f (txs ! i) i))
       else results ! i = None" by auto
  have ln: "\<forall>v \<in> set l. v < length results" using snoc.prems(1) r(2) by auto
  have run: "run_layer txs f l = Inr (map (\<lambda>v. (v, f (txs ! v) v)) l)"
    unfolding run_layer_def by (rule rmap_total) (use ln r(2) in simp)
  obtain results' where s: "store_results (length ls) results (map (\<lambda>v. (v, f (txs ! v) v)) l) = Inr results'" "length results' = length results"
    "\<forall>i < length results. results' ! i = (if i \<in> set l then Some (execution_result_of i (length ls) (f (txs ! i) i)) else results ! i)"
    using store_results_ok [OF ln, of "length ls" "\<lambda>v. f (txs ! v) v"] by blast
  have fin: "rfold ?step (replicate (length txs) None) (enumerate 0 (ls @ [l])) = Inr results'"
    by (simp add: enumerate_append_eq rfold_append r(1) run s(1))
  have slot: "if i \<in> set (concat (ls @ [l])) then \<exists>j < length (ls @ [l]). i \<in> set ((ls @ [l]) ! j) \<and> results' ! i = Some (execution_result_of i j (f (txs ! i) i))
       else results' ! i = None" if i: "i < length txs" for i
  proof (cases "i \<in> set l")
    case True
    then show ?thesis using s(3) i r(2) by (auto intro!: exI [of _ "length ls"])
  next
    case False
    show ?thesis
    proof (cases "i \<in> set (concat ls)")
      case True
      obtain j where "j < length ls" "i \<in> set (ls ! j)" "results ! i = Some (execution_result_of i j (f (txs ! i) i))"
        using r(3) [rule_format, OF i] unfolding if_P [OF True] by blast
      then have "j < length (ls @ [l]) \<and> i \<in> set ((ls @ [l]) ! j) \<and> results' ! i = Some (execution_result_of i j (f (txs ! i) i))"
        using s(3) i r(2) False by (simp add: nth_append)
      moreover have "i \<in> set (concat (ls @ [l]))" using True by simp
      ultimately show ?thesis unfolding if_P [OF \<open>i \<in> set (concat (ls @ [l]))\<close>] by blast
    next
      case out: False
      then have "results' ! i = None" using r(2,3) s(3) i False by simp
      moreover have "i \<notin> set (concat (ls @ [l]))" using out False by simp
      ultimately show ?thesis by (simp only: if_False)
    qed
  qed
  show ?case using fin s(2) r(2) slot by (intro exI [of _ results'] conjI allI impI) (simp only:)+
qed simp

lemma execute_ok:
  assumes n: "dg_node_count dag = length txs" and ok: "layers_ok (length txs) E (dg_layers dag)"
  shows "\<exists>rs. execute dag txs f = Inr rs \<and> length rs = length txs \<and>
    (\<forall>i < length txs. \<exists>j < length (dg_layers dag). i \<in> set (dg_layers dag ! j) \<and> rs ! i = execution_result_of i j (f (txs ! i) i))"
proof -
  from ok have l: "set (concat (dg_layers dag)) = {..<length txs}" "distinct (concat (dg_layers dag))" unfolding layers_ok_def by blast+
  obtain results where r: "rfold (\<lambda>results (layer_idx, layer). rbind (run_layer txs f layer) (store_results layer_idx results))
      (replicate (length txs) None) (enumerate 0 (dg_layers dag)) = Inr results" "length results = length txs"
    "\<forall>i < length txs. if i \<in> {..<length txs} then \<exists>j < length (dg_layers dag). i \<in> set (dg_layers dag ! j) \<and>
        results ! i = Some (execution_result_of i j (f (txs ! i) i)) else results ! i = None"
    using execute_layers [of "dg_layers dag" txs f, unfolded l(1)] l(2) by blast
  have r3: "\<exists>j < length (dg_layers dag). i \<in> set (dg_layers dag ! j) \<and> results ! i = Some (execution_result_of i j (f (txs ! i) i))"
    if "i < length txs" for i using r(3) that by simp
  have some: "\<exists>v. x = Some v" if "x \<in> set results" for x
    using that r3 unfolding in_set_conv_nth r(2) by metis
  have "rmap (\<lambda>r. ok_or r MissingResult) results = Inr (map the results)"
    by (rule rmap_total) (use some in force)
  then have "execute dag txs f = Inr (map the results)" by (simp add: execute_def n r(1))
  moreover have "map the results ! i = execution_result_of i j (f (txs ! i) i)"
    if "i < length txs" "results ! i = Some (execution_result_of i j (f (txs ! i) i))" for i j using that r(2) by simp
  ultimately show ?thesis using r(2) r3 by (intro exI [of _ "map the results"] conjI allI impI) (simp, simp, blast)
qed

end
