(* ===== verification/SighashProps.thy ===== *)
theory SighashProps
  imports Sighash
begin

text \<open>
  What identifiers and signature hashes commit to.  Every encoding fed to a hasher is
  self-delimiting, so equal identifiers mean equal transactions and equal signature
  hashes mean equal signed views, for hash functions that do not collide on the strings
  at hand; and sharing sub-hashes between inputs does not change any signature hash.
\<close>

section \<open>Self-delimiting parts\<close>

lemma dep_type_byte_inject [simp]: "dep_type_byte a = dep_type_byte b \<longleftrightarrow> a = b"
  by (cases a; cases b) (simp_all add: dep_type_byte_def)

interpretation enc_hash: self_delimiting hash_bytes "\<lambda>_. True"
  by unfold_locales simp

interpretation enc_bytes32: self_delimiting bytes32 "\<lambda>bs. length bs < 2 ^ 32"
  by unfold_locales (auto simp: bytes32_def len32_inject)

interpretation enc_input: self_delimiting input_bytes "\<lambda>_. True"
  by unfold_locales (simp add: input_bytes_def)

interpretation enc_dep: self_delimiting dep_bytes "\<lambda>_. True"
  by unfold_locales (simp add: dep_bytes_def)

definition small_script :: "script \<Rightarrow> bool" where
  "small_script s \<longleftrightarrow> length (sc_args s) < 2 ^ 32"

definition small_output :: "cell_output \<Rightarrow> bool" where
  "small_output out \<longleftrightarrow> small_script (co_lock out) \<and> (case co_type out of None \<Rightarrow> True | Some t \<Rightarrow> small_script t)"

interpretation enc_script: self_delimiting script_bytes small_script
proof
  fix a b x y
  assume "small_script a" "small_script b" "script_bytes a @ x = script_bytes b @ y"
  with enc_bytes32.uniq [of "sc_args a" "sc_args b" x y] show "a = b \<and> x = y"
    by (simp add: script_bytes_def small_script_def)
qed

interpretation enc_output: self_delimiting output_bytes small_output
proof
  fix a b x y
  assume s: "small_output a" "small_output b" and e: "output_bytes a @ x = output_bytes b @ y"
  from enc_script.uniq [of "co_lock a" "co_lock b"] s e
  have l: "co_lock a = co_lock b" and e': "(case co_type a of Some t \<Rightarrow> [1] @ script_bytes t | None \<Rightarrow> [0]) @ le64 (co_capacity a) @ x =
      (case co_type b of Some t \<Rightarrow> [1] @ script_bytes t | None \<Rightarrow> [0]) @ le64 (co_capacity b) @ y"
    by (auto simp: output_bytes_def small_output_def)
  have "co_type a = co_type b \<and> le64 (co_capacity a) @ x = le64 (co_capacity b) @ y"
    using e' s enc_script.uniq [of "the (co_type a)" "the (co_type b)" "le64 (co_capacity a) @ x" "le64 (co_capacity b) @ y"]
    by (auto simp: small_output_def split: option.splits)
  with l show "a = b \<and> x = y" by simp
qed

section \<open>Identifiers\<close>

text \<open>The lengths fit 32 bits, and there is one data field per output, as the constructors require.\<close>

definition tx_small :: "cell_tx \<Rightarrow> bool" where
  "tx_small tx \<longleftrightarrow> length (tx_inputs tx) < 2 ^ 32 \<and> length (tx_cell_deps tx) < 2 ^ 32 \<and> length (tx_header_deps tx) < 2 ^ 32 \<and>
     length (tx_outputs tx) < 2 ^ 32 \<and> length (tx_witnesses tx) < 2 ^ 32 \<and> length (tx_outputs_data tx) = length (tx_outputs tx) \<and>
     list_all small_output (tx_outputs tx) \<and> list_all (\<lambda>d. length d < 2 ^ 32) (tx_outputs_data tx) \<and>
     list_all (\<lambda>w. length w < 2 ^ 32) (tx_witnesses tx)"

definition unsigned_part :: "cell_tx \<Rightarrow> cell_tx" where
  "unsigned_part tx = tx\<lparr>tx_witnesses := []\<rparr>"

lemma tx_body_uniq:
  assumes a: "tx_small a" and b: "tx_small b" and e: "tx_body a @ x = tx_body b @ y"
  shows "unsigned_part a = unsigned_part b \<and> x = y"
proof -
  note s = a [unfolded tx_small_def] b [unfolded tx_small_def]
  from e have v: "tx_version a = tx_version b" and
    e1: "len32 (length (tx_inputs a)) @ concat (map input_bytes (tx_inputs a)) @ (len32 (length (tx_cell_deps a)) @ concat (map dep_bytes (tx_cell_deps a)) @
     len32 (length (tx_header_deps a)) @ concat (map hash_bytes (tx_header_deps a)) @
     len32 (length (tx_outputs a)) @ concat (map output_bytes (tx_outputs a)) @ concat (map bytes32 (tx_outputs_data a)) @ x) =
     len32 (length (tx_inputs b)) @ concat (map input_bytes (tx_inputs b)) @ (len32 (length (tx_cell_deps b)) @ concat (map dep_bytes (tx_cell_deps b)) @
     len32 (length (tx_header_deps b)) @ concat (map hash_bytes (tx_header_deps b)) @
     len32 (length (tx_outputs b)) @ concat (map output_bytes (tx_outputs b)) @ concat (map bytes32 (tx_outputs_data b)) @ y)"
    by (simp_all add: tx_body_def)
  have T: "list_all (\<lambda>_. True) xs" for xs :: "'z list" by (simp add: list_all_iff)
  from enc_input.counted_uniq [OF _ _ T T e1] s have i: "tx_inputs a = tx_inputs b" and e2: "len32 (length (tx_cell_deps a)) @ concat (map dep_bytes (tx_cell_deps a)) @
     (len32 (length (tx_header_deps a)) @ concat (map hash_bytes (tx_header_deps a)) @
     len32 (length (tx_outputs a)) @ concat (map output_bytes (tx_outputs a)) @ concat (map bytes32 (tx_outputs_data a)) @ x) =
     len32 (length (tx_cell_deps b)) @ concat (map dep_bytes (tx_cell_deps b)) @
     (len32 (length (tx_header_deps b)) @ concat (map hash_bytes (tx_header_deps b)) @
     len32 (length (tx_outputs b)) @ concat (map output_bytes (tx_outputs b)) @ concat (map bytes32 (tx_outputs_data b)) @ y)"
    by blast+
  from enc_dep.counted_uniq [OF _ _ T T e2] s have d: "tx_cell_deps a = tx_cell_deps b" and
    e3: "len32 (length (tx_header_deps a)) @ concat (map hash_bytes (tx_header_deps a)) @
     (len32 (length (tx_outputs a)) @ concat (map output_bytes (tx_outputs a)) @ concat (map bytes32 (tx_outputs_data a)) @ x) =
     len32 (length (tx_header_deps b)) @ concat (map hash_bytes (tx_header_deps b)) @
     (len32 (length (tx_outputs b)) @ concat (map output_bytes (tx_outputs b)) @ concat (map bytes32 (tx_outputs_data b)) @ y)"
    by blast+
  from enc_hash.counted_uniq [OF _ _ T T e3] s have h: "tx_header_deps a = tx_header_deps b" and
    e4: "len32 (length (tx_outputs a)) @ concat (map output_bytes (tx_outputs a)) @ (concat (map bytes32 (tx_outputs_data a)) @ x) =
     len32 (length (tx_outputs b)) @ concat (map output_bytes (tx_outputs b)) @ (concat (map bytes32 (tx_outputs_data b)) @ y)"
    by blast+
  from enc_output.counted_uniq [OF _ _ _ _ e4] s have o: "tx_outputs a = tx_outputs b" and
    e5: "concat (map bytes32 (tx_outputs_data a)) @ x = concat (map bytes32 (tx_outputs_data b)) @ y" by blast+
  have "length (tx_outputs_data a) = length (tx_outputs_data b)" using s o by simp
  from enc_bytes32.list_uniq [OF this _ _ e5] s have "tx_outputs_data a = tx_outputs_data b \<and> x = y" by blast
  with v i d h o show ?thesis by (simp add: unsigned_part_def)
qed

lemma unsigned_part_eq:
  assumes "unsigned_part a = unsigned_part b" and "tx_witnesses a = tx_witnesses b"
  shows "a = b"
  using assms by (cases a; cases b) (simp add: unsigned_part_def)

text \<open>The first witness, for a transaction whose identifier covers it.\<close>

definition covered_witness :: "cell_tx \<Rightarrow> bytes option" where
  "covered_witness tx = (if tx_inputs tx = [] \<and> tx_outputs tx = [] then
     (case tx_witnesses tx of w # _ \<Rightarrow> Some w | [] \<Rightarrow> None) else None)"

lemma coinbase_fallback_covered:
  "coinbase_fallback tx = (case covered_witness tx of Some p \<Rightarrow> ascii ''coinbase-payload-fallback'' @ bytes32 p | None \<Rightarrow> [])"
  by (simp add: coinbase_fallback_def covered_witness_def is_coinbase_def split: list.splits)

lemma covered_witness_small:
  "tx_small tx \<Longrightarrow> covered_witness tx = Some w \<Longrightarrow> length w < 2 ^ 32"
  by (auto simp: covered_witness_def tx_small_def split: if_splits list.splits)

lemma txid_preimage_uniq:
  assumes a: "tx_small a" and b: "tx_small b" and e: "txid_preimage a = txid_preimage b"
  shows "unsigned_part a = unsigned_part b \<and> covered_witness a = covered_witness b"
proof -
  from e have "tx_body a @ coinbase_fallback a = tx_body b @ coinbase_fallback b" by (simp add: txid_preimage_def)
  from tx_body_uniq [OF a b this] have u: "unsigned_part a = unsigned_part b" and f: "coinbase_fallback a = coinbase_fallback b" by blast+
  have "covered_witness a = covered_witness b"
  proof (cases "covered_witness a"; cases "covered_witness b")
    fix p q assume pq: "covered_witness a = Some p" "covered_witness b = Some q"
    with f have "bytes32 p @ [] = bytes32 q @ []" by (simp add: coinbase_fallback_covered)
    with enc_bytes32.uniq [of p q "[]" "[]"] covered_witness_small [OF a pq(1)] covered_witness_small [OF b pq(2)] pq
    show ?thesis by simp
  qed (use f in \<open>auto simp: coinbase_fallback_covered ascii_def\<close>)
  with u show ?thesis by blast
qed

lemma wtxid_preimage_uniq:
  assumes a: "tx_small a" and b: "tx_small b" and e: "wtxid_preimage a = wtxid_preimage b"
  shows "a = b"
proof -
  let ?w = "\<lambda>tx. len32 (length (tx_witnesses tx)) @ concat (map bytes32 (tx_witnesses tx))"
  from e have "tx_body a @ coinbase_fallback a @ ?w a = tx_body b @ coinbase_fallback b @ ?w b" by (simp add: wtxid_preimage_def)
  from tx_body_uniq [OF a b this] have u: "unsigned_part a = unsigned_part b" and f: "coinbase_fallback a @ ?w a = coinbase_fallback b @ ?w b" by blast+
  then have cov: "(tx_inputs a = [] \<and> tx_outputs a = []) = (tx_inputs b = [] \<and> tx_outputs b = [])"
    by (cases a; cases b) (simp add: unsigned_part_def)
  note s = a [unfolded tx_small_def] b [unfolded tx_small_def]
  have len: "?w a @ [] = ?w b @ [] \<Longrightarrow> tx_witnesses a = tx_witnesses b"
    using enc_bytes32.counted_uniq [of "tx_witnesses a" "tx_witnesses b" "[]" "[]"] s by simp
  have "tx_witnesses a = tx_witnesses b"
  proof (cases "covered_witness a"; cases "covered_witness b")
    assume "covered_witness a = None" "covered_witness b = None"
    with f len show ?thesis by (simp add: coinbase_fallback_covered)
  next
    fix q assume n: "covered_witness a = None" "covered_witness b = Some q"
    then have "tx_witnesses a = []" using cov by (auto simp: covered_witness_def split: if_splits list.splits)
    with f n show ?thesis by (auto simp: coinbase_fallback_covered ascii_def len32_def to_le.simps numeral_eq_Suc)
  next
    fix p assume n: "covered_witness a = Some p" "covered_witness b = None"
    then have "tx_witnesses b = []" using cov by (auto simp: covered_witness_def split: if_splits list.splits)
    with f n show ?thesis by (auto simp: coinbase_fallback_covered ascii_def len32_def to_le.simps numeral_eq_Suc)
  next
    fix p q assume pq: "covered_witness a = Some p" "covered_witness b = Some q"
    with f have "bytes32 p @ ?w a = bytes32 q @ ?w b" by (simp add: coinbase_fallback_covered)
    with enc_bytes32.uniq [of p q "?w a" "?w b"] covered_witness_small [OF a pq(1)] covered_witness_small [OF b pq(2)] len
    show ?thesis by simp
  qed
  with u show ?thesis by (rule unsigned_part_eq)
qed

section \<open>Sharing sub-hashes\<close>

definition previous_part :: "(bytes \<Rightarrow> byte32) \<Rightarrow> cell_tx \<Rightarrow> sig_hash_type \<Rightarrow> byte32" where
  "previous_part blake3 tx t = (if is_sighash_anyone_can_pay t then ZERO_HASH else cell_tx_signing_hash blake3 (previous_outputs_message tx))"

definition sequences_part :: "(bytes \<Rightarrow> byte32) \<Rightarrow> cell_tx \<Rightarrow> sig_hash_type \<Rightarrow> byte32" where
  "sequences_part blake3 tx t = (if is_sighash_single t \<or> is_sighash_anyone_can_pay t \<or> is_sighash_none t then ZERO_HASH
     else cell_tx_signing_hash blake3 (sequences_message tx))"

definition sig_ops_part :: "(bytes \<Rightarrow> byte32) \<Rightarrow> cell_tx \<Rightarrow> sig_hash_type \<Rightarrow> byte32" where
  "sig_ops_part blake3 tx t = (if is_sighash_anyone_can_pay t then ZERO_HASH else cell_tx_signing_hash blake3 (sig_op_counts_message tx))"

definition single_message :: "cell_tx \<Rightarrow> nat \<Rightarrow> bytes" where
  "single_message tx i = hash_cell_output (tx_outputs tx ! i) (output_data tx i)"

definition outputs_part :: "(bytes \<Rightarrow> byte32) \<Rightarrow> cell_tx \<Rightarrow> nat \<Rightarrow> sig_hash_type \<Rightarrow> byte32" where
  "outputs_part blake3 tx i t = (if is_sighash_none t then ZERO_HASH
     else if is_sighash_single t then (if i \<ge> length (tx_outputs tx) then ZERO_HASH else cell_tx_signing_hash blake3 (single_message tx i))
     else cell_tx_signing_hash blake3 (outputs_message tx))"

definition signing_message :: "(bytes \<Rightarrow> byte32) \<Rightarrow> cell_tx \<Rightarrow> nat \<Rightarrow> sig_hash_type \<Rightarrow> standard_signing_input \<Rightarrow> bytes" where
  "signing_message blake3 tx i t si = (let input = tx_inputs tx ! i in
     le32 (tx_version tx) @ hash_bytes (previous_part blake3 tx t) @ hash_bytes (sequences_part blake3 tx t) @ hash_bytes (sig_ops_part blake3 tx t) @
     hash_outpoint (ci_previous_output input) @ hash_standard_signing_input si @ le64 (si_capacity si) @
     le64 (ci_since input) @ [1] @ hash_bytes (outputs_part blake3 tx i t) @ le64 0 @ hash_bytes ZERO_HASH @ [t])"

definition holds :: "byte32 option \<Rightarrow> byte32 \<Rightarrow> bool" where
  "holds c h \<longleftrightarrow> (case c of None \<Rightarrow> True | Some v \<Rightarrow> v = h)"

definition coherent_values :: "(bytes \<Rightarrow> byte32) \<Rightarrow> cell_tx \<Rightarrow> reused_values \<Rightarrow> bool" where
  "coherent_values blake3 tx r \<longleftrightarrow>
     holds (rv_previous_outputs_hash r) (cell_tx_signing_hash blake3 (previous_outputs_message tx)) \<and>
     holds (rv_sequences_hash r) (cell_tx_signing_hash blake3 (sequences_message tx)) \<and>
     holds (rv_sig_op_counts_hash r) (cell_tx_signing_hash blake3 (sig_op_counts_message tx)) \<and>
     holds (rv_outputs_hash r) (cell_tx_signing_hash blake3 (outputs_message tx))"

lemma holds_simps [simp]: "holds None h" "holds (Some v) h \<longleftrightarrow> v = h"
  by (simp_all add: holds_def)

lemma coherent_new [simp]: "coherent_values blake3 tx reused_new"
  by (simp add: coherent_values_def reused_new_def)

lemma standard_parts:
  assumes "coherent_values blake3 tx r"
  shows "\<exists>r'. standard_previous_outputs_hash blake3 tx t r = (previous_part blake3 tx t, r') \<and> coherent_values blake3 tx r'"
    "\<exists>r'. standard_sequences_hash blake3 tx t r = (sequences_part blake3 tx t, r') \<and> coherent_values blake3 tx r'"
    "\<exists>r'. standard_sig_op_counts_hash blake3 tx t r = (sig_ops_part blake3 tx t, r') \<and> coherent_values blake3 tx r'"
    "\<exists>r'. standard_outputs_hash blake3 tx t r i = (outputs_part blake3 tx i t, r') \<and> coherent_values blake3 tx r'"
  using assms
  by (auto simp: coherent_values_def standard_previous_outputs_hash_def reuse_previous_outputs_hash_def previous_part_def
      standard_sequences_hash_def reuse_sequences_hash_def sequences_part_def standard_sig_op_counts_hash_def
      reuse_sig_op_counts_hash_def sig_ops_part_def standard_outputs_hash_def reuse_outputs_hash_def outputs_part_def
      single_message_def split: option.splits)

lemma calc_standard_signature_hash_eq:
  assumes "coherent_values blake3 tx r" and i: "i < length (tx_inputs tx)"
  shows "\<exists>r'. calc_standard_signature_hash blake3 sha256 tx i t si r =
      Inr (schnorr_signing_hash sha256 (signing_message blake3 tx i t si), r') \<and> coherent_values blake3 tx r'"
proof -
  obtain r1 where r1: "standard_previous_outputs_hash blake3 tx t r = (previous_part blake3 tx t, r1)" "coherent_values blake3 tx r1"
    using standard_parts(1) [OF assms(1)] by blast
  obtain r2 where r2: "standard_sequences_hash blake3 tx t r1 = (sequences_part blake3 tx t, r2)" "coherent_values blake3 tx r2"
    using standard_parts(2) [OF r1(2)] by blast
  obtain r3 where r3: "standard_sig_op_counts_hash blake3 tx t r2 = (sig_ops_part blake3 tx t, r3)" "coherent_values blake3 tx r3"
    using standard_parts(3) [OF r2(2)] by blast
  obtain r4 where r4: "standard_outputs_hash blake3 tx t r3 i = (outputs_part blake3 tx i t, r4)" "coherent_values blake3 tx r4"
    using standard_parts(4) [OF r3(2)] by blast
  have "\<not> is_coinbase tx" "payload_bytes tx = []" using i by (auto simp: is_coinbase_def payload_bytes_def payload_def)
  then have r5: "standard_payload_hash blake3 tx r4 = (ZERO_HASH, r4)" by (simp add: standard_payload_hash_def)
  show ?thesis using i r4(2)
    by (simp add: calc_standard_signature_hash_def r1(1) r2(1) r3(1) r4(1) r5 signing_message_def Let_def)
qed

text \<open>The signature hashes of several inputs, computed in order with one set of reused values.\<close>

definition signature_hashes :: "(bytes \<Rightarrow> byte32) \<Rightarrow> (bytes \<Rightarrow> byte32) \<Rightarrow> cell_tx \<Rightarrow>
    (nat \<times> sig_hash_type \<times> standard_signing_input) list \<Rightarrow> reused_values \<Rightarrow> (unit, byte32 list \<times> reused_values) res" where
  "signature_hashes blake3 sha256 tx reqs r = rfold (\<lambda>(hs, r) (i, t, si).
     rbind (calc_standard_signature_hash blake3 sha256 tx i t si r) (\<lambda>(h, r). Inr (hs @ [h], r))) ([], r) reqs"

lemma rbind_unit: "rbind m Inr = m"
  by (cases m) simp_all

lemma signature_hashes_from:
  assumes "coherent_values blake3 tx r"
  shows "rbind (rfold (\<lambda>(hs, r) (i, t, si). rbind (calc_standard_signature_hash blake3 sha256 tx i t si r) (\<lambda>(h, r). Inr (hs @ [h], r))) (acc, r) reqs)
      (\<lambda>(hs, _). Inr hs) =
    rbind (rmap (\<lambda>(i, t, si). rbind (calc_standard_signature_hash blake3 sha256 tx i t si reused_new) (\<lambda>(h, _). Inr h)) reqs) (\<lambda>hs. Inr (acc @ hs))"
  using assms
proof (induction reqs arbitrary: acc r)
  case (Cons req reqs)
  obtain i t si where req: "req = (i, t, si)" by (cases req)
  show ?case
  proof (cases "i < length (tx_inputs tx)")
    case True
    obtain r1 where 1: "calc_standard_signature_hash blake3 sha256 tx i t si r =
        Inr (schnorr_signing_hash sha256 (signing_message blake3 tx i t si), r1)" "coherent_values blake3 tx r1"
      using calc_standard_signature_hash_eq [OF Cons.prems True] by blast
    obtain r2 where 2: "calc_standard_signature_hash blake3 sha256 tx i t si reused_new =
        Inr (schnorr_signing_hash sha256 (signing_message blake3 tx i t si), r2)"
      using calc_standard_signature_hash_eq [OF coherent_new True] by blast
    show ?thesis using Cons.IH [OF 1(2), of "acc @ [schnorr_signing_hash sha256 (signing_message blake3 tx i t si)]"]
      by (simp add: req 1(1) 2 rbind_assoc)
  next
    case False
    then have "calc_standard_signature_hash blake3 sha256 tx i t si s = Inl Panic" for s
      by (simp add: calc_standard_signature_hash_def idx_def)
    then show ?thesis by (simp add: req)
  qed
qed simp

section \<open>What a signature hash commits to\<close>

lemma write_len_inject: "a < 2 ^ 64 \<Longrightarrow> b < 2 ^ 64 \<Longrightarrow> write_len a = write_len b \<longleftrightarrow> a = b"
  by (auto simp: write_len_def word_of_nat_eq_iff take_bit_nat_eq_self)

lemma length_write_len [simp]: "length (write_len n) = 8"
  by (simp add: write_len_def)

interpretation enc_var_bytes: self_delimiting write_var_bytes "\<lambda>bs. length bs < 2 ^ 32"
  by unfold_locales (auto simp: write_var_bytes_def write_len_inject)

interpretation enc_signing_script: self_delimiting hash_signing_script small_script
proof
  fix a b x y
  assume "small_script a" "small_script b" "hash_signing_script a @ x = hash_signing_script b @ y"
  with enc_var_bytes.uniq [of "sc_args a" "sc_args b" x y] show "a = b \<and> x = y"
    by (simp add: hash_signing_script_def small_script_def)
qed

lemma write_bool_option:
  "write_bool (p \<noteq> None) @ (case p of Some t \<Rightarrow> f t | None \<Rightarrow> []) = (case p of Some t \<Rightarrow> 1 # f t | None \<Rightarrow> [0])"
  by (simp add: write_bool_def split: option.splits)

interpretation enc_signing_output: self_delimiting "\<lambda>(out, data). hash_cell_output out data" "\<lambda>(out, data). small_output out \<and> length data < 2 ^ 32"
proof
  fix a b :: "cell_output \<times> bytes" and x y
  obtain out d out' d' where ab: "a = (out, d)" "b = (out', d')" by (cases a, cases b)
  let ?t = "\<lambda>p. case p of Some t \<Rightarrow> 1 # hash_signing_script t | None \<Rightarrow> [0]"
  assume "case a of (out, data) \<Rightarrow> small_output out \<and> length data < 2 ^ 32" "case b of (out, data) \<Rightarrow> small_output out \<and> length data < 2 ^ 32"
    and e: "(case a of (out, data) \<Rightarrow> hash_cell_output out data) @ x = (case b of (out, data) \<Rightarrow> hash_cell_output out data) @ y"
  then have s: "small_output out" "small_output out'" "length d < 2 ^ 32" "length d' < 2 ^ 32" by (simp_all add: ab)
  from e have c: "co_capacity out = co_capacity out'" and
    e1: "hash_signing_script (co_lock out) @ (?t (co_type out) @ write_var_bytes d @ x) =
      hash_signing_script (co_lock out') @ (?t (co_type out') @ write_var_bytes d' @ y)"
    by (simp_all add: ab hash_cell_output_def flip: write_bool_option)
  from enc_signing_script.uniq [OF _ _ e1] s have l: "co_lock out = co_lock out'" and
    e2: "?t (co_type out) @ write_var_bytes d @ x = ?t (co_type out') @ write_var_bytes d' @ y" by (auto simp: small_output_def)
  have "co_type out = co_type out' \<and> write_var_bytes d @ x = write_var_bytes d' @ y"
    using e2 s enc_signing_script.uniq [of "the (co_type out)" "the (co_type out')" "write_var_bytes d @ x" "write_var_bytes d' @ y"]
    by (auto simp: small_output_def split: option.splits)
  with enc_var_bytes.uniq [of d d' x y] s l c show "a = b \<and> x = y" by (simp add: ab)
qed

interpretation enc_signing_input: self_delimiting "\<lambda>si. hash_standard_signing_input si @ le64 (si_capacity si)" "\<lambda>_. True"
proof
  fix a b x y
  assume e: "(hash_standard_signing_input a @ le64 (si_capacity a)) @ x = (hash_standard_signing_input b @ le64 (si_capacity b)) @ y"
  let ?t = "\<lambda>p. case p of Some h \<Rightarrow> 1 # hash_bytes h | None \<Rightarrow> [0]"
  from e have l: "si_lock_hash a = si_lock_hash b" and e1: "?t (si_type_hash a) @ hash_bytes (si_data_hash a) @ le64 (si_data_bytes a) @ le64 (si_capacity a) @ x =
      ?t (si_type_hash b) @ hash_bytes (si_data_hash b) @ le64 (si_data_bytes b) @ le64 (si_capacity b) @ y"
    by (simp_all add: hash_standard_signing_input_def flip: write_bool_option)
  then have "si_type_hash a = si_type_hash b \<and> hash_bytes (si_data_hash a) @ le64 (si_data_bytes a) @ le64 (si_capacity a) @ x =
      hash_bytes (si_data_hash b) @ le64 (si_data_bytes b) @ le64 (si_capacity b) @ y"
    by (auto split: option.splits)
  with l show "a = b \<and> x = y" by simp
qed

text \<open>The outputs a flag commits to, with their data, and the whole signed view of a transaction.\<close>

definition outputs_with_data :: "cell_tx \<Rightarrow> (cell_output \<times> bytes) list" where
  "outputs_with_data tx = map (\<lambda>(i, out). (out, output_data tx i)) (enumerate 0 (tx_outputs tx))"

definition committed_outputs :: "cell_tx \<Rightarrow> nat \<Rightarrow> sig_hash_type \<Rightarrow> (cell_output \<times> bytes) list option" where
  "committed_outputs tx i t = (if is_sighash_none t then None
     else if is_sighash_single t then (if i < length (tx_outputs tx) then Some [(tx_outputs tx ! i, output_data tx i)] else None)
     else Some (outputs_with_data tx))"

record signed_view =
  sv_version :: "32 word"
  sv_previous_outputs :: "out_point list option"
  sv_sinces :: "64 word list option"
  sv_own_input :: cell_input
  sv_own_cell :: standard_signing_input
  sv_outputs :: "(cell_output \<times> bytes) list option"
  sv_flag :: sig_hash_type

definition view_of :: "cell_tx \<Rightarrow> nat \<Rightarrow> sig_hash_type \<Rightarrow> standard_signing_input \<Rightarrow> signed_view" where
  "view_of tx i t si = \<lparr>sv_version = tx_version tx,
     sv_previous_outputs = (if is_sighash_anyone_can_pay t then None else Some (map ci_previous_output (tx_inputs tx))),
     sv_sinces = (if is_sighash_single t \<or> is_sighash_anyone_can_pay t \<or> is_sighash_none t then None else Some (map ci_since (tx_inputs tx))),
     sv_own_input = tx_inputs tx ! i, sv_own_cell = si, sv_outputs = committed_outputs tx i t, sv_flag = t\<rparr>"

text \<open>The strings given to the sub-hasher.\<close>

definition sub_messages :: "cell_tx \<Rightarrow> nat \<Rightarrow> bytes set" where
  "sub_messages tx i = {previous_outputs_message tx, sequences_message tx, outputs_message tx, single_message tx i}"

lemma outputs_message_eq: "outputs_message tx = concat (map (\<lambda>(out, data). hash_cell_output out data) (outputs_with_data tx))"
  by (simp add: outputs_message_def outputs_with_data_def comp_def case_prod_unfold)

lemma outputs_with_data_small:
  "tx_small tx \<Longrightarrow> list_all (\<lambda>(out, data). small_output out \<and> length data < 2 ^ 32) (outputs_with_data tx)"
  by (auto simp: tx_small_def outputs_with_data_def list_all_iff output_data_def in_set_enumerate_eq)

interpretation enc_outpoint: self_delimiting hash_outpoint "\<lambda>_. True"
  by unfold_locales (simp add: hash_outpoint_def)

interpretation enc_since: self_delimiting "le64 :: 64 word \<Rightarrow> bytes" "\<lambda>_. True"
  by unfold_locales simp

lemma sub_message_inject:
  "previous_outputs_message a = previous_outputs_message b \<Longrightarrow> map ci_previous_output (tx_inputs a) = map ci_previous_output (tx_inputs b)"
  "sequences_message a = sequences_message b \<Longrightarrow> map ci_since (tx_inputs a) = map ci_since (tx_inputs b)"
  "tx_small a \<Longrightarrow> tx_small b \<Longrightarrow> outputs_message a = outputs_message b \<Longrightarrow> outputs_with_data a = outputs_with_data b"
  "tx_small a \<Longrightarrow> tx_small b \<Longrightarrow> i < length (tx_outputs a) \<Longrightarrow> j < length (tx_outputs b) \<Longrightarrow> single_message a i = single_message b j \<Longrightarrow>
     tx_outputs a ! i = tx_outputs b ! j \<and> output_data a i = output_data b j"
proof -
  have ne: "hash_outpoint op \<noteq> []" "le64 w \<noteq> []" "(case p of (out, data) \<Rightarrow> hash_cell_output out data) \<noteq> []" for op w p
    by (simp_all add: hash_outpoint_def hash_cell_output_def case_prod_unfold flip: length_greater_0_conv)
  have T: "list_all (\<lambda>_. True) xs" for xs :: "'z list" by (simp add: list_all_iff)
  show "previous_outputs_message a = previous_outputs_message b \<Longrightarrow> map ci_previous_output (tx_inputs a) = map ci_previous_output (tx_inputs b)"
    by (rule enc_outpoint.concat_uniq [OF ne(1) T T]) (simp add: previous_outputs_message_def comp_def)
  show "sequences_message a = sequences_message b \<Longrightarrow> map ci_since (tx_inputs a) = map ci_since (tx_inputs b)"
    by (rule enc_since.concat_uniq [OF ne(2) T T]) (simp add: sequences_message_def comp_def)
  assume s: "tx_small a" "tx_small b"
  show "outputs_message a = outputs_message b \<Longrightarrow> outputs_with_data a = outputs_with_data b"
    unfolding outputs_message_eq by (rule enc_signing_output.concat_uniq [OF ne(3) outputs_with_data_small [OF s(1)] outputs_with_data_small [OF s(2)]])
  assume ij: "i < length (tx_outputs a)" "j < length (tx_outputs b)" "single_message a i = single_message b j"
  have g: "small_output (tx_outputs tx ! k) \<and> length (output_data tx k) < 2 ^ 32" if "tx_small tx" "k < length (tx_outputs tx)" for tx k
    using that by (auto simp: tx_small_def list_all_length output_data_def)
  from enc_signing_output.uniq [of "(tx_outputs a ! i, output_data a i)" "(tx_outputs b ! j, output_data b j)" "[]" "[]"]
    g [OF s(1) ij(1)] g [OF s(2) ij(2)] ij(3)
  show "tx_outputs a ! i = tx_outputs b ! j \<and> output_data a i = output_data b j" by (simp add: single_message_def)
qed

lemma signing_message_uniq:
  assumes e: "signing_message blake3 a i t si = signing_message blake3 b j u sj"
  shows "tx_version a = tx_version b \<and> tx_inputs a ! i = tx_inputs b ! j \<and> si = sj \<and> t = u \<and>
    previous_part blake3 a t = previous_part blake3 b u \<and> sequences_part blake3 a t = sequences_part blake3 b u \<and>
    outputs_part blake3 a i t = outputs_part blake3 b j u"
proof -
  from e have v: "tx_version a = tx_version b" "previous_part blake3 a t = previous_part blake3 b u"
      "sequences_part blake3 a t = sequences_part blake3 b u"
    and e1: "hash_outpoint (ci_previous_output (tx_inputs a ! i)) @ (hash_standard_signing_input si @ le64 (si_capacity si) @
      le64 (ci_since (tx_inputs a ! i)) @ [1] @ hash_bytes (outputs_part blake3 a i t) @ le64 0 @ hash_bytes ZERO_HASH @ [t]) =
      hash_outpoint (ci_previous_output (tx_inputs b ! j)) @ (hash_standard_signing_input sj @ le64 (si_capacity sj) @
      le64 (ci_since (tx_inputs b ! j)) @ [1] @ hash_bytes (outputs_part blake3 b j u) @ le64 0 @ hash_bytes ZERO_HASH @ [u])"
    by (auto simp: signing_message_def Let_def)
  from enc_outpoint.uniq [OF TrueI TrueI e1] have o: "ci_previous_output (tx_inputs a ! i) = ci_previous_output (tx_inputs b ! j)"
    and e2: "(hash_standard_signing_input si @ le64 (si_capacity si)) @
      (le64 (ci_since (tx_inputs a ! i)) @ [1] @ hash_bytes (outputs_part blake3 a i t) @ le64 0 @ hash_bytes ZERO_HASH @ [t]) =
      (hash_standard_signing_input sj @ le64 (si_capacity sj)) @
      (le64 (ci_since (tx_inputs b ! j)) @ [1] @ hash_bytes (outputs_part blake3 b j u) @ le64 0 @ hash_bytes ZERO_HASH @ [u])"
    by auto
  from enc_signing_input.uniq [OF TrueI TrueI e2] v o show ?thesis by auto
qed

lemma hash_zero_or_inject:
  assumes "inj_on H M" and "z \<notin> H ` M" and "x \<in> M" and "y \<in> M"
  shows "(if p then z else H x) = (if q then z else H y) \<longleftrightarrow> p = q \<and> (p \<or> x = y)"
  using assms by (auto simp: inj_on_def)

lemma signed_view_uniq:
  assumes s: "tx_small a" "tx_small b" and e: "signing_message blake3 a i t si = signing_message blake3 b j u sj"
    and M: "inj_on (cell_tx_signing_hash blake3) (sub_messages a i \<union> sub_messages b j)"
      "ZERO_HASH \<notin> cell_tx_signing_hash blake3 ` (sub_messages a i \<union> sub_messages b j)"
  shows "view_of a i t si = view_of b j u sj"
proof -
  let ?H = "cell_tx_signing_hash blake3"
  note sm = signing_message_uniq [OF e]
  then have t: "t = u" by blast
  note sub = sub_messages_def
  have p: "map ci_previous_output (tx_inputs a) = map ci_previous_output (tx_inputs b)" if "\<not> is_sighash_anyone_can_pay t"
  proof (rule sub_message_inject(1), rule inj_onD [OF M(1)])
    show "?H (previous_outputs_message a) = ?H (previous_outputs_message b)" using sm that t by (simp add: previous_part_def)
  qed (simp_all add: sub)
  have q: "map ci_since (tx_inputs a) = map ci_since (tx_inputs b)"
    if "\<not> (is_sighash_single t \<or> is_sighash_anyone_can_pay t \<or> is_sighash_none t)"
  proof (rule sub_message_inject(2), rule inj_onD [OF M(1)])
    show "?H (sequences_message a) = ?H (sequences_message b)" using sm that t by (simp add: sequences_part_def)
  qed (simp_all add: sub)
  have "committed_outputs a i t = committed_outputs b j t"
  proof (cases "is_sighash_none t")
    case False
    note none = this
    show ?thesis
    proof (cases "is_sighash_single t")
      case True
      with sm none t have e: "(if length (tx_outputs a) \<le> i then ZERO_HASH else ?H (single_message a i)) =
          (if length (tx_outputs b) \<le> j then ZERO_HASH else ?H (single_message b j))" by (simp add: outputs_part_def)
      have m: "single_message a i \<in> sub_messages a i \<union> sub_messages b j" "single_message b j \<in> sub_messages a i \<union> sub_messages b j"
        by (simp_all add: sub)
      note hash_zero_or_inject [OF M m, THEN iffD1, OF e]
      with sub_message_inject(4) [OF s, of i j] none True show ?thesis by (simp add: committed_outputs_def not_le) linarith
    next
      case False
      with sm none t have "?H (outputs_message a) = ?H (outputs_message b)" by (simp add: outputs_part_def)
      then have "outputs_message a = outputs_message b" by (rule inj_onD [OF M(1)]) (simp_all add: sub)
      from sub_message_inject(3) [OF s this] none False show ?thesis by (simp add: committed_outputs_def)
    qed
  qed (simp add: committed_outputs_def)
  with sm p q show ?thesis unfolding view_of_def t by simp
qed

section \<open>Properties\<close>

text \<open>
  C22: equal transaction identifiers identify everything but the witnesses, and the first witness
  too when there are neither inputs nor outputs, for a hash function that does not collide
  on the two strings hashed.
\<close>

theorem txid_binding:
  assumes "tx_small a" and "tx_small b" and "inj_on blake3 {txid_preimage a, txid_preimage b}"
    and "compute_txid blake3 a = compute_txid blake3 b"
  shows "unsigned_part a = unsigned_part b \<and> covered_witness a = covered_witness b"
  by (rule txid_preimage_uniq [OF assms(1,2)], rule inj_onD [OF assms(3)]) (use assms(4) in \<open>simp_all add: compute_txid_def\<close>)

text \<open>Transactions that differ in their witness only.\<close>

definition ex_plain_tx :: "bytes \<Rightarrow> cell_tx" where
  "ex_plain_tx w = \<lparr>tx_version = 1, tx_inputs = [cell_input_new (out_point_new 7 0) 0], tx_cell_deps = [], tx_header_deps = [],
     tx_outputs = [\<lparr>co_lock = script_new 1 0 [], co_type = None, co_capacity = 5\<rparr>], tx_outputs_data = [[]], tx_witnesses = [w]\<rparr>"

lemma ex_plain_tx_small: "length w < 2 ^ 32 \<Longrightarrow> tx_small (ex_plain_tx w)"
  by (simp add: ex_plain_tx_def tx_small_def small_output_def small_script_def script_new_def)

lemma ex_plain_tx_txid: "txid_preimage (ex_plain_tx w) = txid_preimage (ex_plain_tx [])"
  by (simp add: ex_plain_tx_def txid_preimage_def tx_body_def coinbase_fallback_def is_coinbase_def)

lemma ex_plain_tx_message: "signing_message blake3 (ex_plain_tx w) 0 t si = signing_message blake3 (ex_plain_tx []) 0 t si"
  by (simp add: ex_plain_tx_def signing_message_def Let_def previous_part_def sequences_part_def sig_ops_part_def outputs_part_def
      previous_outputs_message_def sequences_message_def sig_op_counts_message_def outputs_message_def single_message_def output_data_def)

theorem txid_binding_witness:
  "unsigned_part (ex_plain_tx [1]) = unsigned_part (ex_plain_tx [2]) \<and> covered_witness (ex_plain_tx [1]) = covered_witness (ex_plain_tx [2])"
  by (rule txid_binding [of _ _ "\<lambda>bs. word_of_nat (length bs)"])
    (simp_all add: ex_plain_tx_small compute_txid_def ex_plain_tx_txid [of "[1]"] ex_plain_tx_txid [of "[2]"])

text \<open>Equal witness transaction identifiers identify the whole transaction.\<close>

theorem wtxid_binding:
  assumes "tx_small a" and "tx_small b" and "inj_on blake3 {wtxid_preimage a, wtxid_preimage b}"
    and "compute_wtxid blake3 a = compute_wtxid blake3 b"
  shows "a = b"
  by (rule wtxid_preimage_uniq [OF assms(1,2)], rule inj_onD [OF assms(3)]) (use assms(4) in \<open>simp_all add: compute_wtxid_def\<close>)

theorem wtxid_binding_witness:
  "compute_wtxid (\<lambda>bs. word_of_nat (length bs)) (ex_plain_tx [1]) \<noteq> compute_wtxid (\<lambda>bs. word_of_nat (length bs)) (ex_plain_tx [1, 1])"
proof
  let ?h = "\<lambda>bs. word_of_nat (length bs) :: byte32"
  assume e: "compute_wtxid ?h (ex_plain_tx [1]) = compute_wtxid ?h (ex_plain_tx [1, 1])"
  have l: "length (wtxid_preimage (ex_plain_tx w)) = length (wtxid_preimage (ex_plain_tx [])) + length w" for w
    by (simp add: ex_plain_tx_def wtxid_preimage_def tx_body_def coinbase_fallback_def is_coinbase_def bytes32_def)
  have "inj_on ?h {wtxid_preimage (ex_plain_tx [1]), wtxid_preimage (ex_plain_tx [1, 1])}"
    by (auto simp: l [of "[1]"] l [of "[1, 1]"])
  from wtxid_binding [OF _ _ this e] show False by (simp add: ex_plain_tx_small) (simp add: ex_plain_tx_def)
qed

text \<open>
  C21: equal signature hashes have equal signed views: version, the input signed and the cell it
  spends, the flag, and whatever inputs, lock times and outputs with data the flag commits
  to, for hash functions without collisions or zero values on the strings hashed.
\<close>

theorem sighash_binding:
  assumes "tx_small a" and "tx_small b" and "i < length (tx_inputs a)" and "j < length (tx_inputs b)"
    and "inj_on (cell_tx_signing_hash blake3) (sub_messages a i \<union> sub_messages b j)"
    and "ZERO_HASH \<notin> cell_tx_signing_hash blake3 ` (sub_messages a i \<union> sub_messages b j)"
    and "inj_on (schnorr_signing_hash sha256) {signing_message blake3 a i t si, signing_message blake3 b j u sj}"
    and "map_sum id fst (calc_standard_signature_hash blake3 sha256 a i t si reused_new) =
      map_sum id fst (calc_standard_signature_hash blake3 sha256 b j u sj reused_new)"
  shows "view_of a i t si = view_of b j u sj"
proof -
  obtain r r' where "calc_standard_signature_hash blake3 sha256 a i t si reused_new =
      Inr (schnorr_signing_hash sha256 (signing_message blake3 a i t si), r)"
    "calc_standard_signature_hash blake3 sha256 b j u sj reused_new =
      Inr (schnorr_signing_hash sha256 (signing_message blake3 b j u sj), r')"
    using calc_standard_signature_hash_eq [OF coherent_new assms(3)] calc_standard_signature_hash_eq [OF coherent_new assms(4)] by metis
  with assms(8) have "schnorr_signing_hash sha256 (signing_message blake3 a i t si) = schnorr_signing_hash sha256 (signing_message blake3 b j u sj)"
    by simp
  then have "signing_message blake3 a i t si = signing_message blake3 b j u sj"
    by (rule inj_onD [OF assms(7)]) simp_all
  from signed_view_uniq [OF assms(1,2) this assms(5,6)] show ?thesis .
qed

theorem sighash_binding_witness:
  "view_of (ex_plain_tx [1]) 0 1 \<lparr>si_lock_hash = 1, si_type_hash = None, si_data_hash = 2, si_data_bytes = 0, si_capacity = 9\<rparr> =
   view_of (ex_plain_tx [2]) 0 1 \<lparr>si_lock_hash = 1, si_type_hash = None, si_data_hash = 2, si_data_bytes = 0, si_capacity = 9\<rparr>"
  (is "view_of ?a 0 1 ?si = view_of ?b 0 1 ?si")
proof (rule sighash_binding [of _ _ _ _ "\<lambda>bs. word_of_nat (length bs)" "\<lambda>bs. word_of_nat (length bs)"])
  let ?h = "\<lambda>bs. word_of_nat (length bs) :: byte32"
  have m: "sub_messages (ex_plain_tx w) 0 = sub_messages (ex_plain_tx []) 0" for w
    by (simp add: sub_messages_def ex_plain_tx_def previous_outputs_message_def sequences_message_def outputs_message_def single_message_def output_data_def)
  have l: "length x \<in> {36, 8, 58}" if "x \<in> sub_messages (ex_plain_tx []) 0" for x
    using that by (auto simp: sub_messages_def ex_plain_tx_def previous_outputs_message_def sequences_message_def outputs_message_def
        single_message_def hash_outpoint_def hash_cell_output_def hash_signing_script_def write_var_bytes_def write_bool_def script_new_def output_data_def)
  have i: "x = y" if "x \<in> sub_messages (ex_plain_tx []) 0" "y \<in> sub_messages (ex_plain_tx []) 0" "length x = length y" for x y
    using that by (auto simp: sub_messages_def ex_plain_tx_def previous_outputs_message_def sequences_message_def outputs_message_def
        single_message_def hash_outpoint_def hash_cell_output_def hash_signing_script_def write_var_bytes_def write_bool_def script_new_def output_data_def)
  have hd: "cell_tx_signing_hash ?h x = word_of_nat (22 + length x)" for x by (simp add: cell_tx_signing_hash_def ascii_def)
  have small: "(word_of_nat (22 + a) :: byte32) = word_of_nat (22 + b) \<longleftrightarrow> a = b" if "a \<in> {36, 8, 58}" "b \<in> {36, 8, 58}" for a b :: nat
    using that by (auto simp: word_of_nat_eq_iff take_bit_nat_eq_self)
  show "inj_on (cell_tx_signing_hash ?h) (sub_messages ?a 0 \<union> sub_messages ?b 0)"
    unfolding m [of "[1]"] m [of "[2]"] inj_on_def hd using small l i by blast
  show "ZERO_HASH \<notin> cell_tx_signing_hash ?h ` (sub_messages ?a 0 \<union> sub_messages ?b 0)"
    unfolding m [of "[1]"] m [of "[2]"] using l by (force simp: hd ZERO_HASH_def)
  show "inj_on (schnorr_signing_hash ?h) {signing_message ?h ?a 0 1 ?si, signing_message ?h ?b 0 1 ?si}"
    unfolding ex_plain_tx_message [of _ "[1]"] ex_plain_tx_message [of _ "[2]"] by simp
  have n: "0 < length (tx_inputs (ex_plain_tx w))" for w by (simp add: ex_plain_tx_def)
  show "map_sum id fst (calc_standard_signature_hash ?h ?h ?a 0 1 ?si reused_new) =
      map_sum id fst (calc_standard_signature_hash ?h ?h ?b 0 1 ?si reused_new)"
    using calc_standard_signature_hash_eq [OF coherent_new n [of "[1]"], of ?h ?h 1 ?si]
      calc_standard_signature_hash_eq [OF coherent_new n [of "[2]"], of ?h ?h 1 ?si]
    unfolding ex_plain_tx_message [of _ "[1]"] ex_plain_tx_message [of _ "[2]"] by auto
qed (simp_all add: ex_plain_tx_small, simp_all add: ex_plain_tx_def)

text \<open>
  C23: computing the signature hashes of a transaction's inputs with one shared set of reused
  values, in any order and with any flags, gives exactly what computing each from scratch
  gives, panics on a missing input included.
\<close>

theorem reused_values_transparent:
  "rbind (signature_hashes blake3 sha256 tx reqs reused_new) (\<lambda>(hs, _). Inr hs) =
   rmap (\<lambda>(i, t, si). rbind (calc_standard_signature_hash blake3 sha256 tx i t si reused_new) (\<lambda>(h, _). Inr h)) reqs"
  using signature_hashes_from [OF coherent_new, where acc = "[]"] by (simp add: signature_hashes_def rbind_unit)

end
