(* ===== verification/SchedProps.thy ===== *)
theory SchedProps
  imports Executor SighashProps "HOL-Library.Multiset"
begin

text \<open>
  The scheduler as a whole: what the built graph is, when building fails, that executing
  a built graph agrees with executing in sequence, which transactions the block template
  drops, and that conflict resolution is a total order.
\<close>

section \<open>Grouped lists\<close>

text \<open>A map of lists that groups a list of pairs by their keys.\<close>

definition key_group :: "'k \<Rightarrow> ('k \<times> 'v) list \<Rightarrow> 'v list" where
  "key_group k L = map snd (filter (\<lambda>e. fst e = k) L)"

definition groups :: "('k::linorder, 'v list) btree \<Rightarrow> ('k \<times> 'v) list \<Rightarrow> bool" where
  "groups t L \<longleftrightarrow> bt_inv t \<and> (\<forall>k. map_of t k = (if key_group k L = [] then None else Some (key_group k L)))"

lemma group_simps [simp]:
  "key_group k [] = []" "key_group k (L @ M) = key_group k L @ key_group k M" "key_group k [(k', v)] = (if k' = k then [v] else [])"
  by (simp_all add: key_group_def)

lemma groups_Nil [simp]: "groups [] []"
  by (simp add: groups_def bt_inv_def)

lemma groups_push:
  assumes "groups t L"
  shows "groups (bt_push k v t) (L @ [(k, v)])"
proof -
  from assms have inv: "bt_inv t" and m: "\<And>k. map_of t k = (if key_group k L = [] then None else Some (key_group k L))"
    by (simp_all add: groups_def)
  have "map_of (bt_push k v t) = (map_of t)(k \<mapsto> key_group k L @ [v])"
    unfolding bt_push_def bt_update_default_ok(2) [OF inv] by (simp add: m)
  then show ?thesis using bt_update_default_ok(1) [OF inv] by (auto simp: groups_def bt_push_def m)
qed

lemma groups_get:
  assumes "groups t L"
  shows "(case bt_get t k of Some vs \<Rightarrow> vs | None \<Rightarrow> []) = key_group k L"
  using assms by (simp add: groups_def bt_get_def)

section \<open>The graph that is built\<close>

definition reads :: "cell_tx \<Rightarrow> out_point list" where
  "reads tx = map ci_previous_output (tx_inputs tx) @ map cd_out_point (tx_cell_deps tx)"

text \<open>The links in the order they are made: producer, consumer and kind.\<close>

definition links_for :: "(out_point, node_id) btree \<Rightarrow> node_id \<Rightarrow> dag_edge \<Rightarrow> out_point list \<Rightarrow> (node_id \<times> node_id \<times> dag_edge) list" where
  "links_for ps c kind ops = concat (map (\<lambda>op. case map_of ps op of Some p \<Rightarrow> [(p, c, kind)] | None \<Rightarrow> []) ops)"

lemma links_for_simps [simp]:
  "links_for ps c kind [] = []" "links_for ps c kind (op # ops) = links_for ps c kind [op] @ links_for ps c kind ops"
  by (simp_all add: links_for_def)

lemma links_for_iff: "(p, c', k) \<in> set (links_for ps c kind ops) \<longleftrightarrow> c' = c \<and> k = kind \<and> (\<exists>op \<in> set ops. map_of ps op = Some p)"
  by (force simp: links_for_def split: option.splits)

declare links_for_simps(2) [simp del]

definition links_of :: "(out_point, node_id) btree \<Rightarrow> node_id \<times> cell_tx \<Rightarrow> (node_id \<times> node_id \<times> dag_edge) list" where
  "links_of ps = (\<lambda>(c, tx). links_for ps c Dependency (map ci_previous_output (tx_inputs tx)) @
     links_for ps c ReadDep (map cd_out_point (tx_cell_deps tx)))"

definition spends_of :: "node_id \<times> cell_tx \<Rightarrow> (out_point \<times> node_id) list" where
  "spends_of = (\<lambda>(c, tx). map (\<lambda>i. (ci_previous_output i, c)) (tx_inputs tx))"

definition linked :: "links \<Rightarrow> (node_id \<times> node_id \<times> dag_edge) list \<Rightarrow> (out_point \<times> node_id) list \<Rightarrow> bool" where
  "linked l L C \<longleftrightarrow> groups (lk_edges l) L \<and> groups (lk_reverse_edges l) (map (\<lambda>(p, c, _). (c, p)) L) \<and> groups (lk_conflicts l) C"

lemma linked_link:
  assumes "linked l L C"
  shows "linked (link ps c kind op l) (L @ links_for ps c kind [op]) C"
  using assms groups_push [of "lk_edges l" L _ "(c, kind)"] groups_push [of "lk_reverse_edges l" "map (\<lambda>(p, c, _). (c, p)) L" c]
  by (auto simp: link_def linked_def links_for_def bt_get_def split: option.splits)

lemma linked_inputs:
  assumes "linked l L C"
  shows "linked (fold (link_input ps c) ins l) (L @ links_for ps c Dependency (map ci_previous_output ins))
     (C @ map (\<lambda>i. (ci_previous_output i, c)) ins)"
  using assms
proof (induction ins arbitrary: l L C)
  case (Cons i ins)
  let ?op = "ci_previous_output i"
  have "linked (link ps c Dependency ?op l) (L @ links_for ps c Dependency [?op]) C" by (rule linked_link [OF Cons.prems])
  then have "linked (link_input ps c i l) (L @ links_for ps c Dependency [?op]) (C @ [(?op, c)])"
    using groups_push [of _ C ?op c] by (simp add: link_input_def linked_def Let_def)
  from Cons.IH [OF this] show ?case
    by (simp only: fold.simps comp_apply list.map append_assoc append.simps links_for_simps(2) [of _ _ _ _ "map ci_previous_output ins"])
qed simp

lemma linked_deps:
  assumes "linked l L C"
  shows "linked (fold (link_dep ps c) ds l) (L @ links_for ps c ReadDep (map cd_out_point ds)) C"
  using assms
proof (induction ds arbitrary: l L)
  case (Cons d ds)
  have "linked (link_dep ps c d l) (L @ links_for ps c ReadDep [cd_out_point d]) C"
    unfolding link_dep_def by (rule linked_link [OF Cons.prems])
  from Cons.IH [OF this] show ?case
    by (simp only: fold.simps comp_apply list.map append_assoc links_for_simps(2) [of _ _ _ _ "map cd_out_point ds"])
qed simp

lemma linked_txs:
  assumes "linked l L C"
  shows "linked (fold (link_tx ps) cts l) (L @ concat (map (links_of ps) cts)) (C @ concat (map spends_of cts))"
  using assms
proof (induction cts arbitrary: l L C)
  case (Cons ct cts)
  obtain c tx where ct: "ct = (c, tx)" by (cases ct)
  have "linked (link_tx ps ct l) (L @ links_of ps ct) (C @ spends_of ct)"
    using linked_deps [OF linked_inputs [OF Cons.prems]] by (simp add: link_tx_def ct links_of_def spends_of_def)
  from Cons.IH [OF this] show ?case by simp
qed simp

subsection \<open>Producers\<close>

definition node_outputs :: "(bytes \<Rightarrow> byte32) \<Rightarrow> cell_tx list \<Rightarrow> node_id \<Rightarrow> out_point set" where
  "node_outputs blake3 txs u = {out_point_new (compute_wtxid blake3 (txs ! u)) (word_of_nat i) | i. i < length (tx_outputs (txs ! u))}"

lemma producers_sound:
  assumes "map_of (producers blake3 txs) op = Some u"
  shows "u < length txs \<and> op \<in> node_outputs blake3 txs u"
proof -
  let ?P = "\<lambda>ps. bt_inv ps \<and> (\<forall>op u. map_of ps op = Some u \<longrightarrow> u < length txs \<and> op \<in> node_outputs blake3 txs u)"
  have one: "?P (fold (\<lambda>(i, _). bt_insert (out_point_new (compute_wtxid blake3 (txs ! u)) (word_of_nat i)) u) es ps)"
    if "?P ps" "u < length txs" "\<forall>e \<in> set es. fst e < length (tx_outputs (txs ! u))" for ps u and es :: "(nat \<times> cell_output) list"
    using that
  proof (induction es arbitrary: ps)
    case (Cons e es)
    obtain i x where e: "e = (i, x)" by (cases e)
    let ?op = "out_point_new (compute_wtxid blake3 (txs ! u)) (word_of_nat i)"
    have "?op \<in> node_outputs blake3 txs u" using Cons.prems(3) by (auto simp: node_outputs_def e)
    then have "?P (bt_insert ?op u ps)" using Cons.prems(1,2) by (auto simp: bt_inv_insert map_of_bt_insert)
    from Cons.IH [OF this Cons.prems(2)] Cons.prems(3) show ?case by (simp add: e)
  qed simp
  have all: "?P (fold (add_producers blake3) cts ps)"
    if "?P ps" "\<forall>(c, tx) \<in> set cts. c < length txs \<and> tx = txs ! c" for cts ps
    using that
  proof (induction cts arbitrary: ps)
    case (Cons ct cts)
    obtain c tx where ct: "ct = (c, tx)" by (cases ct)
    with Cons.prems(2) have c: "c < length txs" "tx = txs ! c" by auto
    have "\<forall>e \<in> set (enumerate 0 (tx_outputs tx)). fst e < length (tx_outputs (txs ! c))"
      unfolding c(2) by (auto simp: in_set_enumerate_eq)
    from one [OF Cons.prems(1) c(1) this] have "?P (add_producers blake3 ct ps)" by (simp add: add_producers_def ct c(2) Let_def)
    from Cons.IH [OF this] Cons.prems(2) show ?case by simp
  qed simp
  have "?P (producers blake3 txs)" unfolding producers_def
    by (rule all) (auto simp: in_set_enumerate_eq bt_inv_def)
  with assms show ?thesis by blast
qed

section \<open>The built graph is well formed\<close>

definition all_links :: "(bytes \<Rightarrow> byte32) \<Rightarrow> cell_tx list \<Rightarrow> (node_id \<times> node_id \<times> dag_edge) list" where
  "all_links blake3 txs = concat (map (links_of (producers blake3 txs)) (enumerate 0 txs))"

definition all_spends :: "cell_tx list \<Rightarrow> (out_point \<times> node_id) list" where
  "all_spends txs = concat (map spends_of (enumerate 0 txs))"

definition tx_dependencies :: "(bytes \<Rightarrow> byte32) \<Rightarrow> cell_tx list \<Rightarrow> (node_id \<times> node_id) set" where
  "tx_dependencies blake3 txs = {(u, v). v < length txs \<and> (\<exists>op \<in> set (reads (txs ! v)). map_of (producers blake3 txs) op = Some u)}"

lemma links_of_iff: "(\<exists>k. (u, v, k) \<in> set (links_of ps (c, tx))) \<longleftrightarrow> v = c \<and> (\<exists>op \<in> set (reads tx). map_of ps op = Some u)"
  by (auto simp: links_of_def links_for_iff reads_def)

lemma set_enumerate: "set (enumerate 0 xs) = (\<lambda>c. (c, xs ! c)) ` {..<length xs}"
  by (auto simp: in_set_enumerate_eq)

lemma links_dependencies: "(\<exists>k. (u, v, k) \<in> set (all_links blake3 txs)) \<longleftrightarrow> (u, v) \<in> tx_dependencies blake3 txs"
proof -
  have "(\<exists>k. (u, v, k) \<in> set (all_links blake3 txs)) \<longleftrightarrow>
      (\<exists>c < length txs. \<exists>k. (u, v, k) \<in> set (links_of (producers blake3 txs) (c, txs ! c)))"
    by (auto simp: all_links_def set_enumerate)
  also have "\<dots> \<longleftrightarrow> (u, v) \<in> tx_dependencies blake3 txs" unfolding links_of_iff tx_dependencies_def by auto
  finally show ?thesis .
qed

lemma count_links:
  fixes L :: "(node_id \<times> node_id \<times> dag_edge) list"
  assumes "\<forall>(p, c, k) \<in> set L. p < n"
  shows "(\<Sum>u<n. count_list (map fst (key_group u L)) v) = length (key_group v (map (\<lambda>(p, c, _). (c, p)) L))"
  using assms
proof (induction L)
  case (Cons e L)
  obtain p c k where e: "e = (p, c, k)" by (cases e)
  have "count_list (map fst (key_group u (e # L))) v = (if u = p \<and> v = c then 1 else 0) + count_list (map fst (key_group u L)) v" for u
    by (simp add: key_group_def e)
  then have "(\<Sum>u<n. count_list (map fst (key_group u (e # L))) v) = (\<Sum>u<n. if u = p \<and> v = c then 1 else 0) + (\<Sum>u<n. count_list (map fst (key_group u L)) v)"
    by (simp add: sum.distrib)
  moreover have "(\<Sum>u<n. if u = p \<and> v = c then 1 else 0) = (if v = c then 1 else (0 :: nat))"
    using Cons.prems by (cases "v = c") (simp_all add: e)
  ultimately show ?case using Cons by (simp add: key_group_def e)
qed (simp add: key_group_def)

lemma build_graph:
  fixes txs h
  defines "l \<equiv> fold (link_tx (producers h txs)) (enumerate 0 txs) \<lparr>lk_edges = [], lk_reverse_edges = [], lk_conflicts = []\<rparr>"
  shows "graph_ok (length txs) (lk_edges l) (lk_reverse_edges l)" "edge_rel (lk_edges l) = tx_dependencies h txs"
    "groups (lk_conflicts l) (all_spends txs)" "groups (lk_edges l) (all_links h txs)"
proof -
  let ?L = "all_links h txs"
  have "linked \<lparr>lk_edges = [], lk_reverse_edges = [], lk_conflicts = []\<rparr> [] []" by (simp add: linked_def)
  from linked_txs [OF this] have lk: "linked l ?L (all_spends txs)" by (simp add: l_def all_links_def all_spends_def)
  then show "groups (lk_conflicts l) (all_spends txs)" "groups (lk_edges l) ?L" by (simp_all add: linked_def)
  have t: "targets (lk_edges l) u = map fst (key_group u ?L)" for u
    using groups_get [of "lk_edges l" ?L u] lk by (auto simp: targets_def linked_def split: option.splits)
  have r: "in_edges (lk_reverse_edges l) v = length (key_group v (map (\<lambda>(p, c, _). (c, p)) ?L))" for v
    using groups_get [of "lk_reverse_edges l" "map (\<lambda>(p, c, _). (c, p)) ?L" v] lk by (auto simp: in_edges_def linked_def split: option.splits)
  have "(u, v) \<in> edge_rel (lk_edges l) \<longleftrightarrow> (\<exists>k. (u, v, k) \<in> set ?L)" for u v by (force simp: edge_rel_def t key_group_def)
  then show e: "edge_rel (lk_edges l) = tx_dependencies h txs" by (auto simp: links_dependencies)
  have dep: "tx_dependencies h txs \<subseteq> {..<length txs} \<times> {..<length txs}"
    using producers_sound [of h txs] by (auto simp: tx_dependencies_def)
  then have "\<forall>(p, c, k) \<in> set ?L. p < length txs" using links_dependencies [of _ _ h txs] by blast
  from count_links [OF this] dep show "graph_ok (length txs) (lk_edges l) (lk_reverse_edges l)" by (simp add: graph_ok_def e t r)
qed

lemma dag_build_exact:
  "if acyclic (tx_dependencies blake3 txs)
   then \<exists>dag. dag_build blake3 txs = Inr dag \<and> dg_node_count dag = length txs \<and> edge_rel (dg_edges dag) = tx_dependencies blake3 txs \<and>
     layers_ok (length txs) (tx_dependencies blake3 txs) (dg_layers dag) \<and> groups (dg_edges dag) (all_links blake3 txs) \<and>
     (\<exists>t. groups t (all_spends txs) \<and> dg_conflicts dag = filter (\<lambda>(_, consumers). length consumers > 1) t)
   else dag_build blake3 txs = Inl (Err CycleDetected)"
proof -
  note g = build_graph [where txs = txs and h = blake3]
  from compute_layers_exact [OF g(1), unfolded g(2)] g(2-4) show ?thesis
    by (cases "acyclic (tx_dependencies blake3 txs)") (auto simp: dag_build_def Let_def)
qed

section \<open>Dropping conflicts\<close>








section \<open>Conflict order\<close>

definition key_rank :: "conflict_key \<Rightarrow> rat \<times> int \<times> byte32" where
  "key_rank k = (- ck_fee_density k, - int (unat (ck_blue_preference k)), ck_wtxid k)"

lemma key_cmp_rank: "key_cmp k k' = cmp (key_rank k) (key_rank k')"
proof -
  have "cmp (ck_blue_preference k') (ck_blue_preference k) = cmp (- int (unat (ck_blue_preference k))) (- int (unat (ck_blue_preference k')))"
    by (simp add: cmp_def word_less_def word_uint_eq_iff)
  moreover have "cmp (ck_fee_density k') (ck_fee_density k) = cmp (- ck_fee_density k) (- ck_fee_density k')"
    by (auto simp: cmp_def)
  ultimately show ?thesis
    by (auto simp: key_cmp_def key_rank_def cmp_def ord_then_def less_prod_def split: ordering.splits if_splits)
qed

lemma sort_by_key: "sort_by (\<lambda>x y. cmp (f x) (f y)) xs = sort_key f xs"
proof -
  have "insert_by (\<lambda>x y. cmp (f x) (f y)) x ys = insort_key f x ys" for x ys
    by (induction ys) (auto simp: cmp_def)
  then have "insert_by (\<lambda>x y. cmp (f x) (f y)) = insort_key f" by (intro ext)
  then show ?thesis by (simp add: sort_by_def sort_key_def)
qed

lemma map_sort_key: "map h (sort_key (\<lambda>x. g (h x)) xs) = sort_key g (map h xs)"
proof -
  have "map h (insort_key (\<lambda>x. g (h x)) x ys) = insort_key g (h x) (map h ys)" for x ys by (induction ys) auto
  then show ?thesis by (induction xs) simp_all
qed

definition winners_in_order :: "(bytes \<Rightarrow> byte32) \<Rightarrow> rat \<Rightarrow> candidate list \<Rightarrow> candidate list" where
  "winners_in_order blake3 cpb xs = map (\<lambda>i. xs ! i) (select_winners blake3 cpb xs)"

lemma winners_sorted: "winners_in_order blake3 cpb xs = sort_key (\<lambda>t. key_rank (candidate_key blake3 cpb t)) xs"
proof -
  let ?r = "\<lambda>t. key_rank (candidate_key blake3 cpb t)"
  have "select_winners blake3 cpb xs = map fst (sort_key (\<lambda>e. key_rank (snd e)) (map (\<lambda>(i, t). (i, candidate_key blake3 cpb t)) (enumerate 0 xs)))"
    by (simp add: select_winners_def key_cmp_rank case_prod_unfold sort_by_key [of "\<lambda>e. key_rank (snd e)"])
  also have "\<dots> = map fst (sort_key (\<lambda>e. ?r (snd e)) (enumerate 0 xs))"
    using map_sort_key [of "\<lambda>(i, t). (i, candidate_key blake3 cpb t)" "\<lambda>e. key_rank (snd e)" "enumerate 0 xs", symmetric]
    by (simp add: case_prod_unfold comp_def)
  finally have "winners_in_order blake3 cpb xs = map (\<lambda>e. xs ! fst e) (sort_key (\<lambda>e. ?r (snd e)) (enumerate 0 xs))"
    by (simp add: winners_in_order_def comp_def)
  also have "\<dots> = map snd (sort_key (\<lambda>e. ?r (snd e)) (enumerate 0 xs))" by (rule map_cong) (auto simp: in_set_enumerate_eq)
  also have "\<dots> = sort_key ?r xs" using map_sort_key [of snd ?r "enumerate 0 xs"] by simp
  finally show ?thesis .
qed

section \<open>Properties\<close>

lemma dag_build_Inr:
  assumes "dag_build blake3 txs = Inr dag"
  shows "dg_node_count dag = length txs" "edge_rel (dg_edges dag) = tx_dependencies blake3 txs"
    "layers_ok (length txs) (tx_dependencies blake3 txs) (dg_layers dag)" "groups (dg_edges dag) (all_links blake3 txs)"
    "\<exists>t. groups t (all_spends txs) \<and> dg_conflicts dag = filter (\<lambda>(_, consumers). length consumers > 1) t"
  using dag_build_exact [of blake3 txs] assms by (auto split: if_splits)

text \<open>
  C24: building the dependency graph always returns.  When the dependencies of the transactions
  have no cycle it returns layers that hold every node once, in ascending order, each in
  the layer after its latest predecessor; otherwise it reports the cycle.  The other
  errors never occur.
\<close>

theorem dag_build_layers:
  "if acyclic (tx_dependencies blake3 txs)
   then \<exists>dag. dag_build blake3 txs = Inr dag \<and> edge_rel (dg_edges dag) = tx_dependencies blake3 txs \<and>
     layers_ok (length txs) (tx_dependencies blake3 txs) (dg_layers dag)
   else dag_build blake3 txs = Inl (Err CycleDetected)"
  using dag_build_exact [of blake3 txs] by (auto split: if_splits)

text \<open>
  C28: the path search returns on every graph, cyclic or not, and answers exactly whether one node
  reaches another.
\<close>

theorem has_path_exact:
  "has_path dag u v \<longleftrightarrow> (u, v) \<in> (edge_rel (dg_edges dag))\<^sup>*"
  using path_loop_exact [of "[]" v "dg_edges dag" "[u]"] by (auto simp: has_path_def)

definition forget_layer :: "execution_result \<Rightarrow> execution_result" where
  "forget_layer r = (case r of Success n _ receipt \<Rightarrow> Success n 0 receipt | Failed n _ e \<Rightarrow> Failed n 0 e)"

lemma forget_layer_of [simp]: "forget_layer (execution_result_of n j r) = execution_result_of n 0 r"
  "result_layer (execution_result_of n j r) = j"
  by (simp_all add: forget_layer_def execution_result_of_def split: sum.splits)

lemma layer_unique:
  assumes "distinct (concat ls)" and "i < length ls" "j < length ls" and "v \<in> set (ls ! i)" "v \<in> set (ls ! j)"
  shows "i = j"
proof (rule ccontr)
  assume "i \<noteq> j"
  with assms(1-3) have "set (ls ! i) \<inter> set (ls ! j) = {}"
  proof (induction ls arbitrary: i j)
    case (Cons l ls)
    have sub: "set (ls ! k) \<subseteq> set (concat ls)" if "k < length ls" for k using that unfolding set_concat by (blast intro: nth_mem)
    show ?case using Cons.prems Cons.IH [of "i - 1" "j - 1"] sub [of "i - 1"] sub [of "j - 1"]
      by (cases i; cases j) (auto simp del: set_concat)
  qed simp
  with assms(4,5) show False by blast
qed

text \<open>
  C25: executing a built graph yields one result per transaction, in the order of the
  transactions, equal up to the layer number to executing them in sequence; every result
  names a layer its node is in, and a transaction runs in a later layer than those it depends on.
\<close>

theorem execute_matches_sequential:
  assumes "dag_build blake3 txs = Inr dag"
  shows "\<exists>rs. execute dag txs f = Inr rs \<and> execute_sequential txs f = Inr (map forget_layer rs) \<and>
    (\<forall>(u, v) \<in> tx_dependencies blake3 txs. result_layer (rs ! u) < result_layer (rs ! v))"
proof -
  note b = dag_build_Inr [OF assms]
  note l = b(3) [unfolded layers_ok_def]
  obtain rs where rs: "execute dag txs f = Inr rs" "length rs = length txs"
    "\<forall>i < length txs. \<exists>j < length (dg_layers dag). i \<in> set (dg_layers dag ! j) \<and> rs ! i = execution_result_of i j (f (txs ! i) i)"
    using execute_ok [OF b(1,3)] by blast
  have "map forget_layer rs = map (\<lambda>(i, tx). execution_result_of i 0 (f tx i)) (enumerate 0 txs)"
  proof (rule nth_equalityI)
    fix i assume "i < length (map forget_layer rs)"
    with rs(2,3) have i: "i < length txs" and "\<exists>j. rs ! i = execution_result_of i j (f (txs ! i) i)" by auto
    then show "map forget_layer rs ! i = map (\<lambda>(i, tx). execution_result_of i 0 (f tx i)) (enumerate 0 txs) ! i"
      using rs(2) by (auto simp: nth_enumerate_eq)
  qed (simp add: rs(2))
  moreover have "result_layer (rs ! u) < result_layer (rs ! v)" if uv: "(u, v) \<in> tx_dependencies blake3 txs" for u v
  proof -
    have "v < length txs" "u < length txs" using uv producers_sound [of blake3 txs] by (auto simp: tx_dependencies_def)
    with rs(3) obtain i j where i: "i < length (dg_layers dag)" "u \<in> set (dg_layers dag ! i)" "result_layer (rs ! u) = i"
      and j: "j < length (dg_layers dag)" "v \<in> set (dg_layers dag ! j)" "result_layer (rs ! v) = j" by (metis forget_layer_of(2))
    from l j(1,2) uv obtain k where k: "k < j" "u \<in> set (dg_layers dag ! k)" unfolding layered_def by blast
    have "k = i" by (rule layer_unique [of "dg_layers dag" _ _ u]) (use l k i j in simp_all)
    with k i j show ?thesis by simp
  qed
  ultimately show ?thesis using rs(1) by (auto simp: execute_sequential_def)
qed

text \<open>Two transactions that spend the same cell of an earlier block.\<close>

abbreviation rivals :: "cell_tx list" where "rivals \<equiv> [ex_plain_tx [1], ex_plain_tx [2]]"

lemma rivals_dependencies: "tx_dependencies (\<lambda>_. 0) rivals = {}"
proof -
  have "op_tx_hash op = 7" if "op \<in> set (reads (rivals ! v))" "v < 2" for op v
    using that by (auto simp: reads_def ex_plain_tx_def cell_input_new_def out_point_new_def nth_Cons split: nat.splits)
  moreover have "op_tx_hash op = 0" if "map_of (producers (\<lambda>_. 0) rivals) op = Some u" for op u
    using producers_sound [OF that] by (auto simp: node_outputs_def out_point_new_def compute_wtxid_def)
  ultimately show ?thesis by (force simp: tx_dependencies_def)
qed

lemma rivals_build: "\<exists>dag. dag_build (\<lambda>_. 0) rivals = Inr dag"
  using dag_build_exact [of "\<lambda>_. 0" rivals] by (auto simp: rivals_dependencies acyclic_def)

theorem execute_matches_sequential_witness:
  "\<exists>dag rs. dag_build (\<lambda>_. 0) rivals = Inr dag \<and> execute dag rivals (\<lambda>_ _. Inl ''no'') = Inr rs \<and> map forget_layer rs = [Failed 0 0 ''no'', Failed 1 0 ''no'']"
proof -
  obtain dag where dag: "dag_build (\<lambda>_. 0) rivals = Inr dag" using rivals_build by blast
  from execute_matches_sequential [OF dag, of "\<lambda>_ _. Inl ''no''"] dag show ?thesis
    by (auto simp: execute_sequential_def execution_result_of_def)
qed





text \<open>
  C29: the graph links transactions through the witness transaction identifier only.  When no
  out point that is read carries the wtxid of a transaction of the set there are no edges,
  even if one transaction spends an output of another, which names it by its txid.
\<close>

theorem dag_ignores_txid:
  assumes "dag_build blake3 txs = Inr dag"
    and "\<forall>tx \<in> set txs. \<forall>op \<in> set (reads tx). \<forall>t \<in> set txs. op_tx_hash op \<noteq> compute_wtxid blake3 t"
  shows "edge_rel (dg_edges dag) = {}"
proof -
  have False if "(u, v) \<in> tx_dependencies blake3 txs" for u v
  proof -
    from that obtain op where v: "v < length txs" and op: "op \<in> set (reads (txs ! v))" "map_of (producers blake3 txs) op = Some u"
      by (auto simp: tx_dependencies_def)
    from producers_sound [OF op(2)] have "u < length txs" "op_tx_hash op = compute_wtxid blake3 (txs ! u)"
      by (auto simp: node_outputs_def out_point_new_def)
    with assms(2) v op(1) show False by (metis nth_mem)
  qed
  then show ?thesis unfolding dag_build_Inr(2) [OF assms(1)] by auto
qed

text \<open>A transaction and one that spends its output, named by its txid.\<close>

definition ex_spender :: "(bytes \<Rightarrow> byte32) \<Rightarrow> cell_tx" where
  "ex_spender blake3 = (ex_plain_tx [])\<lparr>tx_inputs := [cell_input_new (out_point_new (compute_txid blake3 (ex_plain_tx [1])) 0) 0]\<rparr>"

definition ex_domain_hash :: "bytes \<Rightarrow> byte32" where
  "ex_domain_hash bs = (if take 15 bs = CELL_TXID_DOMAIN then 1 else if take 16 bs = CELL_WTXID_DOMAIN then 2 else 0)"

theorem dag_ignores_txid_witness:
  "\<exists>dag. dag_build ex_domain_hash [ex_plain_tx [1], ex_spender ex_domain_hash] = Inr dag \<and> edge_rel (dg_edges dag) = {} \<and>
     reads (ex_spender ex_domain_hash) = [out_point_new (compute_txid ex_domain_hash (ex_plain_tx [1])) 0]"
proof -
  let ?txs = "[ex_plain_tx [1], ex_spender ex_domain_hash]"
  have t: "compute_txid ex_domain_hash tx = 1" for tx
    by (simp add: compute_txid_def txid_preimage_def ex_domain_hash_def CELL_TXID_DOMAIN_def ascii_def)
  have w: "compute_wtxid ex_domain_hash tx = 2" for tx
    by (simp add: compute_wtxid_def wtxid_preimage_def ex_domain_hash_def CELL_TXID_DOMAIN_def CELL_WTXID_DOMAIN_def ascii_def)
  have r: "\<forall>tx \<in> set ?txs. \<forall>op \<in> set (reads tx). \<forall>t \<in> set ?txs. op_tx_hash op \<noteq> compute_wtxid ex_domain_hash t"
    by (simp add: reads_def ex_spender_def ex_plain_tx_def cell_input_new_def out_point_new_def t w)
  have "tx_dependencies ex_domain_hash ?txs = {}"
  proof -
    have "op_tx_hash op \<in> {1, 7}" if "op \<in> set (reads (?txs ! v))" "v < 2" for op v
      using that by (auto simp: reads_def ex_spender_def ex_plain_tx_def cell_input_new_def out_point_new_def t nth_Cons split: nat.splits)
    moreover have "op_tx_hash op = 2" if "map_of (producers ex_domain_hash ?txs) op = Some u" for op u
      using producers_sound [OF that] by (auto simp: node_outputs_def out_point_new_def w)
    ultimately show ?thesis by (force simp: tx_dependencies_def)
  qed
  then obtain dag where dag: "dag_build ex_domain_hash ?txs = Inr dag" using dag_build_exact [of ex_domain_hash ?txs] by (auto simp: acyclic_def)
  from dag_ignores_txid [OF dag r] dag show ?thesis by (auto simp: reads_def ex_spender_def ex_plain_tx_def cell_input_new_def)
qed

text \<open>
  The order in which conflicting transactions win does not depend on the order in which they
  are given, as long as their wtxids differ.
\<close>

theorem select_winners_order_free:
  assumes "mset xs = mset ys" and "inj_on (\<lambda>t. compute_wtxid blake3 (fst t)) (set xs)"
  shows "winners_in_order blake3 cpb xs = winners_in_order blake3 cpb ys"
proof -
  let ?f = "\<lambda>t. key_rank (candidate_key blake3 cpb t)"
  have "snd (snd (?f t)) = compute_wtxid blake3 (fst t)" for t
    by (cases t) (simp add: key_rank_def candidate_key_def compute_key_def Let_def)
  then have "inj_on ?f (set xs)" using assms(2) unfolding inj_on_def by metis
  then show ?thesis unfolding winners_sorted by (intro sort_key_inj_key_eq) (simp_all add: assms(1))
qed

theorem select_winners_order_free_witness:
  "winners_in_order (\<lambda>bs. word_of_nat (length bs)) 100 [(ex_plain_tx [1], 1, 1, None), (ex_plain_tx [1, 1], 5, 1, None)] =
   winners_in_order (\<lambda>bs. word_of_nat (length bs)) 100 [(ex_plain_tx [1, 1], 5, 1, None), (ex_plain_tx [1], 1, 1, None)]"
proof (rule select_winners_order_free)
  have l: "length (wtxid_preimage (ex_plain_tx w)) = length (wtxid_preimage (ex_plain_tx [])) + length w" for w
    by (simp add: ex_plain_tx_def wtxid_preimage_def tx_body_def coinbase_fallback_def is_coinbase_def bytes32_def)
  show "inj_on (\<lambda>t. compute_wtxid (\<lambda>bs. word_of_nat (length bs)) (fst t)) (set [(ex_plain_tx [1], 1, 1, None), (ex_plain_tx [1, 1], 5, 1, None)])"
    by (auto simp: compute_wtxid_def l [of "[1]"] l [of "[1, 1]"])
qed simp

end
