(* ===== verification/Merkle.thy ===== *)
theory Merkle
  imports SighashProps "HOL-Library.Log_Nat"
begin

text \<open>
  Merkle roots of transaction lists: \<^verbatim>\<open>crypto/merkle/src/lib.rs\<close> and
  \<^verbatim>\<open>consensus/core/src/merkle.rs\<close>.  The array routine is modelled with its indices, and
  shown to compute the tree level by level; equal roots then identify the transactions
  up to their witnesses.  \<^verbatim>\<open>ZERO_HASH\<close> is \<open>0\<close>; the hash function is a parameter.
\<close>

section \<open>The array routine\<close>

definition branch_preimage :: "byte32 \<Rightarrow> byte32 \<Rightarrow> bytes" where
  "branch_preimage left right = ascii ''MerkleBranchHash'' @ hash_bytes left @ hash_bytes right"

definition merkle_hash :: "(bytes \<Rightarrow> byte32) \<Rightarrow> byte32 \<Rightarrow> byte32 \<Rightarrow> byte32" where
  "merkle_hash blake3 left right = blake3 (branch_preimage left right)"

text \<open>\<^verbatim>\<open>usize::next_power_of_two\<close>, and the assignment \<^verbatim>\<open>xs[i] = v\<close>.\<close>

definition next_power_of_two :: "nat \<Rightarrow> nat" where
  "next_power_of_two n = 2 ^ ceillog2 n"

definition assign :: "'a list \<Rightarrow> nat \<Rightarrow> 'a \<Rightarrow> (unit, 'a list) res" where
  "assign xs i v = (if i < length xs then Inr (xs[i := v]) else Inl Panic)"

text \<open>One round of the loop, with the offset at which the next node is written.\<close>

definition merkle_step ::
  "(bytes \<Rightarrow> byte32) \<Rightarrow> byte32 option list \<times> nat \<Rightarrow> nat \<Rightarrow> (unit, byte32 option list \<times> nat) res" where
  "merkle_step blake3 = (\<lambda>(merkles, offset) i.
     rbind (idx merkles i) (\<lambda>left.
     rbind (case left of None \<Rightarrow> assign merkles offset None
       | Some l \<Rightarrow> rbind (idx merkles (i + 1)) (\<lambda>right.
           assign merkles offset (Some (merkle_hash blake3 l (case right of None \<Rightarrow> 0 | Some r \<Rightarrow> r))))) (\<lambda>merkles.
     Inr (merkles, offset + 1))))"

definition calc_merkle_root :: "(bytes \<Rightarrow> byte32) \<Rightarrow> byte32 list \<Rightarrow> (unit, byte32) res" where
  "calc_merkle_root blake3 hashes =
     (if length hashes = 0 then Inr 0
      else let next_pot = next_power_of_two (length hashes); vec_len = 2 * next_pot - 1 in
        rbind (rfold (\<lambda>merkles (i, hash). assign merkles i (Some hash)) (replicate vec_len None) (List.enumerate 0 hashes)) (\<lambda>merkles.
        rbind (rfold (merkle_step blake3) (merkles, next_pot) (filter even [0..<vec_len - 1])) (\<lambda>(merkles, offset).
        rbind (unwrap (if merkles = [] then None else Some (last merkles))) (\<lambda>root. unwrap root))))"

definition calc_hash_merkle_root_cell :: "(bytes \<Rightarrow> byte32) \<Rightarrow> cell_tx list \<Rightarrow> (unit, byte32) res" where
  "calc_hash_merkle_root_cell blake3 txs = calc_merkle_root blake3 (map (compute_txid blake3) txs)"

section \<open>The tree, level by level\<close>

fun pair_up :: "(byte32 \<Rightarrow> byte32 \<Rightarrow> byte32) \<Rightarrow> byte32 list \<Rightarrow> byte32 list" where
  "pair_up f (a # b # r) = f a b # pair_up f r"
| "pair_up f [a] = [f a 0]"
| "pair_up f [] = []"

lemma length_pair_up [simp]: "length (pair_up f hs) = (length hs + 1) div 2"
  by (induction f hs rule: pair_up.induct) auto

lemma pair_up_eq_Nil [simp]: "pair_up f hs = [] \<longleftrightarrow> hs = []"
  by (cases "(f, hs)" rule: pair_up.cases) simp_all

fun merkle_tree :: "(byte32 \<Rightarrow> byte32 \<Rightarrow> byte32) \<Rightarrow> nat \<Rightarrow> byte32 list \<Rightarrow> byte32" where
  "merkle_tree f 0 hs = hd hs"
| "merkle_tree f (Suc e) hs = merkle_tree f e (pair_up f hs)"

definition merkle_root :: "(bytes \<Rightarrow> byte32) \<Rightarrow> byte32 list \<Rightarrow> byte32" where
  "merkle_root blake3 hs = (if hs = [] then 0 else merkle_tree (merkle_hash blake3) (ceillog2 (length hs)) hs)"

lemma ceillog2_half:
  assumes "1 < n"
  shows "ceillog2 n = Suc (ceillog2 ((n + 1) div 2))"
proof (cases "even n")
  case True
  then obtain k where "n = 2 * k" by (rule evenE)
  then show ?thesis using assms by (simp add: ceillog2_rec_even)
next
  case False
  then obtain k where "n = Suc (2 * k)" by (metis oddE Suc_eq_plus1)
  then show ?thesis using assms by (simp add: ceillog2_rec_odd)
qed

section \<open>The array as a queue\<close>

text \<open>
  The unread part of the array is a queue: a round removes two entries in front and
  appends their parent.
\<close>

definition join :: "(byte32 \<Rightarrow> byte32 \<Rightarrow> byte32) \<Rightarrow> byte32 option \<Rightarrow> byte32 option \<Rightarrow> byte32 option" where
  "join f left right = (case left of None \<Rightarrow> None | Some l \<Rightarrow> Some (f l (case right of None \<Rightarrow> 0 | Some r \<Rightarrow> r)))"

fun joins :: "(byte32 \<Rightarrow> byte32 \<Rightarrow> byte32) \<Rightarrow> byte32 option list \<Rightarrow> byte32 option list" where
  "joins f (a # b # r) = join f a b # joins f r"
| "joins f _ = []"

fun queue_run :: "(byte32 \<Rightarrow> byte32 \<Rightarrow> byte32) \<Rightarrow> nat \<Rightarrow> byte32 option list \<Rightarrow> byte32 option list" where
  "queue_run f (Suc n) (a # b # r) = queue_run f n (r @ [join f a b])"
| "queue_run f _ q = q"

lemma queue_run_level:
  "length q = 2 * n \<Longrightarrow> queue_run f (n + k) (q @ r) = queue_run f k (r @ joins f q)"
proof (induction n arbitrary: q r)
  case (Suc n)
  then obtain a b q' where q: "q = a # b # q'" "length q' = 2 * n"
    by (cases "(f, q)" rule: joins.cases) auto
  show ?case using Suc.IH [OF q(2), of "r @ [join f a b]"] by (simp add: q(1))
qed simp

definition padded :: "nat \<Rightarrow> byte32 list \<Rightarrow> byte32 option list" where
  "padded n hs = map Some hs @ replicate (n - length hs) None"

lemma joins_None: "joins f (replicate (2 * n) None) = replicate n None"
  by (induction n) (simp_all add: join_def)

lemma joins_padded: "length hs \<le> 2 * n \<Longrightarrow> joins f (padded (2 * n) hs) = padded n (pair_up f hs)"
proof (induction f hs arbitrary: n rule: pair_up.induct)
  case (1 f a b r)
  then obtain n' where "n = Suc n'" by (cases n) auto
  with 1 show ?case by (simp add: padded_def join_def)
next
  case (2 f a)
  then obtain n' where "n = Suc n'" by (cases n) auto
  then show ?case by (simp add: padded_def join_def joins_None)
qed (simp add: padded_def joins_None)

lemma queue_run_tree:
  "hs \<noteq> [] \<Longrightarrow> length hs \<le> 2 ^ e \<Longrightarrow> queue_run f (2 ^ e - 1) (padded (2 ^ e) hs) = [Some (merkle_tree f e hs)]"
proof (induction e arbitrary: hs)
  case 0
  then show ?case by (cases hs) (simp_all add: padded_def)
next
  case (Suc e)
  have "queue_run f (2 ^ Suc e - 1) (padded (2 ^ Suc e) hs) = queue_run f (2 ^ e + (2 ^ e - 1)) (padded (2 * 2 ^ e) hs @ [])"
    by (simp add: mult_2)
  also have "\<dots> = queue_run f (2 ^ e - 1) (joins f (padded (2 * 2 ^ e) hs))"
    using Suc.prems by (subst queue_run_level) (simp_all add: padded_def)
  also have "\<dots> = queue_run f (2 ^ e - 1) (padded (2 ^ e) (pair_up f hs))" using Suc.prems by (simp add: joins_padded)
  also have "\<dots> = [Some (merkle_tree f (Suc e) hs)]" using Suc.prems by (subst Suc.IH) auto
  finally show ?case .
qed

text \<open>The loop on the array: a read part, the queue, and room for the parents still to come.\<close>

lemma merkle_step_queue:
  assumes "length c = 2 * k"
  shows "merkle_step blake3 (c @ (a # b # r) @ replicate (Suc m) None, length c + length (a # b # r)) (2 * k) =
    Inr ((c @ [a, b]) @ (r @ [join (merkle_hash blake3) a b]) @ replicate m None, Suc (length c + length (a # b # r)))"
  using assms
  by (cases a) (auto simp: merkle_step_def assign_def join_def nth_append list_update_append split: option.splits)


lemma merkle_loop_queue:
  "length c = 2 * k \<Longrightarrow> length q = Suc m \<Longrightarrow>
    \<exists>merkles offset. rfold (merkle_step blake3) (c @ q @ replicate m None, length c + length q) (map (\<lambda>j. 2 * (k + j)) [0..<m]) =
      Inr (merkles, offset) \<and> merkles \<noteq> [] \<and> [last merkles] = queue_run (merkle_hash blake3) m q"
proof (induction m arbitrary: c q k)
  case 0
  then obtain x where "q = [x]" by (cases q) auto
  then show ?case by simp
next
  case (Suc m)
  then obtain a b r where q: "q = a # b # r" "length r = m" by (auto simp: length_Suc_conv)
  have ix: "map (\<lambda>j. 2 * (k + j)) [0..<Suc m] = 2 * k # map (\<lambda>j. 2 * (Suc k + j)) [0..<m]"
    by (simp add: upt_conv_Cons map_Suc_upt [symmetric] del: upt_Suc)
  define q' where "q' = r @ [join (merkle_hash blake3) a b]"
  have step: "merkle_step blake3 (c @ q @ replicate (Suc m) None, length c + length q) (2 * k) =
      Inr ((c @ [a, b]) @ q' @ replicate m None, length (c @ [a, b]) + length q')"
    using merkle_step_queue [OF Suc.prems(1), of blake3 a b r m] by (simp add: q q'_def)
  have run: "queue_run (merkle_hash blake3) (Suc m) q = queue_run (merkle_hash blake3) m q'" by (simp add: q q'_def)
  show ?case
    unfolding ix rfold.simps(2) step rbind_simps(2) run by (rule Suc.IH) (use Suc.prems in \<open>simp_all add: q q'_def\<close>)
qed

lemma even_indices: "filter even [0..<2 * m] = map (\<lambda>j. 2 * j) [0..<m]"
  by (induction m) auto

lemma fill_leaves:
  "rfold (\<lambda>merkles (i, hash). assign merkles i (Some hash)) (pre @ replicate (length hs + r) None) (List.enumerate (length pre) hs) =
    Inr (pre @ map Some hs @ replicate r None)"
proof (induction hs arbitrary: pre)
  case (Cons h hs)
  then show ?case using Cons.IH [of "pre @ [Some h]"] by (simp add: assign_def list_update_append)
qed simp

text \<open>The array routine computes the tree.\<close>

lemma calc_merkle_root_eq: "calc_merkle_root blake3 hs = Inr (merkle_root blake3 hs)"
proof (cases "hs = []")
  case True
  then show ?thesis by (simp add: calc_merkle_root_def merkle_root_def)
next
  case False
  define e where "e = ceillog2 (length hs)"
  define m where "m = (2 :: nat) ^ e - 1"
  have e: "length hs \<le> 2 ^ e" by (simp add: e_def le_two_power_ceillog2)
  have pot: "next_power_of_two (length hs) = Suc m" "2 * Suc m - 1 = length hs + (Suc m - length hs) + m" "2 * Suc m - 1 - 1 = 2 * m"
    using e by (simp_all add: next_power_of_two_def m_def e_def [symmetric])
  have fill: "rfold (\<lambda>merkles (i, hash). assign merkles i (Some hash)) (replicate (2 * Suc m - 1) None) (List.enumerate 0 hs) =
      Inr ([] @ padded (Suc m) hs @ replicate m None)"
    using fill_leaves [of "[]" hs "Suc m - length hs + m"] unfolding pot(2) by (simp add: padded_def replicate_add add.assoc)
  have q: "length (padded (Suc m) hs) = Suc m" using e by (simp add: padded_def m_def)
  obtain merkles offset where loop: "rfold (merkle_step blake3) (padded (Suc m) hs @ replicate m None, Suc m) (map (\<lambda>j. 2 * j) [0..<m]) =
      Inr (merkles, offset)" "merkles \<noteq> []" "[last merkles] = queue_run (merkle_hash blake3) m (padded (Suc m) hs)"
    using merkle_loop_queue [of "[]" 0 "padded (Suc m) hs" m blake3] q by auto
  have "[last merkles] = [Some (merkle_tree (merkle_hash blake3) e hs)]"
    using loop(3) queue_run_tree [OF False e, of "merkle_hash blake3"] by (simp add: m_def)
  then show ?thesis
    using False unfolding calc_merkle_root_def Let_def pot(1) fill pot(3) even_indices
    by (simp add: loop(1,2) merkle_root_def e_def del: upt_Suc)
qed

section \<open>Equal roots\<close>

fun pair_preimages :: "byte32 list \<Rightarrow> bytes list" where
  "pair_preimages (a # b # r) = branch_preimage a b # pair_preimages r"
| "pair_preimages [a] = [branch_preimage a 0]"
| "pair_preimages [] = []"

abbreviation level :: "(bytes \<Rightarrow> byte32) \<Rightarrow> nat \<Rightarrow> byte32 list \<Rightarrow> byte32 list" where
  "level h n \<equiv> pair_up (merkle_hash h) ^^ n"

lemma pair_up_preimages: "pair_up (merkle_hash h) hs = map h (pair_preimages hs)"
  by (induction hs rule: pair_preimages.induct) (simp_all add: merkle_hash_def)

lemma pair_preimages_eq_Nil [simp]: "pair_preimages hs = [] \<longleftrightarrow> hs = []"
  by (cases hs rule: pair_preimages.cases) simp_all

lemma pair_preimages_branch: "p \<in> set (pair_preimages hs) \<Longrightarrow> \<exists>a b. p = branch_preimage a b"
  by (induction hs rule: pair_preimages.induct) auto

lemma branch_preimage_inject [simp]: "branch_preimage a b = branch_preimage c d \<longleftrightarrow> a = c \<and> b = d"
  by (simp add: branch_preimage_def)

lemma pair_preimages_uniq:
  "0 \<notin> set xs \<Longrightarrow> 0 \<notin> set ys \<Longrightarrow> pair_preimages xs = pair_preimages ys \<Longrightarrow> xs = ys"
proof (induction xs arbitrary: ys rule: pair_preimages.induct)
  case (1 a b r)
  note IH = "1.IH" and prems = "1.prems"
  show ?case
  proof (cases ys rule: pair_preimages.cases)
    case (1 c d s)
    then show ?thesis using IH [of s] prems by simp
  qed (use prems in simp_all)
next
  case (2 a)
  then show ?case by (cases ys rule: pair_preimages.cases) simp_all
next
  case 3
  then show ?case by (cases ys rule: pair_preimages.cases) simp_all
qed

lemma level_neq_Nil: "xs \<noteq> [] \<Longrightarrow> level h n xs \<noteq> []"
  by (induction n) simp_all

lemma merkle_tree_level: "merkle_tree (merkle_hash h) e hs = hd (level h e hs)"
  by (induction e arbitrary: hs) (simp_all add: funpow_Suc_right del: funpow.simps(2))

text \<open>
  Lists of leaves with all strings hashed above them in a set without collisions and
  without a preimage of zero, the leaves' strings being no branches.
\<close>

definition leaves_in :: "(bytes \<Rightarrow> byte32) \<Rightarrow> bytes set \<Rightarrow> nat \<Rightarrow> byte32 list \<Rightarrow> bool" where
  "leaves_in h S e hs \<longleftrightarrow> hs \<noteq> [] \<and> (\<forall>x\<in>set hs. \<exists>p\<in>S. x = h p \<and> (\<forall>a b. p \<noteq> branch_preimage a b)) \<and>
     (\<forall>j<e. set (pair_preimages (level h j hs)) \<subseteq> S)"

lemma level_no_zero:
  assumes "leaves_in h S e hs" and "0 \<notin> h ` S" and "j \<le> e"
  shows "0 \<notin> set (level h j hs)"
proof (cases j)
  case 0
  then show ?thesis using assms(1,2) by (auto simp: leaves_in_def)
next
  case (Suc i)
  then have "set (pair_preimages (level h i hs)) \<subseteq> S" using assms(1,3) by (simp add: leaves_in_def)
  then show ?thesis using assms(2) by (auto simp: Suc pair_up_preimages)
qed

lemma leaf_not_branch:
  assumes "leaves_in h S d xs" and "leaves_in h S e ys" and "inj_on h S" and "j < e"
  shows "xs \<noteq> level h (Suc j) ys"
proof
  assume "xs = level h (Suc j) ys"
  then have xs: "xs = map h (pair_preimages (level h j ys))" by (simp add: pair_up_preimages)
  have "level h j ys \<noteq> []" using assms(2) by (simp add: leaves_in_def level_neq_Nil)
  then obtain p where p: "p \<in> set (pair_preimages (level h j ys))" by (meson last_in_set pair_preimages_eq_Nil)
  then have "p \<in> S" "h p \<in> set xs" using assms(2,4) xs by (auto simp: leaves_in_def)
  then obtain q where "q \<in> S" "h p = h q" "\<forall>a b. q \<noteq> branch_preimage a b" using assms(1) by (auto simp: leaves_in_def)
  with assms(3) \<open>p \<in> S\<close> pair_preimages_branch [OF p] show False by (auto dest: inj_onD)
qed

lemma level_uniq:
  assumes h: "inj_on h S" "0 \<notin> h ` S" and xs: "leaves_in h S d xs" and ys: "leaves_in h S e ys"
  shows "i \<le> d \<Longrightarrow> j \<le> e \<Longrightarrow> level h i xs = level h j ys \<Longrightarrow> xs = ys"
proof (induction i arbitrary: j)
  case 0
  show ?case
  proof (cases j)
    case (Suc j')
    then show ?thesis using leaf_not_branch [OF xs ys h(1), of j'] 0 by simp
  qed (use 0 in simp)
next
  case (Suc i)
  show ?case
  proof (cases j)
    case 0
    then show ?thesis using leaf_not_branch [OF ys xs h(1), of i] Suc.prems by simp
  next
    case (Suc j')
    have "map h (pair_preimages (level h i xs)) = map h (pair_preimages (level h j' ys))"
      using Suc.prems(3) by (simp add: Suc flip: pair_up_preimages)
    moreover have "inj_on h (set (pair_preimages (level h i xs)) \<union> set (pair_preimages (level h j' ys)))"
      by (rule inj_on_subset [OF h(1)]) (use Suc.prems(1,2) xs ys in \<open>simp add: Suc leaves_in_def\<close>)
    ultimately have "pair_preimages (level h i xs) = pair_preimages (level h j' ys)" by (rule map_inj_on)
    moreover have "0 \<notin> set (level h i xs)" "0 \<notin> set (level h j' ys)"
      using level_no_zero [OF xs h(2)] level_no_zero [OF ys h(2)] Suc.prems(1,2) by (simp_all add: Suc)
    ultimately have "level h i xs = level h j' ys" by (intro pair_preimages_uniq)
    then show ?thesis using Suc.IH [of j'] Suc.prems(1,2) by (simp add: Suc)
  qed
qed

text \<open>All strings hashed for the root of a list of transactions.\<close>

definition block_preimages :: "(bytes \<Rightarrow> byte32) \<Rightarrow> cell_tx list \<Rightarrow> bytes set" where
  "block_preimages h txs = set (map txid_preimage txs) \<union>
     (\<Union>j < ceillog2 (length txs). set (pair_preimages (level h j (map (compute_txid h) txs))))"

lemma txid_preimage_not_branch: "txid_preimage tx \<noteq> branch_preimage a b"
  by (simp add: txid_preimage_def branch_preimage_def CELL_TXID_DOMAIN_def ascii_def)

lemma block_leaves:
  "txs \<noteq> [] \<Longrightarrow> block_preimages h txs \<subseteq> S \<Longrightarrow> leaves_in h S (ceillog2 (length txs)) (map (compute_txid h) txs)"
  unfolding leaves_in_def
proof (intro conjI ballI allI impI)
  fix x assume S: "block_preimages h txs \<subseteq> S" and "x \<in> set (map (compute_txid h) txs)"
  then obtain tx where "tx \<in> set txs" "x = h (txid_preimage tx)" by (auto simp: compute_txid_def)
  moreover from this(1) S have "txid_preimage tx \<in> S" by (auto simp: block_preimages_def)
  ultimately show "\<exists>p\<in>S. x = h p \<and> (\<forall>a b. p \<noteq> branch_preimage a b)" using txid_preimage_not_branch by blast
next
  fix j assume "block_preimages h txs \<subseteq> S" and "j < ceillog2 (length txs)"
  then show "set (pair_preimages (level h j (map (compute_txid h) txs))) \<subseteq> S" unfolding block_preimages_def by blast
qed simp

lemma level_top:
  assumes "hs \<noteq> []"
  shows "length (level h (ceillog2 (length hs)) hs) = 1"
proof -
  have len: "length hs \<le> 2 ^ e \<Longrightarrow> hs \<noteq> [] \<Longrightarrow> length (level h e hs) = 1" for e hs
  proof (induction e arbitrary: hs)
    case (Suc e)
    have "length (level h e (pair_up (merkle_hash h) hs)) = 1" by (rule Suc.IH) (use Suc.prems in auto)
    then show ?case by (simp add: funpow_Suc_right del: funpow.simps(2))
  qed (auto simp: le_Suc_eq)
  show ?thesis by (rule len [OF le_two_power_ceillog2 assms])
qed

lemma merkle_root_ids:
  assumes "txs \<noteq> []" and "txs' \<noteq> []" and "inj_on h (block_preimages h txs \<union> block_preimages h txs')"
    and "0 \<notin> h ` (block_preimages h txs \<union> block_preimages h txs')"
    and "merkle_root h (map (compute_txid h) txs) = merkle_root h (map (compute_txid h) txs')"
  shows "map (compute_txid h) txs = map (compute_txid h) txs'"
proof -
  define xs ys where "xs = map (compute_txid h) txs" and "ys = map (compute_txid h) txs'"
  have ne: "xs \<noteq> []" "ys \<noteq> []" using assms(1,2) by (simp_all add: xs_def ys_def)
  have "hd (level h (ceillog2 (length xs)) xs) = hd (level h (ceillog2 (length ys)) ys)"
    using assms(5) ne by (simp add: merkle_root_def merkle_tree_level flip: xs_def ys_def)
  then have top: "level h (ceillog2 (length xs)) xs = level h (ceillog2 (length ys)) ys"
    using level_top [OF ne(1), of h] level_top [OF ne(2), of h] by (auto simp: length_Suc_conv)
  have "xs = ys"
    by (rule level_uniq [OF assms(3,4) _ _ order_refl order_refl top])
      (use block_leaves [of txs h] block_leaves [of txs' h] assms(1,2) in \<open>simp_all add: xs_def ys_def\<close>)
  then show ?thesis by (simp add: xs_def ys_def)
qed

lemma txids_uniq:
  assumes "list_all tx_small txs" and "list_all tx_small txs'"
    and "inj_on h (set (map txid_preimage txs) \<union> set (map txid_preimage txs'))"
    and "map (compute_txid h) txs = map (compute_txid h) txs'"
  shows "map unsigned_part txs = map unsigned_part txs' \<and> map covered_witness txs = map covered_witness txs'"
proof -
  have "map h (map txid_preimage txs) = map h (map txid_preimage txs')" using assms(4) by (simp add: compute_txid_def [abs_def] comp_def)
  then have "map txid_preimage txs = map txid_preimage txs'" by (rule map_inj_on [OF _ assms(3)])
  then have e: "length txs = length txs'" "\<And>i. i < length txs \<Longrightarrow> txid_preimage (txs ! i) = txid_preimage (txs' ! i)"
    by (auto simp: list_eq_iff_nth_eq)
  have "unsigned_part (txs ! i) = unsigned_part (txs' ! i) \<and> covered_witness (txs ! i) = covered_witness (txs' ! i)" if "i < length txs" for i
    using txid_preimage_uniq [OF _ _ e(2) [OF that]] assms(1,2) e(1) that by (simp add: list_all_length)
  with e(1) show ?thesis by (simp add: list_eq_iff_nth_eq)
qed

section \<open>Properties\<close>

text \<open>
  C9: the array routine never panics and computes the root of the tree built level by level, where a
  level pairs neighbours and completes the last one with zero.
\<close>

theorem merkle_root_exact:
  "calc_hash_merkle_root_cell blake3 txs = Inr (merkle_root blake3 (map (compute_txid blake3) txs))"
  by (simp add: calc_hash_merkle_root_cell_def calc_merkle_root_eq)

text \<open>
  C10: lists of transactions with equal merkle roots have the same transactions in the same order, up to
  their witnesses, whatever their lengths: unless the hash function collides on the strings hashed, or one of
  these is a preimage of zero.
\<close>

theorem merkle_root_binding:
  assumes "list_all tx_small txs" and "list_all tx_small txs'" and "txs \<noteq> []" and "txs' \<noteq> []"
    and "inj_on h (block_preimages h txs \<union> block_preimages h txs')"
    and "0 \<notin> h ` (block_preimages h txs \<union> block_preimages h txs')"
    and "calc_hash_merkle_root_cell h txs = calc_hash_merkle_root_cell h txs'"
  shows "map unsigned_part txs = map unsigned_part txs' \<and> map covered_witness txs = map covered_witness txs'"
proof (rule txids_uniq [OF assms(1,2)])
  show "inj_on h (set (map txid_preimage txs) \<union> set (map txid_preimage txs'))"
    by (rule inj_on_subset [OF assms(5)]) (auto simp: block_preimages_def)
  show "map (compute_txid h) txs = map (compute_txid h) txs'"
    using merkle_root_ids [OF assms(3-6)] assms(7) by (simp add: calc_hash_merkle_root_cell_def calc_merkle_root_eq)
qed

text \<open>A hash function that tells strings apart by their lengths, and lists that differ in their witnesses.\<close>

definition ex_two_txs :: "bytes \<Rightarrow> cell_tx list" where
  "ex_two_txs w = [ex_plain_tx w, (ex_plain_tx w)\<lparr>tx_outputs_data := [[1]]\<rparr>]"

lemma ex_two_txs_preimages:
  "block_preimages (\<lambda>bs. word_of_nat (length bs)) (ex_two_txs w) \<subseteq>
     {txid_preimage (ex_plain_tx []), txid_preimage ((ex_plain_tx [])\<lparr>tx_outputs_data := [[1]]\<rparr>),
      branch_preimage (word_of_nat (length (txid_preimage (ex_plain_tx []))))
        (word_of_nat (length (txid_preimage ((ex_plain_tx [])\<lparr>tx_outputs_data := [[1]]\<rparr>))))}"
proof -
  have w: "txid_preimage ((ex_plain_tx w)\<lparr>tx_outputs_data := [[1]]\<rparr>) = txid_preimage ((ex_plain_tx [])\<lparr>tx_outputs_data := [[1]]\<rparr>)"
    by (simp add: ex_plain_tx_def txid_preimage_def tx_body_def coinbase_fallback_def is_coinbase_def)
  have "ceillog2 (Suc (Suc 0)) = 1" using ceillog2_2 by (simp add: numeral_2_eq_2)
  then show ?thesis
    by (simp add: block_preimages_def ex_two_txs_def compute_txid_def ex_plain_tx_txid [of w] w)
qed

lemma ex_two_txs_lengths:
  "length (txid_preimage (ex_plain_tx [])) = 129" "length (txid_preimage ((ex_plain_tx [])\<lparr>tx_outputs_data := [[1]]\<rparr>)) = 130"
  "length (branch_preimage a b) = 80"
  by (simp_all add: ex_plain_tx_def txid_preimage_def CELL_TXID_DOMAIN_def tx_body_def coinbase_fallback_def is_coinbase_def
      branch_preimage_def ascii_def bytes32_def input_bytes_def output_bytes_def script_bytes_def script_new_def)

theorem merkle_root_binding_witness:
  "map unsigned_part (ex_two_txs [1]) = map unsigned_part (ex_two_txs [2])"
proof -
  let ?h = "\<lambda>bs. word_of_nat (length bs) :: byte32" and ?t = "(ex_plain_tx [])\<lparr>tx_outputs_data := [[1]]\<rparr>"
  let ?S = "{txid_preimage (ex_plain_tx []), txid_preimage ?t,
      branch_preimage (?h (txid_preimage (ex_plain_tx []))) (?h (txid_preimage ?t))}"
  have sub: "block_preimages ?h (ex_two_txs [1]) \<union> block_preimages ?h (ex_two_txs [2]) \<subseteq> ?S"
    using ex_two_txs_preimages by blast
  have "inj_on ?h ?S" by (auto simp: ex_two_txs_lengths)
  then have inj: "inj_on ?h (block_preimages ?h (ex_two_txs [1]) \<union> block_preimages ?h (ex_two_txs [2]))"
    by (rule inj_on_subset) (rule sub)
  have "0 \<notin> ?h ` ?S" by (simp add: ex_two_txs_lengths)
  then have zero: "0 \<notin> ?h ` (block_preimages ?h (ex_two_txs [1]) \<union> block_preimages ?h (ex_two_txs [2]))"
    using image_mono [OF sub, of ?h] by blast
  have small: "list_all tx_small (ex_two_txs w)" if "length w = 1" for w
    using that by (simp add: ex_two_txs_def ex_plain_tx_def tx_small_def small_output_def small_script_def script_new_def)
  have "map (compute_txid ?h) (ex_two_txs [1]) = map (compute_txid ?h) (ex_two_txs [2])"
    by (simp add: ex_two_txs_def ex_plain_tx_def compute_txid_def txid_preimage_def tx_body_def coinbase_fallback_def is_coinbase_def)
  then have "calc_hash_merkle_root_cell ?h (ex_two_txs [1]) = calc_hash_merkle_root_cell ?h (ex_two_txs [2])"
    by (simp only: calc_hash_merkle_root_cell_def)
  then show ?thesis
    using merkle_root_binding [OF small small _ _ inj zero] by (simp add: ex_two_txs_def)
qed

end
