(* ===== verification/Coinbase.thy ===== *)
theory Coinbase
  imports CellTypes Ghostdag
begin

text \<open>
  Coinbase transactions: \<^verbatim>\<open>consensus/src/processes/coinbase.rs\<close> and
  \<^verbatim>\<open>consensus/core/src/coinbase.rs\<close>.  The payload written into a coinbase and its
  parser, the block subsidy with its monthly table, and the coinbase that a block
  must have: one output for each rewarded blue of the mergeset and one for its reds.

  A \<^verbatim>\<open>MinerData<T>\<close> holds extra data as bytes whatever \<open>T\<close> is.  The fields of the
  payload are words; rewards are checked \<^verbatim>\<open>u64\<close> numbers.
\<close>

section \<open>Data\<close>

definition COINBASE_MASS_COMMITMENT_MAGIC :: bytes where
  "COINBASE_MASS_COMMITMENT_MAGIC = ascii ''SMC1''"

record miner_data =
  md_lock_script :: script
  md_extra_data :: bytes

record coinbase_data =
  cb_blue_score :: "64 word"
  cb_subsidy :: "64 word"
  cb_mass_commitment :: "64 word"
  cb_miner_data :: miner_data

record block_reward_data =
  rw_subsidy :: nat
  rw_total_fees :: nat
  rw_lock_script :: script

record coinbase_transaction_template =
  ct_tx :: cell_tx
  ct_has_red_reward :: bool

datatype coinbase_error =
  PayloadLenBelowMin nat nat
| PayloadLenAboveMax nat nat
| PayloadLockScriptLenAboveMax nat byte
| PayloadCantContainLockScript nat nat

record coinbase_manager =
  cm_script_max_len :: byte
  cm_max_payload_len :: nat
  cm_deflationary_phase_daa_score :: nat
  cm_base_subsidy :: nat
  cm_bps :: nat
  cm_subsidy_table :: "nat list"

definition MIN_PAYLOAD_LENGTH :: nat where
  "MIN_PAYLOAD_LENGTH = 8 + 8 + 32 + 1 + 1"

definition SECONDS_PER_MONTH :: nat where
  "SECONDS_PER_MONTH = 2629800"

definition SUBSIDY_BY_MONTH_TABLE :: "nat list" where
  "SUBSIDY_BY_MONTH_TABLE = [
    45000000000, 42474344070, 40090442316, 37840338686, 35716523669, 33711909229, 31819805153, 30033896718, 28348223622, 26757160087, 25255396086, 23837919623,
    22500000000, 21237172035, 20045221158, 18920169343, 17858261834, 16855954614, 15909902576, 15016948359, 14174111811, 13378580043, 12627698043, 11918959811,
    11250000000, 10618586017, 10022610579, 9460084671, 8929130917, 8427977307, 7954951288, 7508474179, 7087055905, 6689290021, 6313849021, 5959479905,
    5625000000, 5309293008, 5011305289, 4730042335, 4464565458, 4213988653, 3977475644, 3754237089, 3543527952, 3344645010, 3156924510, 2979739952,
    2812500000, 2654646504, 2505652644, 2365021167, 2232282729, 2106994326, 1988737822, 1877118544, 1771763976, 1672322505, 1578462255, 1489869976,
    1406250000, 1327323252, 1252826322, 1182510583, 1116141364, 1053497163, 994368911, 938559272, 885881988, 836161252, 789231127, 744934988,
    703125000, 663661626, 626413161, 591255291, 558070682, 526748581, 497184455, 469279636, 442940994, 418080626, 394615563, 372467494,
    351562500, 331830813, 313206580, 295627645, 279035341, 263374290, 248592227, 234639818, 221470497, 209040313, 197307781, 186233747,
    175781250, 165915406, 156603290, 147813822, 139517670, 131687145, 124296113, 117319909, 110735248, 104520156, 98653890, 93116873,
    87890625, 82957703, 78301645, 73906911, 69758835, 65843572, 62148056, 58659954, 55367624, 52260078, 49326945, 46558436,
    43945312, 41478851, 39150822, 36953455, 34879417, 32921786, 31074028, 29329977, 27683812, 26130039, 24663472, 23279218,
    21972656, 20739425, 19575411, 18476727, 17439708, 16460893, 15537014, 14664988, 13841906, 13065019, 12331736, 11639609,
    10986328, 10369712, 9787705, 9238363, 8719854, 8230446, 7768507, 7332494, 6920953, 6532509, 6165868, 5819804,
    5493164, 5184856, 4893852, 4619181, 4359927, 4115223, 3884253, 3666247, 3460476, 3266254, 3082934, 2909902,
    2746582, 2592428, 2446926, 2309590, 2179963, 2057611, 1942126, 1833123, 1730238, 1633127, 1541467, 1454951,
    1373291, 1296214, 1223463, 1154795, 1089981, 1028805, 971063, 916561, 865119, 816563, 770733, 727475,
    686645, 648107, 611731, 577397, 544990, 514402, 485531, 458280, 432559, 408281, 385366, 363737,
    343322, 324053, 305865, 288698, 272495, 257201, 242765, 229140, 216279, 204140, 192683, 181868,
    171661, 162026, 152932, 144349, 136247, 128600, 121382, 114570, 108139, 102070, 96341, 90934,
    85830, 81013, 76466, 72174, 68123, 64300, 60691, 57285, 54069, 51035, 48170, 45467,
    42915, 40506, 38233, 36087, 34061, 32150, 30345, 28642, 27034, 25517, 24085, 22733,
    21457, 20263, 19116, 18043, 17030, 16075, 15172, 14321, 13517, 12758, 12042, 11366,
    10728, 10126, 9558, 9021, 8515, 8037, 7586, 7160, 6758, 6379, 6021, 5683,
    5364, 5063, 4779, 4510, 4257, 4018, 3793, 3580, 3379, 3189, 3010, 2841,
    2682, 2531, 2389, 2255, 2128, 2009, 1896, 1790, 1689, 1594, 1505, 1420,
    1341, 1265, 1194, 1127, 1064, 1004, 948, 895, 844, 797, 752, 710,
    670, 632, 597, 563, 532, 502, 474, 447, 422, 398, 376, 355,
    335, 316, 298, 281, 266, 251, 237, 223, 211, 199, 188, 177,
    167, 158, 149, 140, 133, 125, 118, 111, 105, 99, 94, 88,
    83, 79, 74, 70, 66, 62, 59, 55, 52, 49, 47, 44,
    41, 39, 37, 35, 33, 31, 29, 27, 26, 24, 23, 22,
    20, 19, 18, 17, 16, 15, 14, 13, 13, 12, 11, 11,
    10, 9, 9, 8, 8, 7, 7, 6, 6, 6, 5, 5,
    5, 4, 4, 4, 4, 3, 3, 3, 3, 3, 2, 2,
    2, 2, 2, 2, 2, 1, 1, 1, 1, 1, 1, 1,
    1, 1, 1, 1, 1, 0]"

text \<open>\<^verbatim>\<open>CoinbaseManager::new\<close>; \<^verbatim>\<open>div_ceil\<close> panics on a zero divisor.\<close>

definition coinbase_manager_new :: "byte \<Rightarrow> nat \<Rightarrow> nat \<Rightarrow> nat \<Rightarrow> nat \<Rightarrow> (coinbase_error, coinbase_manager) res" where
  "coinbase_manager_new script_max_len max_payload_len deflationary base bps =
     rbind (rassert (bps \<noteq> 0)) (\<lambda>_. Inr \<lparr>cm_script_max_len = script_max_len, cm_max_payload_len = max_payload_len,
       cm_deflationary_phase_daa_score = deflationary, cm_base_subsidy = base, cm_bps = bps,
       cm_subsidy_table = map (\<lambda>s. div_ceil s bps) SUBSIDY_BY_MONTH_TABLE\<rparr>)"



section \<open>Payload\<close>

text \<open>\<^verbatim>\<open>PayloadParser::take\<close>: the segment and the remainder; \<^verbatim>\<open>split_at\<close> panics past the end.\<close>

definition parser_take :: "nat \<Rightarrow> bytes \<Rightarrow> (coinbase_error, bytes \<times> bytes) res" where
  "parser_take n remaining = (if n \<le> length remaining then Inr (take n remaining, drop n remaining) else Inl Panic)"

definition serialize_coinbase_payload :: "coinbase_manager \<Rightarrow> coinbase_data \<Rightarrow> (coinbase_error, bytes) res" where
  "serialize_coinbase_payload m d =
     (let lock = md_lock_script (cb_miner_data d); lock_args_len = length (sc_args lock) in
      rbind (rguard (lock_args_len \<le> unat (cm_script_max_len m)) (PayloadLockScriptLenAboveMax lock_args_len (cm_script_max_len m))) (\<lambda>_.
      Inr (le64 (cb_blue_score d) @ le64 (cb_subsidy d) @ hash_bytes (sc_code_hash lock) @ [sc_hash_type lock] @
        [word_of_nat lock_args_len] @ sc_args lock @ COINBASE_MASS_COMMITMENT_MAGIC @ le64 (cb_mass_commitment d) @
        md_extra_data (cb_miner_data d))))"

text \<open>The part after the lock script: a marked commitment, or none and only extra data.\<close>

definition split_commitment :: "bytes \<Rightarrow> (coinbase_error, 64 word \<times> bytes) res" where
  "split_commitment remaining =
     (if 4 + 8 \<le> length remaining \<and> take 4 remaining = COINBASE_MASS_COMMITMENT_MAGIC
      then rbind (slice remaining 4 (4 + 8)) (\<lambda>commitment_bytes. Inr (from_le commitment_bytes, drop (4 + 8) remaining))
      else Inr (0, remaining))"

definition deserialize_coinbase_payload :: "coinbase_manager \<Rightarrow> bytes \<Rightarrow> (coinbase_error, coinbase_data) res" where
  "deserialize_coinbase_payload m raw =
     rbind (rguard (MIN_PAYLOAD_LENGTH \<le> length raw) (PayloadLenBelowMin (length raw) MIN_PAYLOAD_LENGTH)) (\<lambda>_.
     rbind (rguard (length raw \<le> cm_max_payload_len m) (PayloadLenAboveMax (length raw) (cm_max_payload_len m))) (\<lambda>_.
     rbind (parser_take 8 raw) (\<lambda>(blue_score, r).
     rbind (parser_take 8 r) (\<lambda>(subsidy, r).
     rbind (parser_take 32 r) (\<lambda>(lock_code_hash, r).
     rbind (parser_take 1 r) (\<lambda>(lock_hash_type, r).
     rbind (parser_take 1 r) (\<lambda>(args_len, r).
     let lock_args_len = from_le args_len :: byte in
     rbind (rguard (lock_args_len \<le> cm_script_max_len m) (PayloadLockScriptLenAboveMax (unat lock_args_len) (cm_script_max_len m))) (\<lambda>_.
     rbind (rguard (unat lock_args_len \<le> length r)
       (PayloadCantContainLockScript (length raw) (MIN_PAYLOAD_LENGTH + unat lock_args_len))) (\<lambda>_.
     rbind (parser_take (unat lock_args_len) r) (\<lambda>(args, r).
     rbind (split_commitment r) (\<lambda>(mass_commitment, extra_data).
     Inr \<lparr>cb_blue_score = from_le blue_score, cb_subsidy = from_le subsidy, cb_mass_commitment = mass_commitment,
       cb_miner_data = \<lparr>md_lock_script = script_new (hash_of_bytes lock_code_hash) (from_le lock_hash_type) args,
         md_extra_data = extra_data\<rparr>\<rparr>)))))))))))"

definition modify_coinbase_payload :: "coinbase_manager \<Rightarrow> bytes \<Rightarrow> miner_data \<Rightarrow> (coinbase_error, bytes) res" where
  "modify_coinbase_payload m raw miner =
     (let lock_args_len = length (sc_args (md_lock_script miner)) in
      rbind (rguard (lock_args_len \<le> unat (cm_script_max_len m)) (PayloadLockScriptLenAboveMax lock_args_len (cm_script_max_len m))) (\<lambda>_.
      rbind (deserialize_coinbase_payload m raw) (\<lambda>parsed.
      serialize_coinbase_payload m \<lparr>cb_blue_score = cb_blue_score parsed, cb_subsidy = cb_subsidy parsed,
        cb_mass_commitment = cb_mass_commitment parsed, cb_miner_data = miner\<rparr>)))"

section \<open>Subsidy\<close>

definition subsidy_month :: "coinbase_manager \<Rightarrow> nat \<Rightarrow> (coinbase_error, nat) res" where
  "subsidy_month m daa_score =
     rbind (sub64 daa_score (cm_deflationary_phase_daa_score m)) (\<lambda>since.
     rbind (div64 since (cm_bps m)) (\<lambda>seconds. div64 seconds SECONDS_PER_MONTH))"

definition calc_block_subsidy :: "coinbase_manager \<Rightarrow> nat \<Rightarrow> (coinbase_error, nat) res" where
  "calc_block_subsidy m daa_score =
     (if daa_score < cm_deflationary_phase_daa_score m then Inr (cm_base_subsidy m)
      else rbind (subsidy_month m daa_score) (\<lambda>month.
        idx (cm_subsidy_table m) (min month (length (cm_subsidy_table m) - 1))))"

section \<open>The expected coinbase\<close>

definition build_coinbase_cell_tx :: "cell_output list \<Rightarrow> bytes \<Rightarrow> (coinbase_error, cell_tx) res" where
  "build_coinbase_cell_tx outputs raw =
     (let outputs_data = replicate (length outputs) [];
          (outputs_data, witnesses) =
            (if outputs_data = [] then (outputs_data, if raw \<noteq> [] then [raw] else [])
             else (outputs_data[0 := raw], []))
      in case cell_tx_new [] [] outputs outputs_data witnesses of Inr tx \<Rightarrow> Inr tx | Inl _ \<Rightarrow> Inl Panic)"

definition reward_output :: "nat \<Rightarrow> script \<Rightarrow> cell_output" where
  "reward_output capacity lock = \<lparr>co_lock = lock, co_type = None, co_capacity = word_of_nat capacity\<rparr>"

text \<open>The loop over the blues inside the difficulty window.\<close>

definition push_blue :: "(hash \<rightharpoonup> block_reward_data) \<Rightarrow> cell_output list \<Rightarrow> hash \<Rightarrow> (coinbase_error, cell_output list) res" where
  "push_blue rewards outputs blue =
     rbind (unwrap (rewards blue)) (\<lambda>reward.
     rbind (add64 (rw_subsidy reward) (rw_total_fees reward)) (\<lambda>total.
     Inr (if total > 0 then outputs @ [reward_output total (rw_lock_script reward)] else outputs)))"

definition add_red_reward :: "(hash \<rightharpoonup> block_reward_data) \<Rightarrow> hash set \<Rightarrow> nat \<Rightarrow> hash \<Rightarrow> (coinbase_error, nat) res" where
  "add_red_reward rewards non_daa red_reward red =
     rbind (unwrap (rewards red)) (\<lambda>reward.
     if red \<in> non_daa then add64 red_reward (rw_total_fees reward)
     else rbind (add64 (rw_subsidy reward) (rw_total_fees reward)) (\<lambda>total. add64 red_reward total))"

definition expected_coinbase_transaction ::
  "coinbase_manager \<Rightarrow> nat \<Rightarrow> miner_data \<Rightarrow> ghostdag_data \<Rightarrow> (hash \<rightharpoonup> block_reward_data) \<Rightarrow> hash set
    \<Rightarrow> (coinbase_error, coinbase_transaction_template) res" where
  "expected_coinbase_transaction m daa_score miner gd rewards non_daa =
     rbind (rfold (push_blue rewards) [] (filter (\<lambda>h. h \<notin> non_daa) (gd_mergeset_blues gd))) (\<lambda>outputs.
     rbind (rfold (add_red_reward rewards non_daa) 0 (gd_mergeset_reds gd)) (\<lambda>red_reward.
     let outputs = (if red_reward > 0 then outputs @ [reward_output red_reward (md_lock_script miner)] else outputs) in
     rbind (calc_block_subsidy m daa_score) (\<lambda>subsidy.
     rbind (serialize_coinbase_payload m \<lparr>cb_blue_score = word_of_nat (gd_blue_score gd), cb_subsidy = word_of_nat subsidy,
       cb_mass_commitment = 0, cb_miner_data = miner\<rparr>) (\<lambda>payload.
     rbind (build_coinbase_cell_tx outputs payload) (\<lambda>tx.
     Inr \<lparr>ct_tx = tx, ct_has_red_reward = red_reward > 0\<rparr>)))))"

section \<open>Parsing and printing\<close>

lemma length_magic [simp]: "length COINBASE_MASS_COMMITMENT_MAGIC = 4"
  by (simp add: COINBASE_MASS_COMMITMENT_MAGIC_def ascii_def)

lemma parser_take_append: "length a = n \<Longrightarrow> parser_take n (a @ b) = Inr (a, b)"
  by (simp add: parser_take_def)

lemma parser_take_one: "parser_take 1 (b # bs) = Inr ([b], bs)"
  by (simp add: parser_take_def)

lemma from_le_byte [simp]: "from_le [b] = (b :: byte)"
  by simp

text \<open>The fixed part of a payload, and a payload of at least the minimal length split into it.\<close>

definition payload_head :: "64 word \<Rightarrow> 64 word \<Rightarrow> byte32 \<Rightarrow> byte \<Rightarrow> byte \<Rightarrow> bytes" where
  "payload_head a b c t l = le64 a @ le64 b @ hash_bytes c @ [t] @ [l]"

lemma length_payload_head [simp]: "length (payload_head a b c t l) = 50"
  by (simp add: payload_head_def)

lemma payload_head_exists:
  assumes "50 \<le> length p"
  obtains a b c t l r where "p = payload_head a b c t l @ r"
proof -
  define r where "r = drop 50 p"
  have parts: "p = take 8 p @ take 8 (drop 8 p) @ take 32 (drop 16 p) @ [p ! 48] @ [p ! 49] @ r"
  proof -
    have "drop 48 p = p ! 48 # p ! 49 # r"
      using assms by (simp add: r_def Cons_nth_drop_Suc [of 48 p, symmetric] Cons_nth_drop_Suc [of 49 p, symmetric])
    then have "drop 16 p = take 32 (drop 16 p) @ p ! 48 # p ! 49 # r" using append_take_drop_id [of 32 "drop 16 p"] by simp
    moreover have "drop 8 p = take 8 (drop 8 p) @ drop 16 p" using append_take_drop_id [of 8 "drop 8 p"] by simp
    moreover have "p = take 8 p @ drop 8 p" by simp
    ultimately show ?thesis by (metis append_Cons append_Nil)
  qed
  have "p = payload_head (from_le (take 8 p)) (from_le (take 8 (drop 8 p))) (hash_of_bytes (take 32 (drop 16 p))) (p ! 48) (p ! 49) @ r"
    using assms parts by (simp add: payload_head_def le_from_widths hash_bytes_of_hash)
  then show ?thesis by (rule that)
qed

lemma deserialize_head:
  "deserialize_coinbase_payload m (payload_head a b c t l @ r) =
     (if cm_max_payload_len m < 50 + length r then Inl (Err (PayloadLenAboveMax (50 + length r) (cm_max_payload_len m)))
      else if cm_script_max_len m < l then Inl (Err (PayloadLockScriptLenAboveMax (unat l) (cm_script_max_len m)))
      else if length r < unat l then Inl (Err (PayloadCantContainLockScript (50 + length r) (MIN_PAYLOAD_LENGTH + unat l)))
      else rbind (split_commitment (drop (unat l) r)) (\<lambda>(mass_commitment, extra_data).
        Inr \<lparr>cb_blue_score = a, cb_subsidy = b, cb_mass_commitment = mass_commitment,
          cb_miner_data = \<lparr>md_lock_script = script_new c t (take (unat l) r), md_extra_data = extra_data\<rparr>\<rparr>))"
proof -
  have head: "parser_take 8 (payload_head a b c t l @ r) = Inr (le64 a, le64 b @ hash_bytes c @ t # l # r)"
    "parser_take 8 (le64 b @ hash_bytes c @ t # l # r) = Inr (le64 b, hash_bytes c @ t # l # r)"
    "parser_take 32 (hash_bytes c @ t # l # r) = Inr (hash_bytes c, t # l # r)"
    "parser_take 1 (t # l # r) = Inr ([t], l # r)" "parser_take 1 (l # r) = Inr ([l], r)"
    by (simp_all add: payload_head_def parser_take_append parser_take_one del: One_nat_def)
  show ?thesis
    unfolding deserialize_coinbase_payload_def
    by (auto simp: head Let_def MIN_PAYLOAD_LENGTH_def rguard_def not_le not_less parser_take_def [of "unat l"] simp del: One_nat_def)
qed

lemma split_commitment_total: "\<exists>c e. split_commitment r = Inr (c, e)"
  by (simp add: split_commitment_def)

lemma split_commitment_marked:
  "split_commitment (COINBASE_MASS_COMMITMENT_MAGIC @ le64 c @ e) = Inr (c, e)"
  by (simp add: split_commitment_def)

lemma split_commitment_parts:
  assumes "12 \<le> length r" and "take 4 r = COINBASE_MASS_COMMITMENT_MAGIC" and "split_commitment r = Inr (x, e)"
  shows "COINBASE_MASS_COMMITMENT_MAGIC @ le64 x @ e = r"
proof -
  have "drop 4 r = take 8 (drop 4 r) @ drop 12 r" using append_take_drop_id [of 8 "drop 4 r"] by simp
  then have "r = take 4 r @ take 8 (drop 4 r) @ drop 12 r" by (metis append_take_drop_id)
  then have r: "r = COINBASE_MASS_COMMITMENT_MAGIC @ le64 (from_le (take 8 (drop 4 r))) @ drop 12 r"
    using assms(1,2) by (simp add: le_from_widths)
  have "split_commitment r = Inr (from_le (take 8 (drop 4 r)), drop 12 r)" by (subst r) (rule split_commitment_marked)
  then show ?thesis using assms(3) r by simp
qed

text \<open>Where the lock script of a payload ends, whether a commitment follows, and the payload with a zero one.\<close>

definition lock_end :: "bytes \<Rightarrow> nat" where
  "lock_end p = 50 + unat (p ! 49)"

definition marked :: "bytes \<Rightarrow> bool" where
  "marked p \<longleftrightarrow> lock_end p + 12 \<le> length p \<and> take 4 (drop (lock_end p) p) = COINBASE_MASS_COMMITMENT_MAGIC"

definition with_zero_commitment :: "bytes \<Rightarrow> bytes" where
  "with_zero_commitment p = take (lock_end p) p @ COINBASE_MASS_COMMITMENT_MAGIC @ le64 0 @ drop (lock_end p) p"

lemma lock_end_head [simp]: "lock_end (payload_head a b c t l @ r) = 50 + unat l"
  by (simp add: lock_end_def payload_head_def nth_append)

lemma marked_head:
  "marked (payload_head a b c t l @ r) \<longleftrightarrow> unat l + 12 \<le> length r \<and> take 4 (drop (unat l) r) = COINBASE_MASS_COMMITMENT_MAGIC"
  by (auto simp: marked_def)

lemma serialize_head:
  "serialize_coinbase_payload m d =
     (let lock = md_lock_script (cb_miner_data d); n = length (sc_args lock) in
      if unat (cm_script_max_len m) < n then Inl (Err (PayloadLockScriptLenAboveMax n (cm_script_max_len m)))
      else Inr (payload_head (cb_blue_score d) (cb_subsidy d) (sc_code_hash lock) (sc_hash_type lock) (word_of_nat n) @
        sc_args lock @ COINBASE_MASS_COMMITMENT_MAGIC @ le64 (cb_mass_commitment d) @ md_extra_data (cb_miner_data d)))"
  by (simp add: serialize_coinbase_payload_def payload_head_def Let_def rguard_def not_le)

lemma deserialize_serialize:
  assumes "serialize_coinbase_payload m d = Inr p" and "length p \<le> cm_max_payload_len m"
  shows "deserialize_coinbase_payload m p = Inr d"
proof -
  define n where "n = length (sc_args (md_lock_script (cb_miner_data d)))"
  have n: "n \<le> unat (cm_script_max_len m)"
    and p: "p = payload_head (cb_blue_score d) (cb_subsidy d) (sc_code_hash (md_lock_script (cb_miner_data d)))
        (sc_hash_type (md_lock_script (cb_miner_data d))) (word_of_nat n) @ sc_args (md_lock_script (cb_miner_data d)) @
        COINBASE_MASS_COMMITMENT_MAGIC @ le64 (cb_mass_commitment d) @ md_extra_data (cb_miner_data d)"
    using assms(1) by (auto simp: serialize_head Let_def n_def split: if_splits)
  have "unat (cm_script_max_len m) < 2 ^ LENGTH(8)" by (rule unsigned_less)
  then have "n < 2 ^ 8" using n by simp
  then have u: "unat (word_of_nat n :: byte) = n" by (simp add: unat_of_nat take_bit_nat_eq_self)
  have "\<not> cm_script_max_len m < word_of_nat n" using n by (simp add: word_less_nat_alt u)
  then show ?thesis
    using assms(2) unfolding p deserialize_head
    by (simp add: u [unfolded n_def] split_commitment_marked script_new_def n_def)
qed

lemma serialize_deserialize:
  assumes "deserialize_coinbase_payload m p = Inr d"
  shows "serialize_coinbase_payload m d = Inr (if marked p then p else with_zero_commitment p)"
proof -
  have "50 \<le> length p"
    using assms by (auto simp: deserialize_coinbase_payload_def rbind_Inr_iff MIN_PAYLOAD_LENGTH_def)
  then obtain a b c t l r where p: "p = payload_head a b c t l @ r" by (rule payload_head_exists)
  obtain x e where s: "split_commitment (drop (unat l) r) = Inr (x, e)" using split_commitment_total by blast
  have l: "l \<le> cm_script_max_len m" "unat l \<le> length r"
    and d: "d = \<lparr>cb_blue_score = a, cb_subsidy = b, cb_mass_commitment = x,
      cb_miner_data = \<lparr>md_lock_script = script_new c t (take (unat l) r), md_extra_data = e\<rparr>\<rparr>"
    using assms by (simp_all add: p deserialize_head s split: if_splits)
  have ser: "serialize_coinbase_payload m d =
      Inr (payload_head a b c t l @ take (unat l) r @ COINBASE_MASS_COMMITMENT_MAGIC @ le64 x @ e)"
    using l by (simp add: serialize_head d script_new_def min_def word_le_nat_alt)
  show ?thesis
  proof (cases "marked p")
    case True
    then have m: "unat l + 12 \<le> length r" "take 4 (drop (unat l) r) = COINBASE_MASS_COMMITMENT_MAGIC"
      by (simp_all add: p marked_head)
    have "COINBASE_MASS_COMMITMENT_MAGIC @ le64 x @ e = drop (unat l) r"
      by (rule split_commitment_parts) (use m s in simp_all)
    with True ser show ?thesis by (simp add: p)
  next
    case False
    then have "\<not> (4 + 8 \<le> length (drop (unat l) r) \<and> take 4 (drop (unat l) r) = COINBASE_MASS_COMMITMENT_MAGIC)"
      using l(2) by (auto simp: p marked_head)
    then have "x = 0" "e = drop (unat l) r" using s by (auto simp: split_commitment_def)
    with False ser show ?thesis by (simp add: p with_zero_commitment_def)
  qed
qed

lemma deserialize_no_panic: "deserialize_coinbase_payload m p \<noteq> Inl Panic"
proof (cases "50 \<le> length p")
  case True
  then obtain a b c t l r where p: "p = payload_head a b c t l @ r" by (rule payload_head_exists)
  obtain x e where "split_commitment (drop (unat l) r) = Inr (x, e)" using split_commitment_total by blast
  then show ?thesis by (simp add: p deserialize_head)
qed (simp add: deserialize_coinbase_payload_def MIN_PAYLOAD_LENGTH_def rguard_def)

section \<open>Emission\<close>

text \<open>The table falls monotonically to zero; its length and sum.\<close>

fun falling :: "nat list \<Rightarrow> bool" where
  "falling (x # y # ys) \<longleftrightarrow> y \<le> x \<and> falling (y # ys)"
| "falling _ \<longleftrightarrow> True"


lemma falling_map: "(\<And>x y. x \<le> y \<Longrightarrow> f x \<le> f y) \<Longrightarrow> falling xs \<Longrightarrow> falling (map f xs)"
  by (induction xs rule: falling.induct) simp_all

lemma subsidy_table_facts:
  "length SUBSIDY_BY_MONTH_TABLE = 426" "falling SUBSIDY_BY_MONTH_TABLE" "SUBSIDY_BY_MONTH_TABLE ! 425 = 0"
  "sum_list SUBSIDY_BY_MONTH_TABLE = 801771918303"
  by (simp_all add: SUBSIDY_BY_MONTH_TABLE_def)

lemma div_ceil_mono: "x \<le> y \<Longrightarrow> div_ceil x b \<le> div_ceil y b"
proof -
  assume "x \<le> y"
  then have d: "x div b \<le> y div b" by (rule div_le_mono)
  show ?thesis
  proof (cases "y mod b = 0 \<and> x div b = y div b \<and> x mod b \<noteq> 0")
    case True
    then have "y \<le> x" using div_mult_mod_eq [of x b] div_mult_mod_eq [of y b] by (metis add_0_right le_add1)
    with \<open>x \<le> y\<close> True show ?thesis by simp
  qed (use d in \<open>auto simp: div_ceil_def\<close>)
qed

lemma div_ceil_zero [simp]: "div_ceil 0 b = 0"
  by (simp add: div_ceil_def)

lemma falling_table: "falling (map (\<lambda>s. div_ceil s b) SUBSIDY_BY_MONTH_TABLE)"
  by (rule falling_map) (rule div_ceil_mono, assumption, rule subsidy_table_facts(2))

text \<open>The subsidy as a number.\<close>

definition subsidy_at :: "coinbase_manager \<Rightarrow> nat \<Rightarrow> nat" where
  "subsidy_at m d = (if d < cm_deflationary_phase_daa_score m then cm_base_subsidy m
     else cm_subsidy_table m ! min ((d - cm_deflationary_phase_daa_score m) div (cm_bps m * SECONDS_PER_MONTH)) 425)"

lemma manager_newD:
  assumes "coinbase_manager_new a b c s bps = Inr m"
  shows "cm_bps m = bps" "bps \<noteq> 0" "cm_subsidy_table m = map (\<lambda>s. div_ceil s bps) SUBSIDY_BY_MONTH_TABLE"
    "cm_deflationary_phase_daa_score m = c" "cm_base_subsidy m = s" "cm_script_max_len m = a" "cm_max_payload_len m = b"
    "length (cm_subsidy_table m) = 426" "falling (cm_subsidy_table m)" "cm_subsidy_table m ! 425 = 0"
  using assms subsidy_table_facts(1,3) falling_table [of bps] by (auto simp: coinbase_manager_new_def rbind_Inr_iff)

lemma calc_block_subsidy_eq:
  assumes "coinbase_manager_new a b c s bps = Inr m"
  shows "calc_block_subsidy m d = Inr (subsidy_at m d)"
  using manager_newD [OF assms]
  by (auto simp: calc_block_subsidy_def subsidy_at_def subsidy_month_def sub64_def div64_def SECONDS_PER_MONTH_def idx_def div_mult2_eq)





section \<open>Rewards\<close>

definition reward_total :: "block_reward_data \<Rightarrow> nat" where
  "reward_total r = rw_subsidy r + rw_total_fees r"

text \<open>What a blue inside the window and what a red contributes.\<close>

definition blue_value :: "(hash \<rightharpoonup> block_reward_data) \<Rightarrow> hash \<Rightarrow> nat" where
  "blue_value rewards h = reward_total (the (rewards h))"

definition red_value :: "(hash \<rightharpoonup> block_reward_data) \<Rightarrow> hash set \<Rightarrow> hash \<Rightarrow> nat" where
  "red_value rewards non_daa h = (if h \<in> non_daa then rw_total_fees (the (rewards h)) else reward_total (the (rewards h)))"

definition mergeset_value :: "ghostdag_data \<Rightarrow> (hash \<rightharpoonup> block_reward_data) \<Rightarrow> hash set \<Rightarrow> nat" where
  "mergeset_value gd rewards non_daa =
     (\<Sum>h\<leftarrow>filter (\<lambda>h. h \<notin> non_daa) (gd_mergeset_blues gd). blue_value rewards h) + (\<Sum>h\<leftarrow>gd_mergeset_reds gd. red_value rewards non_daa h)"

definition blue_outputs :: "(hash \<rightharpoonup> block_reward_data) \<Rightarrow> hash list \<Rightarrow> cell_output list" where
  "blue_outputs rewards hs =
     map (\<lambda>h. reward_output (blue_value rewards h) (rw_lock_script (the (rewards h)))) (filter (\<lambda>h. blue_value rewards h > 0) hs)"

lemma push_blues:
  assumes "set hs \<subseteq> dom rewards" and "(\<Sum>h\<leftarrow>hs. blue_value rewards h) < 2 ^ 64"
  shows "rfold (push_blue rewards) outs hs = Inr (outs @ blue_outputs rewards hs)"
  using assms
proof (induction hs arbitrary: outs)
  case (Cons h hs)
  then obtain r where "rewards h = Some r" by auto
  then show ?case using Cons by (simp add: push_blue_def blue_outputs_def blue_value_def reward_total_def)
qed (simp add: blue_outputs_def)

lemma add_red_step:
  assumes "h \<in> dom rewards" and "acc + red_value rewards non_daa h < 2 ^ 64"
  shows "add_red_reward rewards non_daa acc h = Inr (acc + red_value rewards non_daa h)"
  using assms by (auto simp: add_red_reward_def red_value_def reward_total_def)

lemma add_reds:
  assumes "set hs \<subseteq> dom rewards" and "acc + (\<Sum>h\<leftarrow>hs. red_value rewards non_daa h) < 2 ^ 64"
  shows "rfold (add_red_reward rewards non_daa) acc hs = Inr (acc + (\<Sum>h\<leftarrow>hs. red_value rewards non_daa h))"
  using assms by (induction hs arbitrary: acc) (simp_all add: add_red_step)

lemma capacity_reward_output: "n < 2 ^ 64 \<Longrightarrow> unat (co_capacity (reward_output n lock)) = n"
  by (simp add: reward_output_def unat_of_nat take_bit_nat_eq_self)

lemma blue_outputs_capacity:
  "(\<Sum>h\<leftarrow>hs. blue_value rewards h) < 2 ^ 64 \<Longrightarrow>
    (\<Sum>out\<leftarrow>blue_outputs rewards hs. unat (co_capacity out)) = (\<Sum>h\<leftarrow>hs. blue_value rewards h)"
  by (induction hs) (simp_all add: blue_outputs_def capacity_reward_output)

lemma build_coinbase:
  assumes "raw \<noteq> []"
  obtains tx where "build_coinbase_cell_tx outs raw = Inr tx" "is_coinbase tx" "tx_outputs tx = outs" "payload tx = Some raw"
  using assms
  by (cases outs) (auto simp: build_coinbase_cell_tx_def cell_tx_new_def new_with_header_deps_def payload_def is_coinbase_def)

section \<open>Properties\<close>

text \<open>
  C12: a payload of admissible length that was written is read back unchanged; a payload that is
  read is the one written for its contents, up to a missing commitment, which is read as
  zero and written explicitly; and reading never panics.
\<close>

theorem coinbase_payload_canonical:
  "(serialize_coinbase_payload m d = Inr p \<and> length p \<le> cm_max_payload_len m \<longrightarrow> deserialize_coinbase_payload m p = Inr d) \<and>
   (deserialize_coinbase_payload m p = Inr d \<longrightarrow>
      serialize_coinbase_payload m d = Inr (if marked p then p else with_zero_commitment p)) \<and>
   deserialize_coinbase_payload m p \<noteq> Inl Panic"
  using deserialize_serialize serialize_deserialize deserialize_no_panic by blast

text \<open>
  C11: the expected coinbase exists whenever the rewards of the mergeset are known and fit a \<^verbatim>\<open>u64\<close>
  and the miner's data fits.  It pays each blue inside the difficulty window its subsidy and
  fees, and the miner the rewards of the reds, fees only for those outside the window; the
  capacities add up to exactly these values.  Its payload reads as the blue score, the
  subsidy of the block and the miner's data.
\<close>

theorem expected_coinbase_pays:
  assumes "coinbase_manager_new a b c s bps = Inr m"
    and "set (gd_mergeset_blues gd) \<union> set (gd_mergeset_reds gd) \<subseteq> dom rewards"
    and "mergeset_value gd rewards non_daa < 2 ^ 64"
    and "length (sc_args (md_lock_script miner)) \<le> unat a"
    and "62 + length (sc_args (md_lock_script miner)) + length (md_extra_data miner) \<le> b"
  shows "\<exists>t p. expected_coinbase_transaction m daa miner gd rewards non_daa = Inr t \<and> is_coinbase (ct_tx t) \<and>
    tx_outputs (ct_tx t) = blue_outputs rewards (filter (\<lambda>h. h \<notin> non_daa) (gd_mergeset_blues gd)) @
      (let red = (\<Sum>h\<leftarrow>gd_mergeset_reds gd. red_value rewards non_daa h) in
       if red > 0 then [reward_output red (md_lock_script miner)] else []) \<and>
    (\<Sum>out\<leftarrow>tx_outputs (ct_tx t). unat (co_capacity out)) = mergeset_value gd rewards non_daa \<and>
    payload (ct_tx t) = Some p \<and>
    deserialize_coinbase_payload m p = Inr \<lparr>cb_blue_score = word_of_nat (gd_blue_score gd),
      cb_subsidy = word_of_nat (subsidy_at m daa), cb_mass_commitment = 0, cb_miner_data = miner\<rparr>"
proof -
  note m = manager_newD(6,7) [OF assms(1)]
  define blues where "blues = filter (\<lambda>h. h \<notin> non_daa) (gd_mergeset_blues gd)"
  define red where "red = (\<Sum>h\<leftarrow>gd_mergeset_reds gd. red_value rewards non_daa h)"
  define outs where "outs = blue_outputs rewards blues @ (if red > 0 then [reward_output red (md_lock_script miner)] else [])"
  have total: "(\<Sum>h\<leftarrow>blues. blue_value rewards h) + red < 2 ^ 64" using assms(3) by (simp add: mergeset_value_def blues_def red_def)
  have b: "rfold (push_blue rewards) [] blues = Inr (blue_outputs rewards blues)"
    using push_blues [of blues rewards "[]"] assms(2) total by (auto simp: blues_def)
  have r: "rfold (add_red_reward rewards non_daa) 0 (gd_mergeset_reds gd) = Inr red"
    using add_reds [of "gd_mergeset_reds gd" rewards 0 non_daa] assms(2) total by (auto simp: red_def)
  define d where "d = \<lparr>cb_blue_score = word_of_nat (gd_blue_score gd), cb_subsidy = word_of_nat (subsidy_at m daa),
      cb_mass_commitment = 0, cb_miner_data = miner\<rparr>"
  obtain p where p: "serialize_coinbase_payload m d = Inr p" "length p \<le> cm_max_payload_len m" "p \<noteq> []"
    using assms(4,5) m by (simp add: serialize_head d_def Let_def payload_head_def)
  obtain tx where tx: "build_coinbase_cell_tx outs p = Inr tx" "is_coinbase tx" "tx_outputs tx = outs" "payload tx = Some p"
    using p(3) by (rule build_coinbase)
  have run: "expected_coinbase_transaction m daa miner gd rewards non_daa = Inr \<lparr>ct_tx = tx, ct_has_red_reward = red > 0\<rparr>"
    using tx(1) p(1) by (simp add: expected_coinbase_transaction_def calc_block_subsidy_eq [OF assms(1)] b [unfolded blues_def] r d_def
        outs_def blues_def Let_def split: if_splits)
  have cap: "(\<Sum>out\<leftarrow>outs. unat (co_capacity out)) = mergeset_value gd rewards non_daa"
    using total by (auto simp: outs_def blue_outputs_capacity capacity_reward_output mergeset_value_def blues_def [symmetric] red_def [symmetric])
  show ?thesis
    using run tx cap deserialize_serialize [OF p(1,2)]
    by (intro exI [of _ "\<lparr>ct_tx = tx, ct_has_red_reward = red > 0\<rparr>"] exI [of _ p]) (simp add: d_def outs_def Let_def flip: blues_def red_def)
qed

text \<open>Parameters and a mergeset of two blues, one of them outside the window, and a red.\<close>

definition ex_reward :: "nat \<Rightarrow> nat \<Rightarrow> block_reward_data" where
  "ex_reward s f = \<lparr>rw_subsidy = s, rw_total_fees = f, rw_lock_script = script_new 1 0 [7]\<rparr>"

definition ex_mergeset :: ghostdag_data where
  "ex_mergeset = \<lparr>gd_blue_score = 9, gd_blue_work = 4, gd_selected_parent = 1, gd_mergeset_blues = [1, 2], gd_mergeset_reds = [3],
     gd_anticone_sizes = Map.empty\<rparr>"

definition ex_rewards :: "hash \<rightharpoonup> block_reward_data" where
  "ex_rewards = [1 \<mapsto> ex_reward 50 3, 2 \<mapsto> ex_reward 50 1, 3 \<mapsto> ex_reward 50 4]"

definition ex_miner :: miner_data where
  "ex_miner = \<lparr>md_lock_script = script_new 2 1 [8, 9], md_extra_data = [1, 2, 3]\<rparr>"

definition ex_coinbase_manager :: coinbase_manager where
  "ex_coinbase_manager = \<lparr>cm_script_max_len = 150, cm_max_payload_len = 216, cm_deflationary_phase_daa_score = 7889400, cm_base_subsidy = 50000000000,
     cm_bps = 1, cm_subsidy_table = SUBSIDY_BY_MONTH_TABLE\<rparr>"

lemma div_ceil_one [simp]: "div_ceil n 1 = n"
  by (simp add: div_ceil_def)

lemma ex_coinbase_manager_new: "coinbase_manager_new 150 216 7889400 50000000000 1 = Inr ex_coinbase_manager"
  by (simp add: coinbase_manager_new_def ex_coinbase_manager_def del: One_nat_def)

theorem coinbase_payload_canonical_witness:
  "\<exists>p. serialize_coinbase_payload ex_coinbase_manager \<lparr>cb_blue_score = 9, cb_subsidy = 5, cb_mass_commitment = 0, cb_miner_data = ex_miner\<rparr> = Inr p \<and>
     deserialize_coinbase_payload ex_coinbase_manager p = Inr \<lparr>cb_blue_score = 9, cb_subsidy = 5, cb_mass_commitment = 0, cb_miner_data = ex_miner\<rparr>"
proof -
  let ?d = "\<lparr>cb_blue_score = 9, cb_subsidy = 5, cb_mass_commitment = 0, cb_miner_data = ex_miner\<rparr>"
  obtain p where p: "serialize_coinbase_payload ex_coinbase_manager ?d = Inr p" "length p \<le> cm_max_payload_len ex_coinbase_manager"
    by (simp add: serialize_head ex_coinbase_manager_def ex_miner_def script_new_def)
  then show ?thesis using coinbase_payload_canonical [of ex_coinbase_manager ?d p] by blast
qed

theorem expected_coinbase_pays_witness:
  "\<exists>t. expected_coinbase_transaction ex_coinbase_manager 9 ex_miner ex_mergeset ex_rewards {2} = Inr t \<and>
     map (\<lambda>out. unat (co_capacity out)) (tx_outputs (ct_tx t)) = [53, 54]"
proof -
  have v: "mergeset_value ex_mergeset ex_rewards {2} = 107"
    by (simp add: mergeset_value_def ex_mergeset_def blue_value_def red_value_def reward_total_def ex_rewards_def ex_reward_def)
  have "\<exists>t p. expected_coinbase_transaction ex_coinbase_manager 9 ex_miner ex_mergeset ex_rewards {2} = Inr t \<and> is_coinbase (ct_tx t) \<and>
    tx_outputs (ct_tx t) = blue_outputs ex_rewards (filter (\<lambda>h. h \<notin> {2}) (gd_mergeset_blues ex_mergeset)) @
      (let red = (\<Sum>h\<leftarrow>gd_mergeset_reds ex_mergeset. red_value ex_rewards {2} h) in
       if red > 0 then [reward_output red (md_lock_script ex_miner)] else []) \<and>
    (\<Sum>out\<leftarrow>tx_outputs (ct_tx t). unat (co_capacity out)) = mergeset_value ex_mergeset ex_rewards {2} \<and>
    payload (ct_tx t) = Some p \<and>
    deserialize_coinbase_payload ex_coinbase_manager p = Inr \<lparr>cb_blue_score = word_of_nat (gd_blue_score ex_mergeset),
      cb_subsidy = word_of_nat (subsidy_at ex_coinbase_manager 9), cb_mass_commitment = 0, cb_miner_data = ex_miner\<rparr>"
    by (rule expected_coinbase_pays [OF ex_coinbase_manager_new])
      (simp_all add: v, simp_all add: ex_mergeset_def ex_rewards_def ex_miner_def script_new_def)
  then show ?thesis
    by (elim exE conjE) (simp add: ex_mergeset_def blue_outputs_def blue_value_def red_value_def reward_total_def ex_rewards_def ex_reward_def
        reward_output_def Let_def)
qed



end
