(* ===== verification/BlockBody.thy ===== *)
theory BlockBody
  imports Merkle Coinbase
begin

text \<open>
  Validation of a block body in isolation:
  \<^verbatim>\<open>consensus/src/pipeline/body_processor/body_validation_in_isolation.rs\<close> with the
  transaction checks of \<^verbatim>\<open>processes/cell_validator/cell_validation_in_isolation.rs\<close> and the
  masses of \<^verbatim>\<open>consensus/core/src/mass/mod.rs\<close>, and the effect of \<^verbatim>\<open>process_body\<close> of
  \<^verbatim>\<open>body_processor/processor.rs\<close> on the block statuses.

  Of a header only its hash and the merkle root are read.  Sizes of data in memory are
  natural numbers, their products with the mass parameters are checked.  The flag
  \<^verbatim>\<open>crescendo_activated\<close> is the constant true in the code, so only its branches are kept.
\<close>

section \<open>Masses\<close>

record mass_calculator =
  mc_mass_per_tx_byte :: nat
  mc_mass_per_script_pub_key_byte :: nat
  mc_mass_per_sig_op :: nat
  mc_storage_mass_parameter :: nat

record non_contextual_masses =
  nm_compute_mass :: nat
  nm_transient_mass :: nat

definition output_script_size :: "cell_output \<Rightarrow> nat" where
  "output_script_size out = 32 + 1 + length (sc_args (co_lock out)) +
     (case co_type out of None \<Rightarrow> 0 | Some t \<Rightarrow> 32 + 1 + length (sc_args t))"

definition calc_non_contextual_masses_cell :: "mass_calculator \<Rightarrow> cell_tx \<Rightarrow> ('e, non_contextual_masses) res" where
  "calc_non_contextual_masses_cell mc tx =
     (if is_coinbase tx then Inr \<lparr>nm_compute_mass = 0, nm_transient_mass = 0\<rparr>
      else let size = cell_tx_estimated_serialized_size tx in
        rbind (mul64 size (mc_mass_per_tx_byte mc)) (\<lambda>compute_mass_for_size.
        rbind (mul64 (\<Sum>out\<leftarrow>tx_outputs tx. output_script_size out) (mc_mass_per_script_pub_key_byte mc)) (\<lambda>total_lock_script_mass.
        rbind (mul64 (length (tx_inputs tx)) (mc_mass_per_sig_op mc)) (\<lambda>total_sigops_mass.
        rbind (add64 compute_mass_for_size total_lock_script_mass) (\<lambda>partial_mass.
        rbind (add64 partial_mass total_sigops_mass) (\<lambda>compute_mass.
        rbind (mul64 size TRANSIENT_BYTE_TO_MASS_FACTOR) (\<lambda>transient_mass.
        Inr \<lparr>nm_compute_mass = compute_mass, nm_transient_mass = transient_mass\<rparr>)))))))"

section \<open>Transactions\<close>

text \<open>The texts of \<^verbatim>\<open>InvalidFormat\<close> are kept as constructors with the numbers they print.\<close>

datatype format_fault = InvalidVersion "32 word" | NoInputs | NoOutputs | DataLengthMismatch | OutputDataTooLarge nat nat

datatype cell_validation_error = InvalidFormat format_fault | CellInsufficientCapacity nat nat

definition check_output :: "cell_tx \<Rightarrow> nat \<Rightarrow> unit \<Rightarrow> nat \<times> cell_output \<Rightarrow> (cell_validation_error, unit) res" where
  "check_output tx max_cell_data_size = (\<lambda>_ (i, out).
     let data_len = (if i < length (tx_outputs_data tx) then length (tx_outputs_data tx ! i) else 0) in
     rbind (rguard (data_len \<le> max_cell_data_size) (InvalidFormat (OutputDataTooLarge data_len max_cell_data_size))) (\<lambda>_.
     case verify_capacity out data_len of
       Inl (Err (InsufficientCapacity required available)) \<Rightarrow> Inl (Err (CellInsufficientCapacity required available))
     | Inl _ \<Rightarrow> Inl Panic
     | Inr _ \<Rightarrow> Inr ()))"

definition validate_cell_tx_in_isolation :: "cell_tx \<Rightarrow> nat \<Rightarrow> (cell_validation_error, unit) res" where
  "validate_cell_tx_in_isolation tx max_cell_data_size =
     rbind (rguard (tx_version tx = CELL_TX_VERSION) (InvalidFormat (InvalidVersion (tx_version tx)))) (\<lambda>_.
     rbind (rguard (tx_inputs tx \<noteq> []) (InvalidFormat NoInputs)) (\<lambda>_.
     rbind (rguard (tx_outputs tx \<noteq> []) (InvalidFormat NoOutputs)) (\<lambda>_.
     rbind (rguard (length (tx_outputs tx) = length (tx_outputs_data tx)) (InvalidFormat DataLengthMismatch)) (\<lambda>_.
     rfold (check_output tx max_cell_data_size) () (List.enumerate 0 (tx_outputs tx))))))"

section \<open>Blocks\<close>

record block_header =
  hd_hash :: hash
  hd_hash_merkle_root :: hash

record block =
  bk_header :: block_header
  bk_transactions :: "cell_tx list"

text \<open>
  The errors of the modelled checks; \<open>OtherRule\<close> stands for the errors that only the contextual
  validation raises.
\<close>

datatype rule_error =
  NoTransactions
| BadMerkleRoot hash hash
| FirstTxNotCoinbase
| MultipleCoinbases nat
| CellValidationError byte32 cell_validation_error
| BadCoinbasePayload coinbase_error
| CoinbaseNonZeroMassCommitment
| ExceedsComputeMassLimit nat nat
| ExceedsTransientMassLimit nat nat
| DoubleSpendInSameBlock out_point
| ChainedTransaction out_point
| DuplicateTransactions hash
| KnownInvalid
| MissingParents "hash list"
| PrunedBlock
| OtherRule string

record body_processor =
  bp_mass_calculator :: mass_calculator
  bp_coinbase_manager :: coinbase_manager
  bp_max_block_mass :: nat

definition MAX_CELL_DATA_SIZE :: nat where
  "MAX_CELL_DATA_SIZE = 500 * 1024"

definition check_has_transactions :: "block \<Rightarrow> (rule_error, unit) res" where
  "check_has_transactions b = rguard (bk_transactions b \<noteq> []) NoTransactions"

definition check_hash_merkle_root :: "(bytes \<Rightarrow> byte32) \<Rightarrow> block \<Rightarrow> (rule_error, unit) res" where
  "check_hash_merkle_root blake3 b =
     (case calc_hash_merkle_root_cell blake3 (bk_transactions b) of Inl _ \<Rightarrow> Inl Panic
      | Inr calculated \<Rightarrow> rguard (calculated = hd_hash_merkle_root (bk_header b))
          (BadMerkleRoot (hd_hash_merkle_root (bk_header b)) calculated))"

definition check_only_one_coinbase :: "block \<Rightarrow> (rule_error, unit) res" where
  "check_only_one_coinbase b =
     rbind (idx (bk_transactions b) 0) (\<lambda>first.
     rbind (rguard (is_coinbase first) FirstTxNotCoinbase) (\<lambda>_.
     rbind (slice (bk_transactions b) 1 (length (bk_transactions b))) (\<lambda>rest.
     case position is_coinbase rest of Some i \<Rightarrow> Inl (Err (MultipleCoinbases i)) | None \<Rightarrow> Inr ())))"

definition check_transaction_in_isolation :: "(bytes \<Rightarrow> byte32) \<Rightarrow> unit \<Rightarrow> cell_tx \<Rightarrow> (rule_error, unit) res" where
  "check_transaction_in_isolation blake3 _ tx =
     (if is_coinbase tx then Inr ()
      else case validate_cell_tx_in_isolation tx MAX_CELL_DATA_SIZE of
        Inr _ \<Rightarrow> Inr ()
      | Inl (Err e) \<Rightarrow> Inl (Err (CellValidationError (compute_txid blake3 tx) e))
      | Inl _ \<Rightarrow> Inl Panic)"

definition check_transactions_in_isolation :: "(bytes \<Rightarrow> byte32) \<Rightarrow> block \<Rightarrow> (rule_error, unit) res" where
  "check_transactions_in_isolation blake3 b = rfold (check_transaction_in_isolation blake3) () (bk_transactions b)"

definition check_coinbase_has_zero_mass :: "body_processor \<Rightarrow> block \<Rightarrow> (rule_error, unit) res" where
  "check_coinbase_has_zero_mass bp b =
     rbind (idx (bk_transactions b) 0) (\<lambda>first.
     case deserialize_coinbase_payload (bp_coinbase_manager bp) (case payload first of Some p \<Rightarrow> p | None \<Rightarrow> []) of
       Inl (Err e) \<Rightarrow> Inl (Err (BadCoinbasePayload e))
     | Inl _ \<Rightarrow> Inl Panic
     | Inr d \<Rightarrow> rguard (cb_mass_commitment d = 0) CoinbaseNonZeroMassCommitment)"

definition add_masses :: "body_processor \<Rightarrow> nat \<times> nat \<Rightarrow> cell_tx \<Rightarrow> (rule_error, nat \<times> nat) res" where
  "add_masses bp = (\<lambda>(total_compute_mass, total_transient_mass) tx.
     rbind (calc_non_contextual_masses_cell (bp_mass_calculator bp) tx) (\<lambda>masses.
     let c = sat_add64 total_compute_mass (nm_compute_mass masses); t = sat_add64 total_transient_mass (nm_transient_mass masses) in
     rbind (rguard (c \<le> bp_max_block_mass bp) (ExceedsComputeMassLimit c (bp_max_block_mass bp))) (\<lambda>_.
     rbind (rguard (t \<le> bp_max_block_mass bp) (ExceedsTransientMassLimit t (bp_max_block_mass bp))) (\<lambda>_.
     Inr (c, t)))))"

text \<open>A mass is the pair of the non-contextual masses and the storage mass, zero here.\<close>

definition check_block_mass :: "body_processor \<Rightarrow> block \<Rightarrow> (rule_error, non_contextual_masses \<times> nat) res" where
  "check_block_mass bp b = rbind (rfold (add_masses bp) (0, 0) (bk_transactions b)) (\<lambda>(c, t).
     Inr (\<lparr>nm_compute_mass = c, nm_transient_mass = t\<rparr>, 0))"

definition insert_id :: "(bytes \<Rightarrow> byte32) \<Rightarrow> hash set \<Rightarrow> cell_tx \<Rightarrow> (rule_error, hash set) res" where
  "insert_id blake3 ids tx = rbind (rguard (compute_txid blake3 tx \<notin> ids) (DuplicateTransactions (compute_txid blake3 tx))) (\<lambda>_.
     Inr (insert (compute_txid blake3 tx) ids))"

definition check_duplicate_transactions :: "(bytes \<Rightarrow> byte32) \<Rightarrow> block \<Rightarrow> (rule_error, unit) res" where
  "check_duplicate_transactions blake3 b = rbind (rfold (insert_id blake3) {} (bk_transactions b)) (\<lambda>_. Inr ())"

text \<open>The out points spent by a block, in order, and those it creates; an index is cast to \<^verbatim>\<open>u32\<close>.\<close>

definition spent_out_points :: "block \<Rightarrow> out_point list" where
  "spent_out_points b = concat (map (\<lambda>tx. map ci_previous_output (tx_inputs tx)) (bk_transactions b))"

definition created_out_points :: "(bytes \<Rightarrow> byte32) \<Rightarrow> block \<Rightarrow> out_point list" where
  "created_out_points blake3 b =
     concat (map (\<lambda>tx. map (\<lambda>i. out_point_new (compute_txid blake3 tx) (word_of_nat i)) [0..<length (tx_outputs tx)]) (bk_transactions b))"

definition insert_spent :: "out_point set \<Rightarrow> out_point \<Rightarrow> (rule_error, out_point set) res" where
  "insert_spent existing op = rbind (rguard (op \<notin> existing) (DoubleSpendInSameBlock op)) (\<lambda>_. Inr (insert op existing))"

definition check_block_double_spends :: "block \<Rightarrow> (rule_error, unit) res" where
  "check_block_double_spends b = rbind (rfold insert_spent {} (spent_out_points b)) (\<lambda>_. Inr ())"

definition check_no_chained_transactions :: "(bytes \<Rightarrow> byte32) \<Rightarrow> block \<Rightarrow> (rule_error, unit) res" where
  "check_no_chained_transactions blake3 b =
     (let block_created_outpoints = set (created_out_points blake3 b) in
      rfold (\<lambda>_ op. rguard (op \<notin> block_created_outpoints) (ChainedTransaction op)) () (spent_out_points b))"

definition validate_body_in_isolation ::
  "(bytes \<Rightarrow> byte32) \<Rightarrow> body_processor \<Rightarrow> block \<Rightarrow> (rule_error, non_contextual_masses \<times> nat) res" where
  "validate_body_in_isolation blake3 bp b =
     rbind (check_has_transactions b) (\<lambda>_.
     rbind (check_hash_merkle_root blake3 b) (\<lambda>_.
     rbind (check_only_one_coinbase b) (\<lambda>_.
     rbind (check_transactions_in_isolation blake3 b) (\<lambda>_.
     rbind (check_coinbase_has_zero_mass bp b) (\<lambda>_.
     rbind (check_block_mass bp b) (\<lambda>mass.
     rbind (check_duplicate_transactions blake3 b) (\<lambda>_.
     rbind (check_block_double_spends b) (\<lambda>_.
     rbind (check_no_chained_transactions blake3 b) (\<lambda>_. Inr mass)))))))))"

section \<open>Statuses\<close>

datatype block_status = StatusInvalid | StatusCellValid | StatusCellPendingVerification | StatusDisqualifiedFromChain | StatusHeaderOnly

fun has_block_body :: "block_status \<Rightarrow> bool" where
  "has_block_body StatusCellValid \<longleftrightarrow> True"
| "has_block_body StatusCellPendingVerification \<longleftrightarrow> True"
| "has_block_body StatusDisqualifiedFromChain \<longleftrightarrow> True"
| "has_block_body _ \<longleftrightarrow> False"

type_synonym mass = "non_contextual_masses \<times> nat"

text \<open>The contextual validation is an argument: the results below hold for every one.\<close>

definition validate_body ::
  "(bytes \<Rightarrow> byte32) \<Rightarrow> body_processor \<Rightarrow> (block \<Rightarrow> (rule_error, mass) res) \<Rightarrow> block \<Rightarrow> bool \<Rightarrow> (rule_error, mass) res" where
  "validate_body blake3 bp in_context b is_trusted =
     rbind (validate_body_in_isolation blake3 bp b) (\<lambda>isolation_mass.
     if \<not> is_trusted then in_context b else Inr isolation_mass)"

fun keeps_status :: "rule_error \<Rightarrow> bool" where
  "keeps_status (BadMerkleRoot _ _) \<longleftrightarrow> True"
| "keeps_status (MissingParents _) \<longleftrightarrow> True"
| "keeps_status PrunedBlock \<longleftrightarrow> True"
| "keeps_status _ \<longleftrightarrow> False"

definition process_body ::
  "(bytes \<Rightarrow> byte32) \<Rightarrow> body_processor \<Rightarrow> (block \<Rightarrow> (rule_error, mass) res) \<Rightarrow> (hash \<rightharpoonup> block_status) \<Rightarrow> block \<Rightarrow> bool
    \<Rightarrow> (rule_error, block_status) res \<times> (hash \<rightharpoonup> block_status)" where
  "process_body blake3 bp in_context statuses b is_trusted =
     (let h = hd_hash (bk_header b) in
      case statuses h of None \<Rightarrow> (Inl Panic, statuses)
      | Some StatusInvalid \<Rightarrow> (Inl (Err KnownInvalid), statuses)
      | Some StatusHeaderOnly \<Rightarrow>
          (case validate_body blake3 bp in_context b is_trusted of
             Inr mass \<Rightarrow> (Inr StatusCellPendingVerification, statuses(h \<mapsto> StatusCellPendingVerification))
           | Inl (Err e) \<Rightarrow> (Inl (Err e), if keeps_status e then statuses else statuses(h \<mapsto> StatusInvalid))
           | Inl f \<Rightarrow> (Inl f, statuses))
      | Some status \<Rightarrow> if has_block_body status then (Inr status, statuses) else (Inl Panic, statuses))"

section \<open>Each check\<close>

lemma rbind_rguard_Inr: "rbind (rguard P e) f = Inr v \<longleftrightarrow> P \<and> f () = Inr v"
  by (cases P) simp_all

lemma enumerate_all: "(\<forall>x\<in>set (List.enumerate 0 xs). P x) \<longleftrightarrow> (\<forall>i < length xs. P (i, xs ! i))"
  by (simp add: all_set_conv_all_nth nth_enumerate_eq)

text \<open>A transaction that is acceptable by itself.\<close>

definition well_formed_tx :: "cell_tx \<Rightarrow> bool" where
  "well_formed_tx tx \<longleftrightarrow> tx_version tx = CELL_TX_VERSION \<and> tx_inputs tx \<noteq> [] \<and> tx_outputs tx \<noteq> [] \<and>
     length (tx_outputs_data tx) = length (tx_outputs tx) \<and>
     (\<forall>i < length (tx_outputs tx). length (tx_outputs_data tx ! i) \<le> MAX_CELL_DATA_SIZE \<and>
        occupied_capacity (tx_outputs tx ! i) (length (tx_outputs_data tx ! i)) \<le> unat (co_capacity (tx_outputs tx ! i)))"

lemma check_output_iff:
  "check_output tx n () (i, out) = Inr u \<longleftrightarrow> (let data_len = (if i < length (tx_outputs_data tx) then length (tx_outputs_data tx ! i) else 0) in
     data_len \<le> n \<and> occupied_capacity out data_len \<le> unat (co_capacity out))"
  by (simp add: check_output_def Let_def verify_capacity_def rbind_rguard_Inr not_less)

lemma validate_tx_iff: "validate_cell_tx_in_isolation tx MAX_CELL_DATA_SIZE = Inr u \<longleftrightarrow> well_formed_tx tx"
  by (auto simp: validate_cell_tx_in_isolation_def well_formed_tx_def rbind_rguard_Inr rfold_unit_iff enumerate_all check_output_iff Let_def)

lemma check_transactions_iff:
  "check_transactions_in_isolation h b = Inr u \<longleftrightarrow> (\<forall>tx\<in>set (bk_transactions b). is_coinbase tx \<or> well_formed_tx tx)"
proof -
  have "check_transaction_in_isolation h () tx = Inr () \<longleftrightarrow> is_coinbase tx \<or> well_formed_tx tx" for tx
    using validate_tx_iff [of tx "()"] by (auto simp: check_transaction_in_isolation_def split: sum.splits fault.splits)
  then show ?thesis by (simp add: check_transactions_in_isolation_def rfold_unit_iff)
qed

lemma check_only_one_coinbase_iff:
  "bk_transactions b \<noteq> [] \<Longrightarrow> check_only_one_coinbase b = Inr u \<longleftrightarrow>
     is_coinbase (hd (bk_transactions b)) \<and> (\<forall>tx\<in>set (tl (bk_transactions b)). \<not> is_coinbase tx)"
  by (cases "bk_transactions b")
    (auto simp: check_only_one_coinbase_def rbind_rguard_Inr position_None_iff [symmetric] split: option.splits)

lemma check_coinbase_iff:
  "bk_transactions b \<noteq> [] \<Longrightarrow> check_coinbase_has_zero_mass bp b = Inr u \<longleftrightarrow>
     (\<exists>d. deserialize_coinbase_payload (bp_coinbase_manager bp) (case payload (hd (bk_transactions b)) of Some p \<Rightarrow> p | None \<Rightarrow> []) = Inr d \<and>
       cb_mass_commitment d = 0)"
  by (auto simp: check_coinbase_has_zero_mass_def hd_conv_nth split: sum.splits fault.splits)

text \<open>The masses as numbers.\<close>

definition compute_mass :: "mass_calculator \<Rightarrow> cell_tx \<Rightarrow> nat" where
  "compute_mass mc tx = (if is_coinbase tx then 0 else cell_tx_estimated_serialized_size tx * mc_mass_per_tx_byte mc +
     (\<Sum>out\<leftarrow>tx_outputs tx. output_script_size out) * mc_mass_per_script_pub_key_byte mc + length (tx_inputs tx) * mc_mass_per_sig_op mc)"

definition transient_mass :: "cell_tx \<Rightarrow> nat" where
  "transient_mass tx = (if is_coinbase tx then 0 else cell_tx_estimated_serialized_size tx * TRANSIENT_BYTE_TO_MASS_FACTOR)"

lemma calc_masses_eq:
  "calc_non_contextual_masses_cell mc tx =
     (if compute_mass mc tx < 2 ^ 64 \<and> transient_mass tx < 2 ^ 64
      then Inr \<lparr>nm_compute_mass = compute_mass mc tx, nm_transient_mass = transient_mass tx\<rparr> else Inl Panic)"
  by (simp add: calc_non_contextual_masses_cell_def compute_mass_def transient_mass_def arith_defs Let_def)

lemma add_masses_eq:
  assumes "bp_max_block_mass bp < u64_max" and "compute_mass (bp_mass_calculator bp) tx < 2 ^ 64" and "transient_mass tx < 2 ^ 64"
  shows "add_masses bp (c, t) tx =
    (let c' = c + compute_mass (bp_mass_calculator bp) tx; t' = t + transient_mass tx in
     if bp_max_block_mass bp < c' then Inl (Err (ExceedsComputeMassLimit (min c' u64_max) (bp_max_block_mass bp)))
     else if bp_max_block_mass bp < t' then Inl (Err (ExceedsTransientMassLimit (min t' u64_max) (bp_max_block_mass bp)))
     else Inr (c', t'))"
  using assms by (auto simp: add_masses_def calc_masses_eq Let_def rguard_def sat_add64_def min_def)

lemma add_masses_fold:
  assumes "bp_max_block_mass bp < u64_max"
  shows "c \<le> bp_max_block_mass bp \<Longrightarrow> t \<le> bp_max_block_mass bp \<Longrightarrow> rfold (add_masses bp) (c, t) txs = Inr r \<longleftrightarrow>
    c + (\<Sum>tx\<leftarrow>txs. compute_mass (bp_mass_calculator bp) tx) \<le> bp_max_block_mass bp \<and>
    t + (\<Sum>tx\<leftarrow>txs. transient_mass tx) \<le> bp_max_block_mass bp \<and>
    r = (c + (\<Sum>tx\<leftarrow>txs. compute_mass (bp_mass_calculator bp) tx), t + (\<Sum>tx\<leftarrow>txs. transient_mass tx))"
proof (induction txs arbitrary: c t)
  case (Cons tx txs)
  let ?c = "compute_mass (bp_mass_calculator bp) tx" and ?t = "transient_mass tx"
  have u: "u64_max < 2 ^ 64" by (simp add: u64_max_def)
  show ?case
  proof (cases "?c < 2 ^ 64 \<and> ?t < 2 ^ 64")
    case True
    show ?thesis
    proof (cases "c + ?c \<le> bp_max_block_mass bp \<and> t + ?t \<le> bp_max_block_mass bp")
      case le: True
      then have "add_masses bp (c, t) tx = Inr (c + ?c, t + ?t)" using True add_masses_eq [OF assms, of tx c t] by (auto simp: Let_def)
      then show ?thesis using Cons.IH [of "c + ?c" "t + ?t"] le by (simp add: add.assoc)
    next
      case False
      then have "\<exists>e. add_masses bp (c, t) tx = Inl (Err e)" using True add_masses_eq [OF assms, of tx c t] by (auto simp: Let_def)
      then show ?thesis using False by auto
    qed
  next
    case False
    then have "add_masses bp (c, t) tx = Inl Panic" by (auto simp: add_masses_def calc_masses_eq)
    then show ?thesis using False assms u by auto
  qed
qed auto

lemma check_block_mass_iff:
  assumes "bp_max_block_mass bp < u64_max"
  shows "check_block_mass bp b = Inr m \<longleftrightarrow>
    (\<Sum>tx\<leftarrow>bk_transactions b. compute_mass (bp_mass_calculator bp) tx) \<le> bp_max_block_mass bp \<and>
    (\<Sum>tx\<leftarrow>bk_transactions b. transient_mass tx) \<le> bp_max_block_mass bp \<and>
    m = (\<lparr>nm_compute_mass = (\<Sum>tx\<leftarrow>bk_transactions b. compute_mass (bp_mass_calculator bp) tx),
      nm_transient_mass = (\<Sum>tx\<leftarrow>bk_transactions b. transient_mass tx)\<rparr>, 0)"
  by (auto simp: check_block_mass_def rbind_Inr_iff add_masses_fold [OF assms])

lemma insert_ids_iff:
  "(\<exists>s. rfold (insert_id h) ids txs = Inr s) \<longleftrightarrow> distinct (map (compute_txid h) txs) \<and> set (map (compute_txid h) txs) \<inter> ids = {}"
  by (induction txs arbitrary: ids) (auto simp: insert_id_def rbind_rguard_Inr rbind_Inr_iff)

lemma insert_spent_iff:
  "(\<exists>s. rfold insert_spent existing ops = Inr s) \<longleftrightarrow> distinct ops \<and> set ops \<inter> existing = {}"
  by (induction ops arbitrary: existing) (auto simp: insert_spent_def rbind_rguard_Inr rbind_Inr_iff)

section \<open>Bodies that are accepted\<close>

definition acceptable_body :: "(bytes \<Rightarrow> byte32) \<Rightarrow> body_processor \<Rightarrow> block \<Rightarrow> bool" where
  "acceptable_body h bp b \<longleftrightarrow> bk_transactions b \<noteq> [] \<and>
     merkle_root h (map (compute_txid h) (bk_transactions b)) = hd_hash_merkle_root (bk_header b) \<and>
     is_coinbase (hd (bk_transactions b)) \<and> (\<forall>tx\<in>set (tl (bk_transactions b)). well_formed_tx tx) \<and>
     (\<exists>d. deserialize_coinbase_payload (bp_coinbase_manager bp) (case payload (hd (bk_transactions b)) of Some p \<Rightarrow> p | None \<Rightarrow> []) = Inr d \<and>
       cb_mass_commitment d = 0) \<and>
     (\<Sum>tx\<leftarrow>bk_transactions b. compute_mass (bp_mass_calculator bp) tx) \<le> bp_max_block_mass bp \<and>
     (\<Sum>tx\<leftarrow>bk_transactions b. transient_mass tx) \<le> bp_max_block_mass bp \<and>
     distinct (map (compute_txid h) (bk_transactions b)) \<and> distinct (spent_out_points b) \<and>
     set (spent_out_points b) \<inter> set (created_out_points h b) = {}"

definition body_mass :: "body_processor \<Rightarrow> block \<Rightarrow> mass" where
  "body_mass bp b = (\<lparr>nm_compute_mass = (\<Sum>tx\<leftarrow>bk_transactions b. compute_mass (bp_mass_calculator bp) tx),
     nm_transient_mass = (\<Sum>tx\<leftarrow>bk_transactions b. transient_mass tx)\<rparr>, 0)"

lemma check_merkle_iff:
  "check_hash_merkle_root h b = Inr u \<longleftrightarrow> merkle_root h (map (compute_txid h) (bk_transactions b)) = hd_hash_merkle_root (bk_header b)"
  by (simp add: check_hash_merkle_root_def calc_hash_merkle_root_cell_def calc_merkle_root_eq)

lemma check_duplicates_iff:
  "check_duplicate_transactions h b = Inr u \<longleftrightarrow> distinct (map (compute_txid h) (bk_transactions b))"
  using insert_ids_iff [of h "{}" "bk_transactions b"] by (auto simp: check_duplicate_transactions_def rbind_Inr_iff)

lemma check_double_spends_iff: "check_block_double_spends b = Inr u \<longleftrightarrow> distinct (spent_out_points b)"
  using insert_spent_iff [of "{}" "spent_out_points b"] by (auto simp: check_block_double_spends_def rbind_Inr_iff)

lemma check_chained_iff:
  "check_no_chained_transactions h b = Inr u \<longleftrightarrow> set (spent_out_points b) \<inter> set (created_out_points h b) = {}"
  by (auto simp: check_no_chained_transactions_def rfold_unit_iff)

lemma not_coinbase_well_formed: "well_formed_tx tx \<Longrightarrow> \<not> is_coinbase tx"
  by (simp add: well_formed_tx_def is_coinbase_def)

lemma coinbase_first_iff:
  assumes "txs \<noteq> []"
  shows "is_coinbase (hd txs) \<and> (\<forall>tx\<in>set (tl txs). \<not> is_coinbase tx) \<and> (\<forall>tx\<in>set txs. is_coinbase tx \<or> well_formed_tx tx) \<longleftrightarrow>
    is_coinbase (hd txs) \<and> (\<forall>tx\<in>set (tl txs). well_formed_tx tx)"
  using assms not_coinbase_well_formed by (cases txs) auto

lemma validate_isolation_iff:
  assumes "bp_max_block_mass bp < u64_max"
  shows "validate_body_in_isolation h bp b = Inr m \<longleftrightarrow> acceptable_body h bp b \<and> m = body_mass bp b"
proof (cases "bk_transactions b = []")
  case True
  then show ?thesis by (simp add: validate_body_in_isolation_def check_has_transactions_def acceptable_body_def)
next
  case False
  have "validate_body_in_isolation h bp b = Inr m \<longleftrightarrow>
      check_hash_merkle_root h b = Inr () \<and> check_only_one_coinbase b = Inr () \<and> check_transactions_in_isolation h b = Inr () \<and>
      check_coinbase_has_zero_mass bp b = Inr () \<and> check_block_mass bp b = Inr m \<and> check_duplicate_transactions h b = Inr () \<and>
      check_block_double_spends b = Inr () \<and> check_no_chained_transactions h b = Inr ()"
    using False by (cases m) (auto simp: validate_body_in_isolation_def check_has_transactions_def rbind_Inr_iff)
  also have "\<dots> \<longleftrightarrow> acceptable_body h bp b \<and> m = body_mass bp b"
    unfolding check_merkle_iff check_only_one_coinbase_iff [OF False] check_transactions_iff check_coinbase_iff [OF False]
      check_block_mass_iff [OF assms] check_duplicates_iff check_double_spends_iff check_chained_iff acceptable_body_def body_mass_def
    using coinbase_first_iff [OF False] False by argo
  finally show ?thesis .
qed

section \<open>Bodies with other witnesses\<close>

text \<open>A transaction with one more witness, and a block with one transaction changed so.\<close>

definition with_witness :: "bytes \<Rightarrow> cell_tx \<Rightarrow> cell_tx" where
  "with_witness w tx = tx\<lparr>tx_witnesses := tx_witnesses tx @ [w]\<rparr>"

definition tampered :: "nat \<Rightarrow> bytes \<Rightarrow> block \<Rightarrow> block" where
  "tampered i w b = b\<lparr>bk_transactions := (bk_transactions b)[i := with_witness w (bk_transactions b ! i)]\<rparr>"

lemma with_witness_simps [simp]:
  "is_coinbase (with_witness w tx) = is_coinbase tx" "well_formed_tx (with_witness w tx) = well_formed_tx tx"
  "unsigned_part (with_witness w tx) = unsigned_part tx"
  by (simp_all add: with_witness_def is_coinbase_def well_formed_tx_def unsigned_part_def)

lemma with_witness_txid: "\<not> is_coinbase tx \<Longrightarrow> compute_txid h (with_witness w tx) = compute_txid h tx"
  by (simp add: with_witness_def compute_txid_def txid_preimage_def tx_body_def coinbase_fallback_def is_coinbase_def)

lemma with_witness_masses:
  assumes "\<not> is_coinbase tx"
  shows "compute_mass mc (with_witness w tx) = compute_mass mc tx + (8 + length w) * mc_mass_per_tx_byte mc"
    and "transient_mass (with_witness w tx) = transient_mass tx + (8 + length w) * 2"
  using assms by (simp_all add: compute_mass_def transient_mass_def TRANSIENT_BYTE_TO_MASS_FACTOR_def cell_tx_estimated_serialized_size_def
      with_witness_def is_coinbase_def algebra_simps)

lemma map_list_update_same: "i < length xs \<Longrightarrow> f y = f (xs ! i) \<Longrightarrow> map f (xs[i := y]) = map f xs"
  by (metis list_update_id map_update nth_map)

text \<open>The checks before the masses do not see the change.\<close>

lemma tampered_same:
  assumes "acceptable_body h bp b" and "0 < i" and "i < length (bk_transactions b)"
  shows "map (compute_txid h) (bk_transactions (tampered i w b)) = map (compute_txid h) (bk_transactions b)"
    "map unsigned_part (bk_transactions (tampered i w b)) = map unsigned_part (bk_transactions b)"
    "hd (bk_transactions (tampered i w b)) = hd (bk_transactions b)"
    "\<forall>tx\<in>set (tl (bk_transactions (tampered i w b))). well_formed_tx tx"
    "\<not> is_coinbase (bk_transactions b ! i)"
proof -
  let ?txs = "bk_transactions b"
  obtain j where j: "i = Suc j" "j < length (tl ?txs)" using assms(2,3) by (cases i) auto
  have wf: "\<forall>tx\<in>set (tl ?txs). well_formed_tx tx" and ne: "?txs \<noteq> []" using assms(1) by (auto simp: acceptable_body_def)
  have ij: "?txs ! i = tl ?txs ! j" using j ne by (simp add: nth_tl)
  then have ti: "well_formed_tx (?txs ! i)" using wf j(2) by simp
  then show nc: "\<not> is_coinbase (?txs ! i)" by (rule not_coinbase_well_formed)
  show "map (compute_txid h) (bk_transactions (tampered i w b)) = map (compute_txid h) ?txs"
    using map_list_update_same [OF assms(3), of "compute_txid h"] with_witness_txid [OF nc] by (simp add: tampered_def)
  show "map unsigned_part (bk_transactions (tampered i w b)) = map unsigned_part ?txs"
    using map_list_update_same [OF assms(3), of unsigned_part] by (simp add: tampered_def)
  show "hd (bk_transactions (tampered i w b)) = hd ?txs" using ne j(1) by (cases ?txs) (simp_all add: tampered_def)
  have "tl (bk_transactions (tampered i w b)) = (tl ?txs)[j := with_witness w (?txs ! i)]"
    using ne j(1) by (cases ?txs) (simp_all add: tampered_def)
  then show "\<forall>tx\<in>set (tl (bk_transactions (tampered i w b))). well_formed_tx tx"
    using wf ti set_update_subset_insert [of "tl ?txs" j "with_witness w (?txs ! i)"] by auto
qed

lemma tampered_mass_fails:
  assumes ok: "acceptable_body h bp b" and i: "0 < i" "i < length (bk_transactions b)" and w: "length w = bp_max_block_mass bp"
    and fits: "bp_max_block_mass bp + (8 + bp_max_block_mass bp) * mc_mass_per_tx_byte (bp_mass_calculator bp) < 2 ^ 64"
      "3 * bp_max_block_mass bp + 16 < 2 ^ 64"
  shows "\<exists>e. check_block_mass bp (tampered i w b) = Inl (Err e) \<and> \<not> keeps_status e"
proof -
  let ?txs = "bk_transactions b" and ?mc = "bp_mass_calculator bp" and ?max = "bp_max_block_mass bp"
  define tx where "tx = ?txs ! i"
  have nc: "\<not> is_coinbase tx" using tampered_same(5) [OF ok i] by (simp add: tx_def)
  have max: "?max < u64_max" using fits(2) by (simp add: u64_max_def)
  have txs: "?txs = take i ?txs @ tx # drop (Suc i) ?txs" using i(2) by (simp add: tx_def id_take_nth_drop)
  have le: "(\<Sum>tx\<leftarrow>?txs. compute_mass ?mc tx) \<le> ?max" "(\<Sum>tx\<leftarrow>?txs. transient_mass tx) \<le> ?max" using ok by (simp_all add: acceptable_body_def)
  have "(\<Sum>tx\<leftarrow>?txs. compute_mass ?mc tx) = (\<Sum>tx\<leftarrow>take i ?txs. compute_mass ?mc tx) + (compute_mass ?mc tx + (\<Sum>tx\<leftarrow>drop (Suc i) ?txs. compute_mass ?mc tx))"
    "(\<Sum>tx\<leftarrow>?txs. transient_mass tx) = (\<Sum>tx\<leftarrow>take i ?txs. transient_mass tx) + (transient_mass tx + (\<Sum>tx\<leftarrow>drop (Suc i) ?txs. transient_mass tx))"
    by (subst txs, simp)+
  with le have pre: "(\<Sum>tx\<leftarrow>take i ?txs. compute_mass ?mc tx) \<le> ?max" "(\<Sum>tx\<leftarrow>take i ?txs. transient_mass tx) \<le> ?max"
    and own: "compute_mass ?mc tx \<le> ?max" "transient_mass tx \<le> ?max" by linarith+
  obtain c t where run: "rfold (add_masses bp) (0, 0) (take i ?txs) = Inr (c, t)"
    using add_masses_fold [OF max, of 0 0 "take i ?txs"] pre by simp
  have fit: "compute_mass ?mc (with_witness w tx) < 2 ^ 64" "transient_mass (with_witness w tx) < 2 ^ 64" "?max < t + transient_mass (with_witness w tx)"
    using own fits by (simp_all add: with_witness_masses [OF nc] w)
  obtain e where e: "add_masses bp (c, t) (with_witness w tx) = Inl (Err e)" "\<not> keeps_status e"
    using fit(3) by (cases "?max < c + compute_mass ?mc (with_witness w tx)") (simp_all add: add_masses_eq [OF max fit(1,2)] Let_def)
  have "bk_transactions (tampered i w b) = take i ?txs @ with_witness w tx # drop (Suc i) ?txs"
    using i(2) by (simp add: tampered_def tx_def upd_conv_take_nth_drop)
  then show ?thesis using e by (simp add: check_block_mass_def rfold_append run)
qed

lemma tampered_rejected:
  assumes ok: "acceptable_body h bp b" and i: "0 < i" "i < length (bk_transactions b)" and w: "length w = bp_max_block_mass bp"
    and fits: "bp_max_block_mass bp + (8 + bp_max_block_mass bp) * mc_mass_per_tx_byte (bp_mass_calculator bp) < 2 ^ 64"
      "3 * bp_max_block_mass bp + 16 < 2 ^ 64"
  shows "\<exists>e. validate_body_in_isolation h bp (tampered i w b) = Inl (Err e) \<and> \<not> keeps_status e"
proof -
  let ?b = "tampered i w b"
  note same = tampered_same(1-4) [OF ok i, of w]
  have hdr: "bk_header ?b = bk_header b" by (simp add: tampered_def)
  have ne: "bk_transactions ?b \<noteq> []" using i(2) by (auto simp: tampered_def)
  have cb: "is_coinbase (hd (bk_transactions ?b))" "\<forall>tx\<in>set (tl (bk_transactions ?b)). \<not> is_coinbase tx"
    using ok same(3,4) not_coinbase_well_formed by (auto simp: acceptable_body_def)
  have wf: "\<forall>tx\<in>set (bk_transactions ?b). is_coinbase tx \<or> well_formed_tx tx" using cb(1) same(4) ne by (cases "bk_transactions ?b") auto
  have "check_has_transactions ?b = Inr ()" using ne by (simp add: check_has_transactions_def)
  moreover have "check_hash_merkle_root h ?b = Inr ()" using ok unfolding check_merkle_iff same(1) hdr by (simp add: acceptable_body_def)
  moreover have "check_only_one_coinbase ?b = Inr ()" using cb by (simp add: check_only_one_coinbase_iff [OF ne])
  moreover have "check_transactions_in_isolation h ?b = Inr ()" using wf by (simp add: check_transactions_iff)
  moreover have "check_coinbase_has_zero_mass bp ?b = Inr ()"
    using ok unfolding check_coinbase_iff [OF ne] same(3) by (simp add: acceptable_body_def)
  moreover obtain e where "check_block_mass bp ?b = Inl (Err e)" "\<not> keeps_status e" using tampered_mass_fails [OF assms] by blast
  ultimately show ?thesis by (auto simp: validate_body_in_isolation_def)
qed

section \<open>Properties\<close>

text \<open>
  C7: a body passes validation in isolation exactly when it has transactions whose merkle root is the header's,
  the first and only the first one is a coinbase, its payload reads with a zero commitment, every other
  transaction is well formed, the masses stay within the limit, no identifier occurs twice, and no out
  point is spent twice or spent where it is created.  The mass returned is the sum over the transactions.
\<close>

theorem body_isolation_exact:
  assumes "bp_max_block_mass bp < u64_max"
  shows "validate_body_in_isolation h bp b = Inr m \<longleftrightarrow> acceptable_body h bp b \<and> m = body_mass bp b"
  by (rule validate_isolation_iff [OF assms])

text \<open>A block of a coinbase and one transaction, under the parameters of the main network.\<close>

definition ex_body_processor :: body_processor where
  "ex_body_processor = \<lparr>bp_mass_calculator = \<lparr>mc_mass_per_tx_byte = 1, mc_mass_per_script_pub_key_byte = 10, mc_mass_per_sig_op = 1000,
     mc_storage_mass_parameter = 300000000000\<rparr>, bp_coinbase_manager = ex_coinbase_manager, bp_max_block_mass = 2000000\<rparr>"

definition ex_coinbase_tx :: cell_tx where
  "ex_coinbase_tx = \<lparr>tx_version = CELL_TX_VERSION, tx_inputs = [], tx_cell_deps = [], tx_header_deps = [],
     tx_outputs = [\<lparr>co_lock = script_new 1 0 [], co_type = None, co_capacity = 50\<rparr>],
     tx_outputs_data = [payload_head 0 0 0 0 0], tx_witnesses = []\<rparr>"

definition ex_spending_tx :: cell_tx where
  "ex_spending_tx = \<lparr>tx_version = CELL_TX_VERSION, tx_inputs = [cell_input_new (out_point_new 7 0) 0], tx_cell_deps = [], tx_header_deps = [],
     tx_outputs = [\<lparr>co_lock = script_new 1 0 [], co_type = None, co_capacity = 50\<rparr>], tx_outputs_data = [[]], tx_witnesses = [[1]]\<rparr>"

definition ex_block :: block where
  "ex_block = \<lparr>bk_header = \<lparr>hd_hash = 1, hd_hash_merkle_root = 80\<rparr>, bk_transactions = [ex_coinbase_tx, ex_spending_tx]\<rparr>"

abbreviation length_hash :: "bytes \<Rightarrow> byte32" where
  "length_hash \<equiv> \<lambda>bs. word_of_nat (length bs)"

lemma ex_txids: "compute_txid length_hash ex_coinbase_tx = 135" "compute_txid length_hash ex_spending_tx = 129"
  by (simp_all add: ex_coinbase_tx_def ex_spending_tx_def compute_txid_def txid_preimage_def CELL_TXID_DOMAIN_def tx_body_def coinbase_fallback_def
      is_coinbase_def ascii_def bytes32_def input_bytes_def output_bytes_def script_bytes_def script_new_def)

lemma ex_kinds: "is_coinbase ex_coinbase_tx" "\<not> is_coinbase ex_spending_tx" "payload ex_coinbase_tx = Some (payload_head 0 0 0 0 0)"
  "well_formed_tx ex_spending_tx"
  by (simp_all add: ex_coinbase_tx_def ex_spending_tx_def is_coinbase_def payload_def well_formed_tx_def occupied_capacity_def script_new_def)

lemma ex_masses:
  "compute_mass (bp_mass_calculator ex_body_processor) ex_coinbase_tx = 0" "transient_mass ex_coinbase_tx = 0"
  "compute_mass (bp_mass_calculator ex_body_processor) ex_spending_tx = 1491" "transient_mass ex_spending_tx = 322"
  by (simp_all add: compute_mass_def transient_mass_def ex_kinds)
    (simp_all add: ex_spending_tx_def ex_body_processor_def cell_tx_estimated_serialized_size_def output_size_def output_script_size_def
      script_new_def TRANSIENT_BYTE_TO_MASS_FACTOR_def)

lemma ex_payload:
  "deserialize_coinbase_payload ex_coinbase_manager (payload_head 0 0 0 0 0) =
     Inr \<lparr>cb_blue_score = 0, cb_subsidy = 0, cb_mass_commitment = 0, cb_miner_data = \<lparr>md_lock_script = script_new 0 0 [], md_extra_data = []\<rparr>\<rparr>"
  using deserialize_head [of ex_coinbase_manager 0 0 0 0 0 "[]"] by (simp add: ex_coinbase_manager_def split_commitment_def)

lemma ex_root: "merkle_root length_hash [135, 129] = 80"
proof -
  have "ceillog2 (Suc (Suc 0)) = Suc 0" using ceillog2_2 by (simp add: numeral_2_eq_2)
  then show ?thesis by (simp add: merkle_root_def merkle_hash_def ex_two_txs_lengths(3))
qed

lemma ex_block_ok: "acceptable_body length_hash ex_body_processor ex_block"
proof -
  have bp: "bp_coinbase_manager ex_body_processor = ex_coinbase_manager" "bp_max_block_mass ex_body_processor = 2000000"
    by (simp_all add: ex_body_processor_def)
  have spent: "spent_out_points ex_block = [out_point_new 7 0]"
    by (simp add: spent_out_points_def ex_block_def ex_coinbase_tx_def ex_spending_tx_def cell_input_new_def)
  have created: "created_out_points length_hash ex_block = [out_point_new 135 0, out_point_new 129 0]"
    by (simp add: created_out_points_def ex_block_def ex_txids) (simp add: ex_coinbase_tx_def ex_spending_tx_def)
  show ?thesis
    unfolding acceptable_body_def spent created bp
    by (simp add: ex_block_def ex_txids ex_kinds ex_masses ex_payload ex_root out_point_new_def)
qed

theorem body_isolation_exact_witness:
  "validate_body_in_isolation length_hash ex_body_processor ex_block = Inr (\<lparr>nm_compute_mass = 1491, nm_transient_mass = 322\<rparr>, 0)"
proof -
  have "bp_max_block_mass ex_body_processor < u64_max" by (simp add: ex_body_processor_def u64_max_def)
  moreover have "body_mass ex_body_processor ex_block = (\<lparr>nm_compute_mass = 1491, nm_transient_mass = 322\<rparr>, 0)"
    by (simp add: body_mass_def ex_block_def ex_masses)
  ultimately show ?thesis
    using body_isolation_exact [of ex_body_processor length_hash ex_block] ex_block_ok by simp
qed

text \<open>
  C8: the merkle root of a block does not cover the witnesses of its transactions.  For every acceptable body with a
  transaction besides the coinbase there is another one for the same header, which differs in one witness only, is
  refused for its mass and has the header marked invalid for good: the acceptable body is then refused unread.
\<close>

theorem witness_tampering_blocks_body:
  assumes "validate_body_in_isolation h bp b = Inr m" and "1 < length (bk_transactions b)"
    and "bp_max_block_mass bp + (8 + bp_max_block_mass bp) * mc_mass_per_tx_byte (bp_mass_calculator bp) < 2 ^ 64"
    and "3 * bp_max_block_mass bp + 16 < 2 ^ 64"
    and "statuses (hd_hash (bk_header b)) = Some StatusHeaderOnly"
  shows "\<exists>b' e. bk_header b' = bk_header b \<and> map unsigned_part (bk_transactions b') = map unsigned_part (bk_transactions b) \<and>
    (let marked = statuses(hd_hash (bk_header b) \<mapsto> StatusInvalid) in
     process_body h bp in_context statuses b' trusted' = (Inl (Err e), marked) \<and>
     process_body h bp in_context marked b trusted = (Inl (Err KnownInvalid), marked))"
proof -
  define w :: bytes where "w = replicate (bp_max_block_mass bp) 0"
  define b' where "b' = tampered 1 w b"
  have "bp_max_block_mass bp < u64_max" using assms(4) by (simp add: u64_max_def)
  then have ok: "acceptable_body h bp b" using assms(1) by (simp add: validate_isolation_iff)
  have hdr: "bk_header b' = bk_header b" by (simp add: b'_def tampered_def)
  obtain e where e: "validate_body_in_isolation h bp b' = Inl (Err e)" "\<not> keeps_status e"
    using tampered_rejected [OF ok _ assms(2) _ assms(3,4), of w] by (auto simp: b'_def w_def)
  have "process_body h bp in_context statuses b' trusted' = (Inl (Err e), statuses(hd_hash (bk_header b) \<mapsto> StatusInvalid))"
    using e assms(5) by (simp add: process_body_def validate_body_def hdr Let_def)
  moreover have "map unsigned_part (bk_transactions b') = map unsigned_part (bk_transactions b)"
    using tampered_same(2) [OF ok _ assms(2), of w] by (simp add: b'_def)
  ultimately show ?thesis using hdr by (intro exI [of _ b'] exI [of _ e]) (simp add: process_body_def Let_def)
qed

theorem witness_tampering_blocks_body_witness:
  "\<exists>b' e. bk_header b' = bk_header ex_block \<and> map unsigned_part (bk_transactions b') = map unsigned_part (bk_transactions ex_block) \<and>
    process_body length_hash ex_body_processor (\<lambda>b. Inr (body_mass ex_body_processor b)) [1 \<mapsto> StatusHeaderOnly] b' False =
      (Inl (Err e), [1 \<mapsto> StatusInvalid]) \<and>
    process_body length_hash ex_body_processor (\<lambda>b. Inr (body_mass ex_body_processor b)) [1 \<mapsto> StatusInvalid] ex_block False =
      (Inl (Err KnownInvalid), [1 \<mapsto> StatusInvalid])"
proof -
  have "bp_max_block_mass ex_body_processor < u64_max" by (simp add: ex_body_processor_def u64_max_def)
  then have "validate_body_in_isolation length_hash ex_body_processor ex_block = Inr (body_mass ex_body_processor ex_block)"
    using ex_block_ok by (simp add: validate_isolation_iff)
  then show ?thesis
    using witness_tampering_blocks_body [of length_hash ex_body_processor ex_block "body_mass ex_body_processor ex_block"
        "[1 \<mapsto> StatusHeaderOnly]" "\<lambda>b. Inr (body_mass ex_body_processor b)" False False]
    by (simp add: ex_block_def ex_body_processor_def Let_def)
qed

end
