(* ===== verification/Spec2Isabelle.thy ===== *)
theory Spec2Isabelle
  imports GhostdagProps SchedWitnessProps ReachDbProps CellDiffProps SchedProps BlockBody
begin

text \<open>
  A verification development for the consensus core of the Spora node.

  \<^bold>\<open>Parts of the program.\<close>  A Spora node orders the blocks of a DAG and runs the Cell
  transactions they carry.  The reachability service
  (\<^verbatim>\<open>consensus/src/processes/reachability\<close>) answers ancestor queries with nested integer
  intervals, kept in a database behind caches and a staging area
  (\<^verbatim>\<open>consensus/src/model/stores/reachability.rs\<close>, \<^verbatim>\<open>database/src\<close>); GHOSTDAG
  (\<^verbatim>\<open>consensus/src/processes/ghostdag\<close>) uses the queries to select a parent, collect and
  order the mergeset and color it.  The mergeset decides what the coinbase of a block pays
  (\<^verbatim>\<open>consensus/src/processes/coinbase.rs\<close>).  A block body is checked against the merkle root
  of its header (\<^verbatim>\<open>body_processor\<close>, \<^verbatim>\<open>crypto/merkle\<close>); its transactions are identified and
  signed by hashes of their encoding (\<^verbatim>\<open>exec/src/celltx\<close>), scheduled by their dependencies
  (\<^verbatim>\<open>exec/src/scheduler\<close>), and change the cell state by diffs
  (\<^verbatim>\<open>consensus/core/src/cell_diff.rs\<close>).

  \<^bold>\<open>Theories.\<close>
  \<^item> \<open>Prelude\<close>: results with faults (a panic, a returned error, an exhausted loop
    bound), checked 64-bit arithmetic, list functions and the binary search of
    the Rust standard library.
  \<^item> \<open>Floats\<close>, \<open>Bytes\<close>, \<open>BTree\<close>: IEEE rounding of rationals, little-endian byte strings with
    the codec locale, and ordered maps with their interface locale.
  \<^item> \<open>Interval\<close>, \<open>ReachStore\<close>, \<open>ReachQuery\<close>: \<^verbatim>\<open>interval.rs\<close>, \<^verbatim>\<open>MemoryReachabilityStore\<close> and the
    queries of \<^verbatim>\<open>inquirer.rs\<close>; splitting is a partition, queries decide tree ancestry.
  \<^item> \<open>Reindex\<close>, \<open>ReachTree\<close>, \<open>ReachDag\<close>, \<open>ReindexInv\<close>, \<open>ReachSession\<close>: \<^verbatim>\<open>reindex.rs\<close>, \<^verbatim>\<open>tree.rs\<close>
    and the updates of \<^verbatim>\<open>inquirer.rs\<close>; \<^verbatim>\<open>init\<close> followed by any \<^verbatim>\<open>add_block\<close> calls keeps the
    tree and covering-set invariants, and \<^verbatim>\<open>is_dag_ancestor_of\<close> decides reachability.
  \<^item> \<open>Work\<close>, \<open>Ghostdag\<close>, \<open>GhostdagInv\<close>, \<open>GhostdagProps\<close>: compact targets, block work, and the
    protocol over the locale \<open>dag_reachability\<close>, which the reachability store interprets.
  \<^item> \<open>Cache\<close>, \<open>KvStore\<close>: \<^verbatim>\<open>cache.rs\<close> and the typed access of \<^verbatim>\<open>database/src\<close>; a cache never
    returns a stale value, and cached access is a map whatever is evicted.
  \<^item> \<open>ReachDb\<close>, \<open>ReachDbRefine\<close>, \<open>ReachDbProps\<close>: the database-backed reachability store and its
    staging area refine the store in memory; a commit makes the staged state durable.
  \<^item> \<open>CellTypes\<close>, \<open>SchedWitness\<close>, \<open>SchedWitnessProps\<close>: \<^verbatim>\<open>celltx/types.rs\<close>; accounting, and the
    canonical codecs of dependency groups and scheduler witnesses.
  \<^item> \<open>Sighash\<close>, \<open>SighashProps\<close>: identifiers and signature hashes commit to what they should,
    through the locale \<open>self_delimiting\<close> interpreted for every encoding.
  \<^item> \<open>CellDiff\<close>, \<open>CellDiffProps\<close>: application, composition and reversal of state diffs.
  \<^item> \<open>SchedDag\<close>, \<open>SchedDagInv\<close>, \<open>Executor\<close>, \<open>SchedProps\<close>: \<^verbatim>\<open>dag.rs\<close>, \<^verbatim>\<open>executor.rs\<close>,
    \<^verbatim>\<open>conflict.rs\<close> and the conflict rejection of block templates; layering terminates and is
    exact, execution agrees with the sequential one, templates spend nothing twice.
  \<^item> \<open>Coinbase\<close>: payload codec, subsidy and the expected coinbase; rewards are paid exactly and
    the emission is bounded.
  \<^item> \<open>Merkle\<close>, \<open>BlockBody\<close>: the merkle array computes the tree and binds the transactions up to
    their witnesses; validation of a body in isolation is characterised exactly, and the
    witnesses left out of the root let a tampered body block the genuine one.

  \<^bold>\<open>Parameters.\<close>  BLAKE3, SHA-256, RocksDB, bincode and the function that executes one
  transaction are arguments of the definitions; what is assumed of them is a hypothesis
  of the theorem that needs it.

  \<^bold>\<open>Bounds.\<close>  A loop that follows stored data takes a bound on its iterations and
  returns \<open>OutOfFuel\<close> past it.  The number of stored blocks bounds every climb
  and every breadth-first search, so the theorems ask for a bound of that size
  and conclude that the operation returns.  The work-list loops of the scheduler and the
  eviction loop of the cache have termination proofs instead.

  \<^bold>\<open>Not modelled.\<close>  Locks, threads and notifications: the model is sequential.  Difficulty and
  median-time windows, block depth, header validation, pruning and its proofs, the
  contextual validation of bodies and the state commitment of the virtual processor, the
  storage mass, mempool and mining, and the cell index are parts of the program left
  out of this development.  Networking, RPC, wallet, command line and bindings are input and
  output around the core, and the scripts run in an external virtual machine.
\<close>

end
